(* ===== verification/Fur_Prelude.thy ===== *)
theory Fur_Prelude
  imports
    Main
    "HOL-Library.Word"
    "HOL-Library.Char_ord"
    "HOL-Library.List_Lexorder"
    "HOL-Library.Sublist"
    "HOL-Library.Multiset"
    "HOL-Library.Signed_Division"
begin

text \<open>
  Shared vocabulary of the Furrent development: what a C++ call can do (return, throw,
  run into undefined behaviour), 64-bit signed arithmetic with its overflow made explicit,
  checked access to vectors and strings, decimal numerals, and the list lemmas that
  several components use.
\<close>

section \<open>What a C++ call does\<close>

text \<open>
  A call returns a value, leaves by an exception, or runs into undefined behaviour.
  The last case is a value of its own, so that a theorem can say that it never happens,
  or at which inputs it does.
\<close>

datatype exn =
    invalid_argument
  | out_of_range
  | logic_error
  | bad_cast
  | bad_variant_access | bad_optional_access | length_error | filesystem_error | runtime_error | system_error
  | spdlog_ex

datatype fault =
    OutOfBounds
  | DivByZero
  | SignedOverflow
  | EmptyOptional
  | NullPointer

datatype 'a outcome = Ret 'a | Throw exn | UB fault

primrec obind :: "'a outcome \<Rightarrow> ('a \<Rightarrow> 'b outcome) \<Rightarrow> 'b outcome" where
  "obind (Ret x) f = f x"
| "obind (Throw e) f = Throw e"
| "obind (UB b) f = UB b"

primrec is_Ret :: "'a outcome \<Rightarrow> bool" where
  "is_Ret (Ret x) = True"
| "is_Ret (Throw e) = False"
| "is_Ret (UB b) = False"

primrec is_UB :: "'a outcome \<Rightarrow> bool" where
  "is_UB (Ret x) = False"
| "is_UB (Throw e) = False"
| "is_UB (UB b) = True"

text \<open>A loop that runs a fallible body over a sequence and collects the results.\<close>

primrec omap :: "('a \<Rightarrow> 'b outcome) \<Rightarrow> 'a list \<Rightarrow> 'b list outcome" where
  "omap f [] = Ret []"
| "omap f (x # xs) = obind (f x) (\<lambda>y. obind (omap f xs) (\<lambda>ys. Ret (y # ys)))"

section \<open>Machine integers\<close>

type_synonym byte = "8 word"
type_synonym bytes = "8 word list"

definition int64_max :: int where
  "int64_max = 2 ^ 63 - 1"

definition int64_min :: int where
  "int64_min = - (2 ^ 63)"

definition int32_max :: int where
  "int32_max = 2 ^ 31 - 1"

definition in_int64 :: "int \<Rightarrow> bool" where
  "in_int64 x \<longleftrightarrow> int64_min \<le> x \<and> x \<le> int64_max"

definition int64_check :: "int \<Rightarrow> int outcome" where
  "int64_check x = (if in_int64 x then Ret x else UB SignedOverflow)"

definition add64 :: "int \<Rightarrow> int \<Rightarrow> int outcome" where
  "add64 a b = int64_check (a + b)"

definition sub64 :: "int \<Rightarrow> int \<Rightarrow> int outcome" where
  "sub64 a b = int64_check (a - b)"

definition mul64 :: "int \<Rightarrow> int \<Rightarrow> int outcome" where
  "mul64 a b = int64_check (a * b)"

definition div64 :: "int \<Rightarrow> int \<Rightarrow> int outcome" where
  "div64 a b = (if b = 0 then UB DivByZero else int64_check (a sdiv b))"

text \<open>Narrowing to \<open>int\<close>: two's complement truncation to 32 bits.\<close>

definition cast_int32 :: "int \<Rightarrow> int" where
  "cast_int32 x = signed_take_bit 31 x"

section \<open>Checked access\<close>

text \<open>\<open>operator[]\<close> of a vector: undefined outside its elements.\<close>

definition vec_at :: "'a list \<Rightarrow> int \<Rightarrow> 'a outcome" where
  "vec_at xs i = (if 0 \<le> i \<and> i < int (length xs) then Ret (xs ! nat i) else UB OutOfBounds)"

text \<open>
  \<open>operator[]\<close> of a string: reading at \<open>size()\<close> gives the terminating null
  character, reading beyond it is undefined.
\<close>

definition str_at :: "string \<Rightarrow> nat \<Rightarrow> char outcome" where
  "str_at s i =
     (if i < length s then Ret (s ! i)
      else if i = length s then Ret (CHR 0x00)
      else UB OutOfBounds)"

text \<open>The elements at positions \<open>i, ..., j - 1\<close>.\<close>

definition segment :: "'a list \<Rightarrow> nat \<Rightarrow> nat \<Rightarrow> 'a list" where
  "segment t i j = take (j - i) (drop i t)"

section \<open>Decimal numerals\<close>

definition is_digit :: "char \<Rightarrow> bool" where
  "is_digit c \<longleftrightarrow> 48 \<le> (of_char c :: nat) \<and> (of_char c :: nat) \<le> 57"

definition digit_val :: "char \<Rightarrow> nat" where
  "digit_val c = of_char c - 48"

definition digit_char :: "nat \<Rightarrow> char" where
  "digit_char d = char_of (48 + d)"

definition digits_val :: "string \<Rightarrow> nat" where
  "digits_val s = foldl (\<lambda>n c. 10 * n + digit_val c) 0 s"

text \<open>\<open>std::to_string\<close> on an unsigned and on a signed value.\<close>

fun nat_to_string :: "nat \<Rightarrow> string" where
  "nat_to_string n =
     (if n < 10 then [digit_char n] else nat_to_string (n div 10) @ [digit_char (n mod 10)])"

definition int_to_string :: "int \<Rightarrow> string" where
  "int_to_string n =
     (if n < 0 then CHR ''-'' # nat_to_string (nat (- n)) else nat_to_string (nat n))"

declare nat_to_string.simps [simp del]

section \<open>Shared lemmas\<close>

named_theorems arith64 "unfolds the checked 64-bit operations"

lemmas arith64_defs [arith64] =
  add64_def sub64_def mul64_def div64_def int64_check_def in_int64_def int64_max_def int64_min_def

lemma obind_cong [fundef_cong]:
  "m = m' \<Longrightarrow> (\<And>x. m' = Ret x \<Longrightarrow> f x = g x) \<Longrightarrow> obind m f = obind m' g"
  by (cases m') auto

lemma obind_Ret_iff [simp]:
  "obind m f = Ret y \<longleftrightarrow> (\<exists>x. m = Ret x \<and> f x = Ret y)"
  by (cases m) auto

lemma if_Throw_Ret_iff [simp]:
  "(if c then Throw e else m) = Ret y \<longleftrightarrow> \<not> c \<and> m = Ret y"
  "(if c then m else Throw e) = Ret y \<longleftrightarrow> c \<and> m = Ret y"
  by auto

lemma if_UB_Ret_iff [simp]:
  "(if c then UB f else m) = Ret y \<longleftrightarrow> \<not> c \<and> m = Ret y"
  "(if c then m else UB f) = Ret y \<longleftrightarrow> c \<and> m = Ret y"
  by auto

lemma obind_UB_iff:
  "obind m f = UB b \<longleftrightarrow> m = UB b \<or> (\<exists>x. m = Ret x \<and> f x = UB b)"
  by (cases m) auto

lemma obind_Throw_iff:
  "obind m f = Throw e \<longleftrightarrow> m = Throw e \<or> (\<exists>x. m = Ret x \<and> f x = Throw e)"
  by (cases m) auto

lemma obind_Ret_right [simp]: "obind m Ret = m"
  by (cases m) auto

lemma obind_assoc: "obind (obind m f) g = obind m (\<lambda>x. obind (f x) g)"
  by (cases m) auto

text \<open>C++ division truncates; on non-negative operands it is the division of \<open>nat\<close>.\<close>

lemma sdiv_of_nat: "int i sdiv int k = int (i div k)"
  by (cases "i = 0"; cases "k = 0") (simp_all add: signed_divide_int_def of_nat_div)

lemma smod_of_nat: "int i smod int k = int (i mod k)"
  by (cases "i = 0") (simp_all add: signed_modulo_int_def of_nat_mod)

lemma vec_at_Ret_iff [simp]:
  "vec_at xs i = Ret x \<longleftrightarrow> 0 \<le> i \<and> i < int (length xs) \<and> x = xs ! nat i"
  by (auto simp: vec_at_def)

lemma vec_at_of_nat [simp]:
  "i < length xs \<Longrightarrow> vec_at xs (int i) = Ret (xs ! i)"
  by (simp add: vec_at_def)

lemma omap_Ret_length: "omap f xs = Ret ys \<Longrightarrow> length ys = length xs"
  by (induction xs arbitrary: ys) auto

lemma omap_Ret_nth:
  "omap f xs = Ret ys \<Longrightarrow> i < length xs \<Longrightarrow> f (xs ! i) = Ret (ys ! i)"
  by (induction xs arbitrary: ys i) (auto simp: nth_Cons split: nat.splits)

lemma omap_all_Ret: "(\<And>x. x \<in> set xs \<Longrightarrow> f x = Ret (g x)) \<Longrightarrow> omap f xs = Ret (map g xs)"
  by (induction xs) auto

subsection \<open>Slices\<close>

lemma segment_length [simp]: "j \<le> length t \<Longrightarrow> length (segment t i j) = j - i"
  by (simp add: segment_def)

lemma segment_append: "i \<le> j \<Longrightarrow> j \<le> k \<Longrightarrow> segment t i k = segment t i j @ segment t j k"
proof -
  assume "i \<le> j" "j \<le> k"
  then obtain a b where "j = i + a" "k = i + a + b"
    by (metis le_Suc_ex)
  then show ?thesis
    by (simp add: segment_def take_add add.commute)
qed

lemma segment_Suc: "i < j \<Longrightarrow> i < length t \<Longrightarrow> segment t i j = t ! i # segment t (Suc i) j"
  by (simp add: segment_def Cons_nth_drop_Suc [symmetric] Suc_diff_Suc [symmetric] del: Suc_diff_Suc)

lemma segment_empty [simp]: "segment t i i = []"
  by (simp add: segment_def)

lemma segment_snoc: "i \<le> j \<Longrightarrow> j < length t \<Longrightarrow> segment t i (Suc j) = segment t i j @ [t ! j]"
  by (subst segment_append [of i j "Suc j"]) (simp_all add: segment_Suc)

subsection \<open>Numerals\<close>

lemma of_char_digit_char: "d < 10 \<Longrightarrow> of_char (digit_char d) = 48 + d"
  by (simp add: digit_char_def take_bit_nat_eq_self)

lemma digit_char_simps [simp]:
  "d < 10 \<Longrightarrow> is_digit (digit_char d)" "d < 10 \<Longrightarrow> digit_val (digit_char d) = d"
  by (simp_all add: is_digit_def digit_val_def of_char_digit_char)

lemma is_digit_range: "is_digit c \<longleftrightarrow> c \<le> CHR ''9'' \<and> c \<ge> CHR ''0''"
  by (auto simp: is_digit_def less_eq_char_def)

lemma not_digit [simp]:
  "\<not> is_digit (CHR ''-'')" "\<not> is_digit (CHR ''e'')" "\<not> is_digit (CHR '':'')"
  "\<not> is_digit (CHR ''i'')" "\<not> is_digit (CHR ''l'')" "\<not> is_digit (CHR ''d'')" "is_digit (CHR ''0'')"
  by (simp_all add: is_digit_def)

lemma nat_to_string_small: "n < 10 \<Longrightarrow> nat_to_string n = [digit_char n]"
  by (subst nat_to_string.simps) simp

lemma nat_to_string_step:
  "10 \<le> n \<Longrightarrow> nat_to_string n = nat_to_string (n div 10) @ [digit_char (n mod 10)]"
  by (subst nat_to_string.simps) simp

lemma nat_to_string_nonempty [simp]: "nat_to_string n \<noteq> []"
  by (subst nat_to_string.simps) simp

lemma nat_to_string_digits [simp]: "list_all is_digit (nat_to_string n)"
proof (induction n rule: nat_to_string.induct)
  case (1 n)
  then show ?case
    by (cases "n < 10") (simp_all add: nat_to_string_small nat_to_string_step)
qed

lemma digits_val_snoc [simp]: "digits_val (s @ [c]) = 10 * digits_val s + digit_val c"
  by (simp add: digits_val_def)

lemma digits_val_Nil [simp]: "digits_val [] = 0"
  by (simp add: digits_val_def)

lemma digits_val_nat_to_string [simp]: "digits_val (nat_to_string n) = n"
proof (induction n rule: nat_to_string.induct)
  case (1 n)
  show ?case
  proof (cases "n < 10")
    case True
    then show ?thesis
      using digits_val_snoc [of "[]" "digit_char n"] by (simp add: nat_to_string_small)
  next
    case False
    with "1.IH" show ?thesis by (simp add: nat_to_string_step)
  qed
qed

lemma digit_val_pos: "is_digit c \<Longrightarrow> c \<noteq> CHR ''0'' \<Longrightarrow> 0 < digit_val c"
  using of_char_eq_iff [where 'a = nat, of c "CHR ''0''"] by (auto simp: is_digit_def digit_val_def)

lemma digits_val_0: "list_all is_digit s \<Longrightarrow> digits_val s = 0 \<Longrightarrow> s = replicate (length s) (CHR ''0'')"
proof (induction s rule: rev_induct)
  case Nil
  then show ?case by simp
next
  case (snoc c s)
  then have "c = CHR ''0''"
    using digit_val_pos [of c] by fastforce
  moreover from snoc have "s = replicate (length s) (CHR ''0'')" by simp
  ultimately show ?case
    by (metis length_append_singleton replicate_Suc replicate_append_same)
qed

lemma nat_to_string_0 [simp]: "nat_to_string 0 = ''0''"
  by code_simp

end
