(* ===== verification/Result_Type.thy ===== *)
theory Result_Type
  imports Fur_Prelude
begin

text \<open>
  \<open>util::Result\<close> (src/src/util/result.hpp and result.inl): a value or an error, held in a
  \<open>std::variant\<close>. \<open>operator*\<close>, \<open>operator->\<close> and \<open>error()\<close> go through \<open>std::get\<close>, which throws
  \<open>std::bad_variant_access\<close> when the other alternative is held. \<open>util::Outcome\<close> is a \<open>Result\<close>
  over the empty struct.
\<close>

datatype ('r, 'e) Result = OK 'r | ERROR 'e

type_synonym 'e Outcome = "(unit, 'e) Result"

primrec valid :: "('r, 'e) Result \<Rightarrow> bool" where
  "valid (OK r) = True"
| "valid (ERROR e) = False"

primrec deref :: "('r, 'e) Result \<Rightarrow> 'r outcome" where
  "deref (OK r) = Ret r"
| "deref (ERROR e) = Throw bad_variant_access"

primrec error :: "('r, 'e) Result \<Rightarrow> 'e outcome" where
  "error (OK r) = Throw bad_variant_access"
| "error (ERROR e) = Ret e"

text \<open>
  The move constructor and the move assignment swap the two variants, so that the source of an
  assignment is left with the old contents of its target.
\<close>

definition move_assign :: "('r, 'e) Result \<Rightarrow> ('r, 'e) Result \<Rightarrow> ('r, 'e) Result \<times> ('r, 'e) Result" where
  "move_assign this o' = (o', this)"

lemma valid_iff: "valid r \<longleftrightarrow> (\<exists>x. r = OK x)"
  by (cases r) auto

lemma case_Result_Ret_iff:
  "(case r of OK x \<Rightarrow> f x | ERROR e \<Rightarrow> g e) = Ret y \<longleftrightarrow>
     (\<exists>x. r = OK x \<and> f x = Ret y) \<or> (\<exists>e. r = ERROR e \<and> g e = Ret y)"
  by (cases r) auto

lemma not_valid_iff: "\<not> valid r \<longleftrightarrow> (\<exists>e. r = ERROR e)"
  by (cases r) auto

text \<open>Guarded access never throws: the code's use of \<open>valid()\<close> before \<open>operator*\<close> and \<open>error()\<close>.\<close>

lemma guarded_access:
  "if valid r then \<exists>x. deref r = Ret x \<and> r = OK x else \<exists>e. error r = Ret e \<and> r = ERROR e"
  by (cases r) auto

text \<open>The early return \<open>if (!r.valid()) return r;\<close> and its inversions.\<close>

lemma early_return_OK [simp]:
  "(case r of OK x \<Rightarrow> f x | ERROR e \<Rightarrow> Ret (ERROR e)) = Ret (OK y) \<longleftrightarrow> (\<exists>x. r = OK x \<and> f x = Ret (OK y))"
  by (cases r) auto

lemma early_return_UB [simp]:
  "(case r of OK x \<Rightarrow> f x | ERROR e \<Rightarrow> Ret (ERROR e)) = UB b \<longleftrightarrow> (\<exists>x. r = OK x \<and> f x = UB b)"
  by (cases r) auto

end
