(* ===== verification/Wire_Util.thy ===== *)
theory Wire_Util
  imports Fur_Prelude
begin

text \<open>
  The integer codec of the peer wire protocol (src/src/download/util.cpp): a non-negative
  \<open>int64_t\<close> that fits in 32 bits, as four bytes in network order, together with the contract
  every codec of the development satisfies.
\<close>

unbundle bit_operations_syntax

section \<open>Definitions\<close>

text \<open>
  \<open>for (int i = 3; i >= 0; i--) { result[i] = encode_me & 0xFF; encode_me >>= 8; }\<close>:
  the first argument is \<open>i + 1\<close>.
\<close>

primrec encode_integer_loop :: "nat \<Rightarrow> 32 word \<Rightarrow> bytes \<Rightarrow> bytes" where
  "encode_integer_loop 0 encode_me result = result"
| "encode_integer_loop (Suc i) encode_me result =
     encode_integer_loop i (drop_bit 8 encode_me) (result[i := ucast (encode_me AND 0xFF)])"

definition encode_integer :: "int \<Rightarrow> bytes outcome" where
  "encode_integer n =
     (if n < 0 then Throw invalid_argument
      else if n > 2 ^ 32 - 1 then Throw invalid_argument
      else Ret (encode_integer_loop 4 (word_of_int n) [0, 0, 0, 0]))"

text \<open>\<open>for (int i = 0; i <= 3; i++) { result |= buf[i] << (8 * (3 - i)); }\<close>\<close>

definition decode_integer :: "bytes \<Rightarrow> int" where
  "decode_integer buf =
     uint (fold (\<lambda>i result. result OR push_bit (8 * (3 - i)) (ucast (buf ! i)))
             [0..<4] (0 :: 32 word))"

section \<open>The contract of a codec\<close>

text \<open>
  What a client of a wire format relies on: every value of its domain is encoded, and decoding
  the encoding gives the value back. The message layer and the bencode layer promise the same.
\<close>

locale codec =
  fixes dom_ok :: "'a \<Rightarrow> bool"
    and enc :: "'a \<Rightarrow> 'w outcome"
    and dec :: "'w \<Rightarrow> 'a option"
  assumes enc_total: "dom_ok x \<Longrightarrow> \<exists>w. enc x = Ret w"
    and dec_enc: "dom_ok x \<Longrightarrow> enc x = Ret w \<Longrightarrow> dec w = Some x"
begin

lemma enc_injective:
  "dom_ok x \<Longrightarrow> dom_ok y \<Longrightarrow> enc x = Ret w \<Longrightarrow> enc y = Ret w \<Longrightarrow> x = y"
  by (metis dec_enc option.inject)

lemma enc_no_fault: "dom_ok x \<Longrightarrow> is_Ret (enc x)"
  using enc_total by fastforce

lemma roundtrip: "dom_ok x \<Longrightarrow> \<exists>w. enc x = Ret w \<and> dec w = Some x"
  using enc_total dec_enc by blast

end

section \<open>Lemmas\<close>

lemma decode_integer_word:
  "decode_integer [a, b, c, d] =
     uint (push_bit 24 (ucast a) OR push_bit 16 (ucast b) OR push_bit 8 (ucast c) OR (ucast d :: 32 word))"
  by (simp add: decode_integer_def upt_rec numeral_eq_Suc or.assoc)

lemma ucast_and_255: "ucast (x AND 0xFF) = (ucast x :: 8 word)" for x :: "32 word"
proof -
  have m: "(0xFF :: 32 word) = mask 8"
    by (simp add: mask_eq_exp_minus_1)
  show ?thesis
    unfolding m by (rule bit_word_eqI) (auto simp: bit_simps)
qed

lemma encode_integer_loop_word:
  "encode_integer_loop 4 w [0, 0, 0, 0] =
     [ucast (drop_bit 24 w), ucast (drop_bit 16 w), ucast (drop_bit 8 w), ucast w]"
  by (simp add: numeral_eq_Suc ucast_and_255 drop_bit_drop_bit)

lemma byte_position:
  fixes n :: nat
  assumes "n < 32"
  obtains "n < 8" | k where "k < 8" "n = 8 + k" | k where "k < 8" "n = 16 + k" | k where "k < 8" "n = 24 + k"
proof -
  consider "n < 8" | "8 \<le> n" "n < 16" | "16 \<le> n" "n < 24" | "24 \<le> n"
    by linarith
  then show ?thesis
  proof cases
    case 1
    then show ?thesis by (rule that(1))
  next
    case 2
    then show ?thesis using that(2) [of "n - 8"] by simp
  next
    case 3
    then show ?thesis using that(3) [of "n - 16"] by simp
  next
    case 4
    then show ?thesis using that(4) [of "n - 24"] assms by simp
  qed
qed

lemma word32_from_bytes:
  "push_bit 24 (ucast (ucast (drop_bit 24 w) :: 8 word)) OR push_bit 16 (ucast (ucast (drop_bit 16 w) :: 8 word))
   OR push_bit 8 (ucast (ucast (drop_bit 8 w) :: 8 word)) OR ucast (ucast w :: 8 word) = (w :: 32 word)"
  (is "?l = w")
proof (rule bit_word_eqI)
  fix n assume "n < LENGTH(32)"
  then have "n < 32" by simp
  then show "bit ?l n = bit w n"
    by (rule byte_position) (simp_all add: bit_simps)
qed

lemma bytes_from_word32:
  fixes a b c d :: "8 word"
  defines "w \<equiv> push_bit 24 (ucast a) OR push_bit 16 (ucast b) OR push_bit 8 (ucast c) OR (ucast d :: 32 word)"
  shows "ucast (drop_bit 24 w) = a" "ucast (drop_bit 16 w) = b"
    "ucast (drop_bit 8 w) = c" "ucast w = d"
  unfolding w_def by ((rule bit_word_eqI), (auto simp: bit_simps dest: bit_imp_le_length)[1])+

lemma list4_cases:
  assumes "length xs = 4"
  obtains a b c d where "xs = [a, b, c, d]"
  using assms by (auto simp: numeral_eq_Suc length_Suc_conv)

lemma encode_integer_Ret_iff:
  "encode_integer n = Ret w \<longleftrightarrow>
     0 \<le> n \<and> n < 2 ^ 32 \<and> w = encode_integer_loop 4 (word_of_int n) [0, 0, 0, 0]"
  by (auto simp: encode_integer_def)

lemma encode_integer_length: "encode_integer n = Ret w \<Longrightarrow> length w = 4"
  by (auto simp: encode_integer_Ret_iff encode_integer_loop_word)

lemma decode_encode_integer:
  assumes "encode_integer n = Ret w"
  shows "decode_integer w = n"
proof -
  from assms have r: "0 \<le> n" "n < 2 ^ 32"
    and w: "w = encode_integer_loop 4 (word_of_int n) [0, 0, 0, 0]"
    by (auto simp: encode_integer_Ret_iff)
  have "decode_integer w = uint (word_of_int n :: 32 word)"
    unfolding w encode_integer_loop_word decode_integer_word word32_from_bytes ..
  also have "\<dots> = n"
    using r by (simp add: uint_word_of_int)
  finally show ?thesis .
qed

lemma decode_integer_range: "0 \<le> decode_integer buf" "decode_integer buf < 2 ^ 32"
  unfolding decode_integer_def
  using uint_lt2p [of "fold (\<lambda>i result. result OR push_bit (8 * (3 - i)) (ucast (buf ! i))) [0..<4] (0 :: 32 word)"]
  by simp_all

lemma encode_decode_integer:
  assumes "length buf = 4"
  shows "encode_integer (decode_integer buf) = Ret buf"
proof -
  from assms obtain a b c d where buf: "buf = [a, b, c, d]"
    by (rule list4_cases)
  have "encode_integer_loop 4 (word_of_int (decode_integer buf)) [0, 0, 0, 0] = buf"
    unfolding buf decode_integer_word word_of_int_uint encode_integer_loop_word bytes_from_word32 ..
  then show ?thesis
    using decode_integer_range [of buf] by (simp add: encode_integer_Ret_iff)
qed

text \<open>
  C25. The integer codec is an exact inverse: encoding succeeds on \<open>n\<close> with the bytes \<open>w\<close>
  precisely when \<open>w\<close> is four bytes long and decodes to \<open>n\<close>; every other integer throws.
\<close>

theorem encode_integer_exact:
  "encode_integer n = Ret w \<longleftrightarrow> length w = 4 \<and> decode_integer w = n"
  using encode_integer_length decode_encode_integer encode_decode_integer by blast

lemma encode_integer_throws:
  "encode_integer n = Throw invalid_argument \<longleftrightarrow> n < 0 \<or> 2 ^ 32 \<le> n"
  by (auto simp: encode_integer_def)

lemma encode_integer_no_UB: "\<not> is_UB (encode_integer n)"
  by (simp add: encode_integer_def)

definition fits_u32 :: "int \<Rightarrow> bool" where
  "fits_u32 n \<longleftrightarrow> 0 \<le> n \<and> n < 2 ^ 32"

interpretation int_codec: codec fits_u32 encode_integer "\<lambda>w. Some (decode_integer w)"
proof unfold_locales
  fix x assume "fits_u32 x"
  then show "\<exists>w. encode_integer x = Ret w"
    by (simp add: fits_u32_def encode_integer_Ret_iff)
next
  fix x w assume "encode_integer x = Ret w"
  then show "Some (decode_integer w) = Some x"
    by (simp add: decode_encode_integer)
qed

text \<open>The byte order: the first byte is the most significant one.\<close>

lemma ucast_drop_bit_word_of_int:
  assumes "0 \<le> n" "n < 2 ^ 32"
  shows "ucast (drop_bit k (word_of_int n :: 32 word)) = (word_of_int (n div 2 ^ k) :: 8 word)"
proof -
  have "uint (drop_bit k (word_of_int n :: 32 word)) = drop_bit k n"
    using assms by (simp add: unsigned_drop_bit_eq uint_word_of_int take_bit_int_eq_self)
  then have "uint (drop_bit k (word_of_int n :: 32 word)) = n div 2 ^ k"
    by (simp only: drop_bit_eq_div)
  then show ?thesis
    by (simp add: ucast_eq)
qed

lemma word8_of_int_eqI: "k mod 256 = uint a \<Longrightarrow> (word_of_int k :: 8 word) = a"
  by (rule word_uint_eqI) (simp add: uint_word_of_int)

lemma base256_digits:
  fixes a b c d :: int
  assumes "0 \<le> a" "a < 256" "0 \<le> b" "b < 256" "0 \<le> c" "c < 256" "0 \<le> d" "d < 256"
  defines "n \<equiv> a * 2 ^ 24 + b * 2 ^ 16 + c * 2 ^ 8 + d"
  shows "n div 2 ^ 24 mod 256 = a" "n div 2 ^ 16 mod 256 = b" "n div 2 ^ 8 mod 256 = c" "n mod 256 = d"
proof -
  have d24: "n div 2 ^ 24 = a" unfolding n_def using assms(1-8) by simp
  have d16: "n div 2 ^ 16 = a * 256 + b" unfolding n_def using assms(1-8) by simp
  have d8: "n div 2 ^ 8 = (a * 256 + b) * 256 + c" unfolding n_def using assms(1-8) by simp
  have d0: "n = ((a * 256 + b) * 256 + c) * 256 + d" unfolding n_def by simp
  show "n div 2 ^ 24 mod 256 = a" unfolding d24 using assms(1,2) by (simp only: mod_mult_self3 mod_pos_pos_trivial)
  show "n div 2 ^ 16 mod 256 = b" unfolding d16 using assms(3,4) by (simp only: mod_mult_self3 mod_pos_pos_trivial)
  show "n div 2 ^ 8 mod 256 = c" unfolding d8 using assms(5,6) by (simp only: mod_mult_self3 mod_pos_pos_trivial)
  show "n mod 256 = d" unfolding d0 using assms(7,8) by (simp only: mod_mult_self3 mod_pos_pos_trivial)
qed

lemma decode_integer_big_endian:
  "decode_integer [a, b, c, d] = uint a * 2 ^ 24 + uint b * 2 ^ 16 + uint c * 2 ^ 8 + uint d"
proof -
  define n where "n = uint a * 2 ^ 24 + uint b * 2 ^ 16 + uint c * 2 ^ 8 + uint d"
  have byte: "uint x < 256" "0 \<le> uint x" for x :: "8 word"
    using uint_lt2p [of x] by simp_all
  note bounds = byte [of a] byte [of b] byte [of c] byte [of d]
  have n: "0 \<le> n" "n < 2 ^ 32"
    unfolding n_def using bounds by simp_all
  note digits = base256_digits [OF byte(2) byte(1) byte(2) byte(1) byte(2) byte(1) byte(2) byte(1), of a b c d, folded n_def]
  from digits have "encode_integer_loop 4 (word_of_int n) [0, 0, 0, 0] = [a, b, c, d]"
    unfolding encode_integer_loop_word
    by (simp add: ucast_drop_bit_word_of_int [OF n] ucast_drop_bit_word_of_int [OF n, of 0, simplified]
        word8_of_int_eqI)
  with n have "encode_integer n = Ret [a, b, c, d]"
    by (simp add: encode_integer_Ret_iff)
  then show ?thesis
    unfolding n_def [symmetric] by (rule decode_encode_integer)
qed

end
