(* ===== verification/Bitfield.thy ===== *)
theory Bitfield
  imports Fur_Prelude
begin

text \<open>
  The bit array that tracks the pieces of a peer (src/src/download/bitfield.hpp and
  bitfield.cpp). Bit \<open>i\<close> lives in byte \<open>i / 8\<close>, counted from the most significant bit.
  \<open>set\<close> and \<open>get\<close> throw outside \<open>[0, len)\<close>; inside, they index the backing vector without a
  check, so a storage that is too short for \<open>len\<close> leads to undefined behaviour. The second
  constructor takes storage and length from outside and compares neither with the other.
\<close>

unbundle bit_operations_syntax

section \<open>Definitions\<close>

record Bitfield =
  len :: int
  storage :: bytes

definition byte_index :: "int \<Rightarrow> int" where
  "byte_index bit_index = bit_index sdiv 8"

definition byte_offset :: "int \<Rightarrow> int" where
  "byte_offset bit_index = bit_index smod 8"

definition assert_within_bounds :: "int \<Rightarrow> int \<Rightarrow> unit outcome" where
  "assert_within_bounds l index =
     (if index < 0 then Throw invalid_argument
      else if index \<ge> l then Throw invalid_argument
      else Ret ())"

definition INDEX_ZERO :: byte where
  "INDEX_ZERO = 0 OR push_bit 7 1"

text \<open>\<open>explicit Bitfield(int64_t len)\<close>: zeroed storage of \<open>(len + 7) / 8\<close> bytes.\<close>

definition Bitfield_of_len :: "int \<Rightarrow> Bitfield outcome" where
  "Bitfield_of_len l =
     (if l < 0 then Throw invalid_argument
      else obind (add64 l 7) (\<lambda>n.
        Ret \<lparr>len = l, storage = replicate (nat (n sdiv 8)) 0\<rparr>))"

text \<open>\<open>Bitfield(std::vector<uint8_t> storage, int64_t len)\<close>\<close>

definition Bitfield_of_storage :: "bytes \<Rightarrow> int \<Rightarrow> Bitfield" where
  "Bitfield_of_storage st l = \<lparr>len = l, storage = st\<rparr>"

definition set_bit_value :: "Bitfield \<Rightarrow> int \<Rightarrow> bool \<Rightarrow> Bitfield outcome" where
  "set_bit_value bf index value =
     obind (assert_within_bounds (len bf) index) (\<lambda>_.
       let i = byte_index index; m = drop_bit (nat (byte_offset index)) INDEX_ZERO
       in obind (vec_at (storage bf) i) (\<lambda>b.
            Ret (bf\<lparr>storage := (storage bf)[nat i := (if value then b OR m else b AND NOT m)]\<rparr>)))"

definition set_bit_on :: "Bitfield \<Rightarrow> int \<Rightarrow> Bitfield outcome" where
  "set_bit_on bf index = set_bit_value bf index True"

definition unset_bit_at :: "Bitfield \<Rightarrow> int \<Rightarrow> Bitfield outcome" where
  "unset_bit_at bf index = set_bit_value bf index False"

definition get_bit_at :: "Bitfield \<Rightarrow> int \<Rightarrow> bool outcome" where
  "get_bit_at bf index =
     obind (assert_within_bounds (len bf) index) (\<lambda>_.
       obind (vec_at (storage bf) (byte_index index)) (\<lambda>b.
         Ret (b AND drop_bit (nat (byte_offset index)) INDEX_ZERO \<noteq> 0)))"

definition get_bytes :: "Bitfield \<Rightarrow> bytes" where
  "get_bytes bf = storage bf"

text \<open>\<open>operator<<\<close>: eight columns, a hash for a set bit and a dot for a cleared one.\<close>

definition print_cell :: "Bitfield \<Rightarrow> nat \<Rightarrow> string outcome" where
  "print_cell bf i =
     obind (get_bit_at bf (int i)) (\<lambda>b.
       Ret ((if b then ''#'' else ''.'') @ (if (i + 1) mod 8 = 0 then [CHR 0x0A] else [])))"

definition print_bitfield :: "Bitfield \<Rightarrow> string outcome" where
  "print_bitfield bf =
     obind (omap (print_cell bf) [0..<nat (len bf)]) (\<lambda>cells. Ret (concat cells @ [CHR 0x0A]))"

text \<open>
  Well-formedness: the storage holds at least \<open>len\<close> bits. It is what the first constructor
  establishes and what the callers of the second one would have to ensure.
\<close>

definition bf_ok :: "Bitfield \<Rightarrow> bool" where
  "bf_ok bf \<longleftrightarrow> 0 \<le> len bf \<and> len bf \<le> 8 * int (length (storage bf))"

text \<open>The abstract value: the list of the first \<open>len\<close> bits.\<close>

definition bits_of :: "Bitfield \<Rightarrow> bool list" where
  "bits_of bf = map (\<lambda>i. bit (storage bf ! (i div 8)) (7 - i mod 8)) [0..<nat (len bf)]"

section \<open>The contract of a bit array\<close>

locale bit_array =
  fixes inv :: "'b \<Rightarrow> bool"
    and bits :: "'b \<Rightarrow> bool list"
    and put :: "'b \<Rightarrow> int \<Rightarrow> bool \<Rightarrow> 'b outcome"
    and get :: "'b \<Rightarrow> int \<Rightarrow> bool outcome"
  assumes get_in: "inv b \<Longrightarrow> i < length (bits b) \<Longrightarrow> get b (int i) = Ret (bits b ! i)"
    and get_out: "inv b \<Longrightarrow> j < 0 \<or> int (length (bits b)) \<le> j \<Longrightarrow> get b j = Throw invalid_argument"
    and put_in: "inv b \<Longrightarrow> i < length (bits b) \<Longrightarrow>
      \<exists>b'. put b (int i) v = Ret b' \<and> inv b' \<and> bits b' = (bits b)[i := v]"
    and put_out: "inv b \<Longrightarrow> j < 0 \<or> int (length (bits b)) \<le> j \<Longrightarrow> put b j v = Throw invalid_argument"
begin

lemma get_no_UB: "inv b \<Longrightarrow> \<not> is_UB (get b i)"
  by (cases "i < 0 \<or> int (length (bits b)) \<le> i")
    (use get_out get_in [of b "nat i"] in auto)

lemma put_Ret:
  assumes "inv b" "put b i v = Ret b'"
  shows "inv b' \<and> 0 \<le> i \<and> i < int (length (bits b)) \<and> bits b' = (bits b)[nat i := v]"
proof -
  have i: "0 \<le> i \<and> i < int (length (bits b))"
    using put_out [OF assms(1), of i v] assms(2) by force
  then show ?thesis
    using put_in [OF assms(1), of "nat i" v] assms(2) by auto
qed

lemma get_put:
  assumes "inv b" "put b i v = Ret b'" "0 \<le> j" "j < int (length (bits b))"
  shows "get b' j = (if j = i then Ret v else get b j)"
proof -
  from put_Ret [OF assms(1,2)] have b': "inv b'" "0 \<le> i" "i < int (length (bits b))"
    "bits b' = (bits b)[nat i := v]" by auto
  have "get b' (int (nat j)) = Ret (bits b' ! nat j)"
    using b' assms(3,4) by (intro get_in) auto
  moreover have "get b (int (nat j)) = Ret (bits b ! nat j)"
    using assms by (intro get_in) auto
  ultimately show ?thesis
    using b' assms(3,4) by (auto simp: nth_list_update)
qed

end

section \<open>Lemmas\<close>

lemma index_of_nat:
  "byte_index (int i) = int (i div 8)" "byte_offset (int i) = int (i mod 8)"
  using sdiv_of_nat [of i 8] smod_of_nat [of i 8]
  by (simp_all only: byte_index_def byte_offset_def of_nat_numeral)

lemma INDEX_ZERO_bit: "bit INDEX_ZERO m \<longleftrightarrow> m = 7"
proof -
  have "INDEX_ZERO = 2 ^ 7"
    by (simp add: INDEX_ZERO_def)
  then have "bit INDEX_ZERO m = bit (2 ^ 7 :: byte) m"
    by (rule arg_cong)
  also have "\<dots> \<longleftrightarrow> m = 7"
    by (subst bit_exp_iff) auto
  finally show ?thesis .
qed

lemma mask_bit:
  "k < 8 \<Longrightarrow> bit (drop_bit k INDEX_ZERO) n \<longleftrightarrow> n = 7 - k"
  unfolding bit_drop_bit_eq comp_def INDEX_ZERO_bit by arith

lemma and_mask_nonzero:
  fixes b :: byte
  assumes "k < 8"
  shows "b AND drop_bit k INDEX_ZERO \<noteq> 0 \<longleftrightarrow> bit b (7 - k)"
proof
  assume "b AND drop_bit k INDEX_ZERO \<noteq> 0"
  then obtain n where "bit (b AND drop_bit k INDEX_ZERO) n"
    using bit_eqI [of "b AND drop_bit k INDEX_ZERO" 0] by auto
  then show "bit b (7 - k)"
    using mask_bit [OF assms] by (auto simp: bit_and_iff)
next
  assume "bit b (7 - k)"
  then have "bit (b AND drop_bit k INDEX_ZERO) (7 - k)"
    using mask_bit [OF assms] by (simp add: bit_and_iff)
  then show "b AND drop_bit k INDEX_ZERO \<noteq> 0"
    by (metis bit_0_eq bot_apply bot_bool_def)
qed

lemma length_bits_of [simp]: "length (bits_of bf) = nat (len bf)"
  by (simp add: bits_of_def)

lemma byte_in_storage:
  "bf_ok bf \<Longrightarrow> i < nat (len bf) \<Longrightarrow> i div 8 < length (storage bf)"
  by (auto simp: bf_ok_def)

lemma get_bit_at_in:
  assumes "bf_ok bf" "i < nat (len bf)"
  shows "get_bit_at bf (int i) = Ret (bits_of bf ! i)"
proof -
  have "vec_at (storage bf) (int (i div 8)) = Ret (storage bf ! (i div 8))"
    using byte_in_storage [OF assms] by (rule vec_at_of_nat)
  moreover have "storage bf ! (i div 8) AND drop_bit (i mod 8) INDEX_ZERO \<noteq> 0 \<longleftrightarrow> bits_of bf ! i"
    using assms(2) and_mask_nonzero [of "i mod 8"] by (simp add: bits_of_def)
  ultimately show ?thesis
    using assms(2) by (simp add: get_bit_at_def assert_within_bounds_def index_of_nat del: of_nat_div)
qed

lemma out_of_bounds_throws:
  assumes "j < 0 \<or> len bf \<le> j"
  shows "get_bit_at bf j = Throw invalid_argument" "set_bit_value bf j v = Throw invalid_argument"
  using assms by (auto simp: get_bit_at_def set_bit_value_def assert_within_bounds_def)

lemma bit_update_mask:
  fixes b :: byte
  assumes "k < 8" "n < 8"
  shows "bit (if v then b OR drop_bit k INDEX_ZERO else b AND NOT (drop_bit k INDEX_ZERO)) n
    \<longleftrightarrow> (if n = 7 - k then v else bit b n)"
  using assms mask_bit [OF assms(1)] by (auto simp: bit_or_iff bit_and_iff bit_not_iff)

lemma same_bit_iff:
  fixes i j :: nat
  shows "i div 8 = j div 8 \<and> 7 - j mod 8 = 7 - i mod 8 \<longleftrightarrow> i = j"
proof
  assume "i div 8 = j div 8 \<and> 7 - j mod 8 = 7 - i mod 8"
  moreover have "i mod 8 < 8" "j mod 8 < 8" by simp_all
  ultimately have "i div 8 = j div 8" "i mod 8 = j mod 8" by linarith+
  then show "i = j" by (metis div_mult_mod_eq)
qed simp

lemma set_bit_value_in:
  assumes ok: "bf_ok bf" and i: "i < nat (len bf)"
  shows "\<exists>bf'. set_bit_value bf (int i) v = Ret bf' \<and> bf_ok bf' \<and> len bf' = len bf
    \<and> length (storage bf') = length (storage bf) \<and> bits_of bf' = (bits_of bf)[i := v]"
proof -
  note st = byte_in_storage [OF ok]
  define b where "b = storage bf ! (i div 8)"
  define m where "m = drop_bit (i mod 8) INDEX_ZERO"
  define bf' where "bf' = bf\<lparr>storage := (storage bf)[i div 8 := (if v then b OR m else b AND NOT m)]\<rparr>"
  have run: "set_bit_value bf (int i) v = Ret bf'"
    using i vec_at_of_nat [OF st [OF i]]
    by (simp add: set_bit_value_def assert_within_bounds_def Let_def index_of_nat bf'_def b_def m_def
        del: of_nat_div)
  have "bits_of bf' ! j = (bits_of bf)[i := v] ! j" if j: "j < nat (len bf)" for j
  proof (cases "j div 8 = i div 8")
    case True
    then have "bits_of bf' ! j \<longleftrightarrow> bit (if v then b OR m else b AND NOT m) (7 - j mod 8)"
      using j st [OF i] by (simp add: bits_of_def bf'_def)
    also have "\<dots> \<longleftrightarrow> (if 7 - j mod 8 = 7 - i mod 8 then v else bit b (7 - j mod 8))"
      unfolding m_def by (rule bit_update_mask) auto
    finally show ?thesis
      using True same_bit_iff [of i j] j i by (auto simp: bits_of_def b_def nth_list_update)
  next
    case False
    then have "i \<noteq> j" by auto
    with False j show ?thesis by (simp add: bits_of_def bf'_def)
  qed
  then have "bits_of bf' = (bits_of bf)[i := v]"
    by (intro nth_equalityI) (auto simp: bf'_def)
  with run ok show ?thesis
    by (auto simp: bf'_def bf_ok_def)
qed

interpretation bf: bit_array bf_ok bits_of set_bit_value get_bit_at
proof unfold_locales
  fix b i v assume "bf_ok b" "i < length (bits_of b)"
  then show "get_bit_at b (int i) = Ret (bits_of b ! i)"
    and "\<exists>b'. set_bit_value b (int i) v = Ret b' \<and> bf_ok b' \<and> bits_of b' = (bits_of b)[i := v]"
    using get_bit_at_in set_bit_value_in by (simp, fastforce)
next
  fix b and j :: int and v assume "bf_ok b" "j < 0 \<or> int (length (bits_of b)) \<le> j"
  then have "j < 0 \<or> len b \<le> j" by (auto simp: bf_ok_def)
  then show "get_bit_at b j = Throw invalid_argument" "set_bit_value b j v = Throw invalid_argument"
    by (rule out_of_bounds_throws)+
qed

section \<open>Properties\<close>

text \<open>
  C37. On a well-formed bitfield, setting an index in range succeeds, keeps the bitfield
  well-formed, and afterwards \<open>get\<close> gives the value that was set at that index and the old
  value at every other index.
\<close>

theorem bitfield_get_after_set:
  assumes "bf_ok bf" "0 \<le> i" "i < len bf" "0 \<le> j" "j < len bf"
  shows "\<exists>bf'. set_bit_value bf i v = Ret bf' \<and> bf_ok bf' \<and> len bf' = len bf
    \<and> get_bit_at bf' j = (if j = i then Ret v else get_bit_at bf j)"
proof -
  obtain bf' where bf': "set_bit_value bf (int (nat i)) v = Ret bf'" "bf_ok bf'" "len bf' = len bf"
    using set_bit_value_in [OF assms(1), of "nat i" v] assms(2,3) by auto
  moreover have "get_bit_at bf' j = (if j = i then Ret v else get_bit_at bf j)"
    using bf.get_put [OF assms(1), of i v bf' j] bf' assms by simp
  ultimately show ?thesis
    using assms(2) by auto
qed

theorem bitfield_get_after_set_witness:
  "\<exists>bf'. set_bit_value \<lparr>len = 10, storage = [0, 0]\<rparr> 9 True = Ret bf' \<and> bf_ok bf' \<and> len bf' = 10
    \<and> get_bit_at bf' 8 = get_bit_at \<lparr>len = 10, storage = [0, 0]\<rparr> 8"
  using bitfield_get_after_set [of "\<lparr>len = 10, storage = [0, 0]\<rparr>" 9 8 True]
  by (simp add: bf_ok_def)

lemma sdiv8: "0 \<le> i \<Longrightarrow> byte_index i = i div 8" and smod8: "0 \<le> i \<Longrightarrow> byte_offset i = i mod 8"
  using index_of_nat [of "nat i"] by (simp_all add: of_nat_div of_nat_mod)

text \<open>
  Every behaviour of \<open>get\<close>, with no assumption on how storage and length relate: outside
  \<open>[0, len)\<close> it throws, inside it reads bit \<open>7 - i mod 8\<close> of byte \<open>i / 8\<close>, and where the storage
  is too short for that byte the access is undefined behaviour.
\<close>

theorem get_bit_at_total:
  "get_bit_at bf i =
     (if i < 0 \<or> len bf \<le> i then Throw invalid_argument
      else if int (length (storage bf)) \<le> i div 8 then UB OutOfBounds
      else Ret (bit (storage bf ! nat (i div 8)) (7 - nat (i mod 8))))"
proof (cases "i < 0 \<or> len bf \<le> i")
  case True
  then show ?thesis by (simp add: out_of_bounds_throws)
next
  case False
  then have i: "0 \<le> i" "i < len bf" by auto
  have "nat (i mod 8) < 8" by simp
  from and_mask_nonzero [OF this] i show ?thesis
    by (auto simp: get_bit_at_def assert_within_bounds_def sdiv8 smod8 vec_at_def)
qed

text \<open>
  The sizing constructor: for a length of at least 0 that leaves room for the rounding, it
  gives a well-formed bitfield of that length, with the least number of bytes, all bits cleared;
  for a negative length it throws.
\<close>

theorem Bitfield_of_len_spec:
  "if l < 0 then Bitfield_of_len l = Throw invalid_argument
   else if l \<le> int64_max - 7
   then \<exists>bf. Bitfield_of_len l = Ret bf \<and> bf_ok bf \<and> bits_of bf = replicate (nat l) False
          \<and> int (length (storage bf)) = (l + 7) div 8
   else Bitfield_of_len l = UB SignedOverflow"
proof (cases "0 \<le> l \<and> l \<le> int64_max - 7")
  case False
  then show ?thesis
    by (auto simp: Bitfield_of_len_def arith64)
next
  case True
  then have n: "(l + 7) sdiv 8 = (l + 7) div 8"
    using sdiv_of_nat [of "nat (l + 7)" 8] by (simp add: of_nat_div)
  define bf where "bf = \<lparr>len = l, storage = replicate (nat ((l + 7) div 8)) (0 :: byte)\<rparr>"
  have "Bitfield_of_len l = Ret bf"
    using True n by (simp add: Bitfield_of_len_def arith64 bf_def)
  moreover have "bf_ok bf"
    using True by (auto simp: bf_ok_def bf_def)
  moreover have "bits_of bf = replicate (nat l) False"
  proof (rule nth_equalityI)
    fix i assume "i < length (bits_of bf)"
    then show "bits_of bf ! i = replicate (nat l) False ! i"
      using byte_in_storage [OF \<open>bf_ok bf\<close>, of i] by (simp add: bits_of_def bf_def)
  qed (simp add: bf_def)
  ultimately show ?thesis
    using True by (auto simp: bf_def)
qed

lemma print_bitfield_ok:
  assumes "bf_ok bf"
  shows "print_bitfield bf = Ret (concat (map (\<lambda>i. (if bits_of bf ! i then ''#'' else ''.'')
           @ (if (i + 1) mod 8 = 0 then [CHR 0x0A] else [])) [0..<nat (len bf)]) @ [CHR 0x0A])"
proof -
  have "omap (print_cell bf) [0..<nat (len bf)] = Ret (map (\<lambda>i. (if bits_of bf ! i then ''#'' else ''.'')
           @ (if (i + 1) mod 8 = 0 then [CHR 0x0A] else [])) [0..<nat (len bf)])"
    by (rule omap_all_Ret) (simp add: print_cell_def get_bit_at_in [OF assms])
  then show ?thesis
    by (simp add: print_bitfield_def)
qed

end
