(* ===== verification/Bencode.thy ===== *)
theory Bencode
  imports Result_Type
begin

text \<open>
  Bencode values, their encoder and the recursive-descent parser (src/src/bencode). A
  \<open>std::map\<close> is an association list in the order of its keys; strings are lists of bytes
  and compare byte by byte. The parser is the C++ one: an index into the token string, one
  definition per method, the loops of the list and dictionary methods as recursive
  definitions, exceptions of \<open>std::stol\<close> and reads past the end of the string as outcomes.
\<close>

section \<open>Values\<close>

datatype BencodeType = TInteger | TString | TList | TDict

datatype BencodeValue =
    BencodeInt int
  | BencodeString string
  | BencodeList "BencodeValue list"
  | BencodeDict "(string \<times> BencodeValue) list"

primrec get_type :: "BencodeValue \<Rightarrow> BencodeType" where
  "get_type (BencodeInt n) = TInteger"
| "get_type (BencodeString s) = TString"
| "get_type (BencodeList vs) = TList"
| "get_type (BencodeDict m) = TDict"

fun to_string :: "BencodeValue \<Rightarrow> string" where
  "to_string (BencodeInt n) = ''i'' @ int_to_string n @ ''e''"
| "to_string (BencodeString s) = nat_to_string (length s) @ '':'' @ s"
| "to_string (BencodeList vs) = ''l'' @ concat (map to_string vs) @ ''e''"
| "to_string (BencodeDict m) =
     ''d'' @ concat (map (\<lambda>(key, v). nat_to_string (length key) @ '':'' @ key @ to_string v) m) @ ''e''"

definition encode :: "BencodeValue \<Rightarrow> string" where
  "encode v = to_string v"

text \<open>\<open>std::map::insert\<close>: keeps the order, and keeps the old value of a key that is present.\<close>

fun map_insert :: "string \<Rightarrow> 'v \<Rightarrow> (string \<times> 'v) list \<Rightarrow> (string \<times> 'v) list" where
  "map_insert k v [] = [(k, v)]"
| "map_insert k v ((k', v') # m) =
     (if k < k' then (k, v) # (k', v') # m
      else if k = k' then (k', v') # m
      else (k', v') # map_insert k v m)"

section \<open>Parser\<close>

datatype BencodeParserError =
    InvalidString | IntFormat | IntValue | StringFormat | ListFormat | DictFormat | DictKey
  | DictKeyOrder

primrec error_to_string :: "BencodeParserError \<Rightarrow> string" where
  "error_to_string InvalidString = ''InvalidString''"
| "error_to_string IntFormat = ''IntFormat''"
| "error_to_string IntValue = ''IntValue''"
| "error_to_string StringFormat = ''StringFormat''"
| "error_to_string ListFormat = ''ListFormat''"
| "error_to_string DictFormat = ''DictFormat''"
| "error_to_string DictKey = ''DictKey''"
| "error_to_string DictKeyOrder = ''DictKeyOrder''"

type_synonym BencodeResult = "(BencodeValue, BencodeParserError) Result"

text \<open>
  A parser method leaves a value and the new \<open>_index\<close>, or an error. The index left behind by an
  error is never read: the public \<open>decode\<close> resets it.
\<close>

type_synonym parse_result = "(BencodeValue \<times> nat, BencodeParserError) Result outcome"

text \<open>\<open>while (_index < size && _tokens[_index] != stop) { acc += _tokens[_index]; _index++; }\<close>\<close>

function read_until :: "string \<Rightarrow> char \<Rightarrow> nat \<Rightarrow> string \<Rightarrow> string \<times> nat" where
  "read_until t stop i acc =
     (if i < length t \<and> t ! i \<noteq> stop then read_until t stop (Suc i) (acc @ [t ! i]) else (acc, i))"
  by pat_completeness auto
termination
  by (relation "measure (\<lambda>(t, stop, i, acc). length t - i)") auto

text \<open>\<open>for (i = 0; i < n && _index < size; i++) { acc += _tokens[_index]; _index++; }\<close>\<close>

function read_count :: "string \<Rightarrow> int \<Rightarrow> int \<Rightarrow> nat \<Rightarrow> string \<Rightarrow> string \<times> nat" where
  "read_count t n k i acc =
     (if k < n \<and> i < length t then read_count t n (k + 1) (Suc i) (acc @ [t ! i]) else (acc, i))"
  by pat_completeness auto
termination
  by (relation "measure (\<lambda>(t, n, k, i, acc). length t - i)") auto

declare read_until.simps [simp del] read_count.simps [simp del]

text \<open>The regular expressions \<open>^\d+$\<close> and \<open>^-?\d+$\<close> on a whole string.\<close>

definition match_digits :: "string \<Rightarrow> bool" where
  "match_digits s \<longleftrightarrow> s \<noteq> [] \<and> list_all is_digit s"

definition match_signed :: "string \<Rightarrow> bool" where
  "match_signed s \<longleftrightarrow> match_digits (case s of c # ds \<Rightarrow> if c = CHR ''-'' then ds else s | [] \<Rightarrow> s)"

text \<open>\<open>std::stol\<close> on a string that one of these expressions accepts.\<close>

definition signed_val :: "string \<Rightarrow> int" where
  "signed_val s =
     (case s of c # ds \<Rightarrow> if c = CHR ''-'' then - int (digits_val ds) else int (digits_val s) | [] \<Rightarrow> 0)"

definition stol :: "string \<Rightarrow> int outcome" where
  "stol s = (if in_int64 (signed_val s) then Ret (signed_val s) else Throw out_of_range)"

definition decode_int :: "string \<Rightarrow> nat \<Rightarrow> parse_result" where
  "decode_int t i =
     (if int (length t) - int i < 3 then Ret (ERROR IntFormat)
      else case read_until t (CHR ''e'') (i + 1) [] of (integer, j) \<Rightarrow>
        if j = length t then Ret (ERROR IntFormat)
        else obind (str_at t j) (\<lambda>c.
          if c \<noteq> CHR ''e'' then Ret (ERROR IntFormat)
          else if integer = ''-0'' then Ret (ERROR IntValue)
          else if \<not> match_signed integer then Ret (ERROR IntValue)
          else obind (stol integer) (\<lambda>n. Ret (OK (BencodeInt n, j + 1)))))"

definition decode_string :: "string \<Rightarrow> nat \<Rightarrow> parse_result" where
  "decode_string t i =
     (if int (length t) - int i < 3 then Ret (ERROR StringFormat)
      else case read_until t (CHR '':'') i [] of (l, j) \<Rightarrow>
        if \<not> match_digits l then Ret (ERROR InvalidString)
        else obind (stol l) (\<lambda>length_str.
          case read_count t length_str 0 (j + 1) [] of (str, k) \<Rightarrow>
            if int (length str) > int64_max \<or> int (length str) \<noteq> length_str
            then Ret (ERROR InvalidString)
            else Ret (OK (BencodeString str, k))))"

text \<open>The check that no key is greater than the one after it.\<close>

fun keys_in_order :: "string list \<Rightarrow> bool" where
  "keys_in_order (k # k' # ks) = (\<not> k > k' \<and> keys_in_order (k' # ks))"
| "keys_in_order ks = True"

function decode_value :: "string \<Rightarrow> nat \<Rightarrow> parse_result"
  and decode_list :: "string \<Rightarrow> nat \<Rightarrow> parse_result"
  and decode_list_loop :: "string \<Rightarrow> nat \<Rightarrow> BencodeValue list \<Rightarrow> parse_result"
  and decode_dict :: "string \<Rightarrow> nat \<Rightarrow> parse_result"
  and decode_dict_loop ::
    "string \<Rightarrow> nat \<Rightarrow> string list \<Rightarrow> (string \<times> BencodeValue) list \<Rightarrow> parse_result"
where
  "decode_value t i =
     (if t \<noteq> [] then
        obind (str_at t i) (\<lambda>token.
          if token = CHR ''i'' then decode_int t i
          else if token \<le> CHR ''9'' \<and> token \<ge> CHR ''0'' then decode_string t i
          else if token = CHR ''l'' then decode_list t i
          else if token = CHR ''d'' then decode_dict t i
          else Ret (ERROR InvalidString))
      else Ret (ERROR InvalidString))"
| "decode_list t i =
     (if int (length t) - int i < 2 then Ret (ERROR ListFormat) else decode_list_loop t (i + 1) [])"
| "decode_list_loop t i ptr =
     (if i < length t \<and> t ! i \<noteq> CHR ''e'' then
        obind (decode_value t i) (\<lambda>r. case r of
          ERROR e \<Rightarrow> Ret (ERROR e)
        | OK (v, j) \<Rightarrow> decode_list_loop t j (ptr @ [v]))
      else if i \<ge> length t then Ret (ERROR ListFormat)
      else obind (str_at t i) (\<lambda>c.
        if c \<noteq> CHR ''e'' then Ret (ERROR ListFormat) else Ret (OK (BencodeList ptr, i + 1))))"
| "decode_dict t i =
     (if int (length t) - int i < 2 then Ret (ERROR DictFormat) else decode_dict_loop t (i + 1) [] [])"
| "decode_dict_loop t i keys ptr =
     (if i < length t \<and> t ! i \<noteq> CHR ''e'' then
        obind (decode_value t i) (\<lambda>r_key. case r_key of
          ERROR e \<Rightarrow> Ret (ERROR e)
        | OK (key, j) \<Rightarrow>
            (case key of
               BencodeString key_str \<Rightarrow>
                 obind (decode_value t j) (\<lambda>r_value. case r_value of
                   ERROR e \<Rightarrow> Ret (ERROR e)
                 | OK (v, k) \<Rightarrow> decode_dict_loop t k (keys @ [key_str]) (map_insert key_str v ptr))
             | _ \<Rightarrow> Ret (ERROR DictKey)))
      else if i \<ge> length t then Ret (ERROR DictFormat)
      else obind (str_at t i) (\<lambda>c.
        if c \<noteq> CHR ''e'' then Ret (ERROR DictFormat)
        else if \<not> keys_in_order keys then Ret (ERROR DictKeyOrder)
        else Ret (OK (BencodeDict ptr, i + 1))))"
  by pat_completeness auto

lemma read_until_bounds:
  "i \<le> snd (read_until t c i acc)" "i \<le> length t \<Longrightarrow> snd (read_until t c i acc) \<le> length t"
  by (induction t c i acc rule: read_until.induct) (subst read_until.simps, auto)+

lemma read_count_bounds:
  "i \<le> snd (read_count t n k i acc)"
  "i \<le> length t \<Longrightarrow> snd (read_count t n k i acc) \<le> length t"
  by (induction t n k i acc rule: read_count.induct) (subst read_count.simps, auto)+

lemma decode_int_progress: "decode_int t i = Ret (OK (v, j)) \<Longrightarrow> i < j"
  using read_until_bounds(1) [of "Suc i" t "CHR ''e''" "[]"]
  by (auto simp: decode_int_def case_prod_unfold split: if_splits)

lemma decode_string_OK:
  assumes "decode_string t i = Ret (OK (v, k))"
  obtains l j str where "read_until t (CHR '':'') i [] = (l, j)" "match_digits l"
    "stol l = Ret (int (length str))" "read_count t (int (length str)) 0 (Suc j) [] = (str, k)"
    "v = BencodeString str" "i + 3 \<le> length t"
proof -
  obtain l j where lj: "read_until t (CHR '':'') i [] = (l, j)"
    by fastforce
  with assms obtain n where n: "match_digits l" "stol l = Ret n" "i + 3 \<le> length t"
    by (auto simp: decode_string_def split: if_splits)
  obtain str k' where sk: "read_count t n 0 (Suc j) [] = (str, k')"
    by fastforce
  with assms lj n have "int (length str) = n" "k' = k" "v = BencodeString str"
    by (auto simp: decode_string_def split: if_splits)
  with lj n sk show thesis
    by (intro that [of l j str]) simp_all
qed

lemma decode_string_progress: "decode_string t i = Ret (OK (v, j)) \<Longrightarrow> i < j"
proof (erule decode_string_OK)
  fix l k str
  assume "read_until t (CHR '':'') i [] = (l, k)" "read_count t (int (length str)) 0 (Suc k) [] = (str, j)"
  then show "i < j"
    using read_until_bounds(1) [of i t "CHR '':''" "[]"]
      read_count_bounds(1) [of "Suc k" t "int (length str)" 0 "[]"] by simp
qed

lemma dict_key_OK:
  "(case key of BencodeInt n \<Rightarrow> Ret (ERROR e) | BencodeString s \<Rightarrow> f s | BencodeList vs \<Rightarrow> Ret (ERROR e)
      | BencodeDict m \<Rightarrow> Ret (ERROR e)) = Ret (OK y)
    \<longleftrightarrow> (\<exists>s. key = BencodeString s \<and> f s = Ret (OK y))"
  by (cases key) auto

text \<open>
  Every call that succeeds moves the index forward. This is what makes the loops end, so it is
  proved first, on the domain of the recursion, and then used for the termination proof.
\<close>

lemma decode_progress_dom:
  "decode_value_decode_list_decode_list_loop_decode_dict_decode_dict_loop_dom (Inl (Inl (t, i))) \<Longrightarrow>
     decode_value t i = Ret (OK (v, j)) \<Longrightarrow> i < j"
  "decode_value_decode_list_decode_list_loop_decode_dict_decode_dict_loop_dom (Inl (Inr (t, i))) \<Longrightarrow>
     decode_list t i = Ret (OK (v, j)) \<Longrightarrow> i < j"
  "decode_value_decode_list_decode_list_loop_decode_dict_decode_dict_loop_dom (Inr (Inl (t, i, vs))) \<Longrightarrow>
     decode_list_loop t i vs = Ret (OK (v, j)) \<Longrightarrow> i < j"
  "decode_value_decode_list_decode_list_loop_decode_dict_decode_dict_loop_dom (Inr (Inr (Inl (t, i)))) \<Longrightarrow>
     decode_dict t i = Ret (OK (v, j)) \<Longrightarrow> i < j"
  "decode_value_decode_list_decode_list_loop_decode_dict_decode_dict_loop_dom (Inr (Inr (Inr (t, i, ks, m)))) \<Longrightarrow>
     decode_dict_loop t i ks m = Ret (OK (v, j)) \<Longrightarrow> i < j"
proof (induction t i and t i and t i vs and t i and t i ks m
    arbitrary: v j and v j and v j and v j and v j
    rule: decode_value_decode_list_decode_list_loop_decode_dict_decode_dict_loop.pinduct)
  case (1 t i)
  then show ?case
    by (auto simp: decode_value.psimps split: if_splits dest: decode_int_progress decode_string_progress)
next
  case (2 t i)
  then show ?case
    by (fastforce simp: decode_list.psimps split: if_splits)
next
  case (3 t i vs)
  show ?case
  proof (cases "i < length t \<and> t ! i \<noteq> CHR ''e''")
    case True
    from True "3.prems" obtain w k where d: "decode_value t i = Ret (OK (w, k))"
      and l: "decode_list_loop t k (vs @ [w]) = Ret (OK (v, j))"
      by (simp only: decode_list_loop.psimps [OF "3.hyps"]) auto
    have "i < k" by (rule "3.IH"(1) [OF True d])
    moreover have "k < j" by (rule "3.IH"(2) [OF True d _ _ l]) auto
    ultimately show ?thesis by simp
  next
    case False
    with "3.prems" show ?thesis
      by (simp only: decode_list_loop.psimps [OF "3.hyps"]) (auto split: if_splits)
  qed
next
  case (4 t i)
  then show ?case
    by (fastforce simp: decode_dict.psimps split: if_splits)
next
  case (5 t i ks m)
  show ?case
  proof (cases "i < length t \<and> t ! i \<noteq> CHR ''e''")
    case True
    from True "5.prems" obtain s k w l where d: "decode_value t i = Ret (OK (BencodeString s, k))"
      and d': "decode_value t k = Ret (OK (w, l))"
      and r: "decode_dict_loop t l (ks @ [s]) (map_insert s w m) = Ret (OK (v, j))"
      by (simp only: decode_dict_loop.psimps [OF "5.hyps"]) (auto simp: dict_key_OK)
    have "i < k" by (rule "5.IH"(1) [OF True d])
    moreover have "k < l" by (rule "5.IH"(2) [OF True d _ _ _ d']) auto
    moreover have "l < j" by (rule "5.IH"(3) [OF True d _ _ _ d' _ _ r]) auto
    ultimately show ?thesis by simp
  next
    case False
    with "5.prems" show ?thesis
      by (simp only: decode_dict_loop.psimps [OF "5.hyps"]) (auto split: if_splits)
  qed
qed

termination decode_value
  by (relation "measures
      [\<lambda>x. case x of Inl (Inl (t, i)) \<Rightarrow> length t + 2 - i | Inl (Inr (t, i)) \<Rightarrow> length t + 2 - i
         | Inr (Inl (t, i, _)) \<Rightarrow> length t + 2 - i | Inr (Inr (Inl (t, i))) \<Rightarrow> length t + 2 - i
         | Inr (Inr (Inr (t, i, _))) \<Rightarrow> length t + 2 - i,
       \<lambda>x. case x of Inl (Inl _) \<Rightarrow> 1 | Inl (Inr _) \<Rightarrow> 0 | Inr (Inl _) \<Rightarrow> 2
         | Inr (Inr (Inl _)) \<Rightarrow> 0 | Inr (Inr (Inr _)) \<Rightarrow> 2]")
    (auto dest!: decode_progress_dom(1) intro: diff_less_mono2)

declare decode_value.simps [simp del] decode_list.simps [simp del] decode_list_loop.simps [simp del]
  decode_dict.simps [simp del] decode_dict_loop.simps [simp del]

text \<open>The public \<open>decode\<close>: the whole string has to be consumed.\<close>

definition decode :: "string \<Rightarrow> BencodeResult outcome" where
  "decode s =
     (if int (length s) > int64_max then Throw invalid_argument
      else obind (decode_value s 0) (\<lambda>r. case r of
             ERROR e \<Rightarrow> Ret (ERROR e)
           | OK (v, i) \<Rightarrow> if i \<noteq> length s then Ret (ERROR InvalidString) else Ret (OK v)))"

section \<open>The parts of the parser\<close>

lemma read_until_takeWhile:
  "read_until t c i acc =
     (acc @ takeWhile (\<lambda>x. x \<noteq> c) (drop i t), i + length (takeWhile (\<lambda>x. x \<noteq> c) (drop i t)))"
proof (induction t c i acc rule: read_until.induct)
  case (1 t c i acc)
  show ?case
  proof (cases "i < length t")
    case True
    with "1.IH" show ?thesis
      by (subst read_until.simps) (simp add: Cons_nth_drop_Suc [OF True, symmetric])
  next
    case False
    then show ?thesis
      by (subst read_until.simps) simp
  qed
qed

lemma read_count_take:
  "k \<le> n \<Longrightarrow> read_count t n k i acc =
     (acc @ take (nat (n - k)) (drop i t), i + length (take (nat (n - k)) (drop i t)))"
proof (induction t n k i acc rule: read_count.induct)
  case (1 t n k i acc)
  show ?case
  proof (cases "k < n \<and> i < length t")
    case True
    then have "nat (n - k) = Suc (nat (n - (k + 1)))" by linarith
    with True "1.IH" show ?thesis
      by (subst read_count.simps) (simp add: Cons_nth_drop_Suc [symmetric])
  next
    case False
    with "1.prems" show ?thesis
      by (subst read_count.simps) auto
  qed
qed

end
