(* ===== verification/Bencode_Spec.thy ===== *)
theory Bencode_Spec
  imports Bencode Wire_Util
begin

text \<open>
  What the parser accepts, as a grammar, and the proofs that the parser of Bencode.thy
  implements it: an inductive relation between strings and the values they encode, soundness
  and completeness of the parser for it, the round trip with the encoder, and the inputs at
  which the parser reads past the end of its string.
\<close>

section \<open>The accepted language\<close>

text \<open>
  The language is wider than canonical bencode: numbers may have leading zeros, and a
  dictionary may repeat a key, in which case the first value counts.
\<close>

definition insert_all :: "(string \<times> 'v) list \<Rightarrow> (string \<times> 'v) list \<Rightarrow> (string \<times> 'v) list" where
  "insert_all m kvs = foldl (\<lambda>m (k, v). map_insert k v m) m kvs"

inductive bencoded :: "string \<Rightarrow> BencodeValue \<Rightarrow> bool"
  and bencoded_seq :: "string \<Rightarrow> BencodeValue list \<Rightarrow> bool"
  and bencoded_entries :: "string \<Rightarrow> (string \<times> BencodeValue) list \<Rightarrow> bool"
where
  int: "match_signed s \<Longrightarrow> s \<noteq> ''-0'' \<Longrightarrow> in_int64 (signed_val s) \<Longrightarrow>
    bencoded (''i'' @ s @ ''e'') (BencodeInt (signed_val s))"
| str: "match_digits ds \<Longrightarrow> digits_val ds = length s \<Longrightarrow> bencoded (ds @ '':'' @ s) (BencodeString s)"
| list: "bencoded_seq s vs \<Longrightarrow> bencoded (''l'' @ s @ ''e'') (BencodeList vs)"
| dict: "bencoded_entries s kvs \<Longrightarrow> keys_in_order (map fst kvs) \<Longrightarrow>
    bencoded (''d'' @ s @ ''e'') (BencodeDict (insert_all [] kvs))"
| seq_Nil: "bencoded_seq '''' []"
| seq_Cons: "bencoded s v \<Longrightarrow> bencoded_seq s' vs \<Longrightarrow> bencoded_seq (s @ s') (v # vs)"
| entries_Nil: "bencoded_entries '''' []"
| entries_Cons: "bencoded sk (BencodeString k) \<Longrightarrow> bencoded sv v \<Longrightarrow> bencoded_entries s kvs \<Longrightarrow>
    bencoded_entries (sk @ sv @ s) ((k, v) # kvs)"

text \<open>The values the parser can produce and the encoder is meant for.\<close>

fun wf_value :: "BencodeValue \<Rightarrow> bool" where
  "wf_value (BencodeInt n) = in_int64 n"
| "wf_value (BencodeString s) = True"
| "wf_value (BencodeList vs) = list_all wf_value vs"
| "wf_value (BencodeDict m) = (sorted_wrt (<) (map fst m) \<and> list_all (\<lambda>(k, v). wf_value v) m)"

section \<open>Completeness: every encoding is parsed\<close>

lemma bencoded_start: "bencoded s v \<Longrightarrow> \<exists>c r. s = c # r \<and> c \<noteq> CHR ''e''"
  by (erule bencoded.cases) (auto simp: match_digits_def neq_Nil_conv list_all_iff)

lemma match_digits_no_colon: "match_digits ds \<Longrightarrow> takeWhile (\<lambda>x. x \<noteq> CHR '':'') (ds @ CHR '':'' # r) = ds"
  by (subst takeWhile_append2) (auto simp: match_digits_def list_all_iff)

lemma match_signed_no_e: "match_signed s \<Longrightarrow> takeWhile (\<lambda>x. x \<noteq> CHR ''e'') (s @ CHR ''e'' # r) = s"
  by (subst takeWhile_append2)
    (auto simp: match_signed_def match_digits_def list_all_iff split: list.splits if_splits)

lemma signed_val_digits: "match_digits ds \<Longrightarrow> signed_val ds = int (digits_val ds)"
  by (auto simp: match_digits_def signed_val_def split: list.splits)

lemma match_signed_nonempty: "match_signed s \<Longrightarrow> s \<noteq> []"
  by (auto simp: match_signed_def match_digits_def)

lemma decode_int_complete:
  assumes "match_signed s" "s \<noteq> ''-0''" "in_int64 (signed_val s)"
  shows "decode_int (pre @ (''i'' @ s @ ''e'') @ post) (length pre) =
    Ret (OK (BencodeInt (signed_val s), length pre + length (''i'' @ s @ ''e'')))"
proof -
  let ?t = "pre @ (''i'' @ s @ ''e'') @ post"
  have "drop (Suc (length pre)) ?t = s @ CHR ''e'' # post" by simp
  then have r: "read_until ?t (CHR ''e'') (length pre + 1) [] = (s, Suc (length pre + length s))"
    by (simp add: read_until_takeWhile match_signed_no_e [OF assms(1)])
  have "?t ! Suc (length pre + length s) = CHR ''e''"
    by (simp add: nth_append)
  then show ?thesis
    using assms r match_signed_nonempty [OF assms(1)]
    by (cases s) (auto simp: decode_int_def str_at_def stol_def)
qed

lemma decode_string_complete:
  assumes "match_digits ds" "digits_val ds = length s" "post \<noteq> [] \<or> ds @ '':'' @ s \<noteq> ''0:''"
    and fits: "int (length (pre @ (ds @ '':'' @ s) @ post)) \<le> int64_max"
  shows "decode_string (pre @ (ds @ '':'' @ s) @ post) (length pre) =
    Ret (OK (BencodeString s, length pre + length (ds @ '':'' @ s)))"
proof -
  let ?t = "pre @ (ds @ '':'' @ s) @ post"
  have r: "read_until ?t (CHR '':'') (length pre) [] = (ds, length pre + length ds)"
    by (simp add: read_until_takeWhile match_digits_no_colon [OF assms(1)])
  have n: "stol ds = Ret (int (length s))"
    using fits by (simp add: stol_def signed_val_digits assms in_int64_def int64_min_def int64_max_def)
  have "drop (Suc (length pre + length ds)) ?t = s @ post" by simp
  then have c: "read_count ?t (int (length s)) 0 (length pre + length ds + 1) [] =
      (s, length pre + length (ds @ '':'' @ s))"
    by (simp add: read_count_take)
  have "3 \<le> length ((ds @ '':'' @ s) @ post)"
  proof (cases "length ds = 1 \<and> s = []")
    case True
    with assms(1,2) have "ds = ''0''"
      using digits_val_0 [of ds] by (auto simp: match_digits_def)
    with True assms(3) show ?thesis by (cases post) auto
  next
    case False
    with assms(1) show ?thesis
      by (cases ds; cases "tl ds"; cases s) (auto simp: match_digits_def)
  qed
  then show ?thesis
    using r n c assms(1) fits by (simp add: decode_string_def)
qed

lemma str_at_append [simp]: "str_at (pre @ c # r) (length pre) = Ret c"
  by (simp add: str_at_def)

lemma decode_value_dispatch:
  "decode_value (pre @ c # r) (length pre) =
     (if c = CHR ''i'' then decode_int (pre @ c # r) (length pre)
      else if is_digit c then decode_string (pre @ c # r) (length pre)
      else if c = CHR ''l'' then decode_list (pre @ c # r) (length pre)
      else if c = CHR ''d'' then decode_dict (pre @ c # r) (length pre)
      else Ret (ERROR InvalidString))"
  by (simp add: decode_value.simps is_digit_range)

lemma decode_list_loop_end:
  "decode_list_loop (pre @ CHR ''e'' # post) (length pre) vs = Ret (OK (BencodeList vs, Suc (length pre)))"
  by (subst decode_list_loop.simps) simp

lemma decode_list_loop_step:
  assumes "c \<noteq> CHR ''e''" "decode_value (pre @ c # r) (length pre) = Ret (OK (v, j))"
  shows "decode_list_loop (pre @ c # r) (length pre) vs = decode_list_loop (pre @ c # r) j (vs @ [v])"
  using assms by (subst decode_list_loop.simps) simp

lemma decode_dict_loop_end:
  assumes "keys_in_order ks"
  shows "decode_dict_loop (pre @ CHR ''e'' # post) (length pre) ks m = Ret (OK (BencodeDict m, Suc (length pre)))"
  using assms by (subst decode_dict_loop.simps) simp

lemma decode_dict_loop_step:
  assumes "c \<noteq> CHR ''e''" "decode_value (pre @ c # r) (length pre) = Ret (OK (BencodeString k, j))"
    "decode_value (pre @ c # r) j = Ret (OK (v, l))"
  shows "decode_dict_loop (pre @ c # r) (length pre) ks m =
    decode_dict_loop (pre @ c # r) l (ks @ [k]) (map_insert k v m)"
  using assms by (subst decode_dict_loop.simps) simp

lemma decode_complete:
  "bencoded s v \<Longrightarrow> post \<noteq> [] \<or> s \<noteq> ''0:'' \<Longrightarrow> int (length (pre @ s @ post)) \<le> int64_max \<Longrightarrow>
    decode_value (pre @ s @ post) (length pre) = Ret (OK (v, length pre + length s))"
  "bencoded_seq s vs \<Longrightarrow> int (length (pre @ s @ CHR ''e'' # post)) \<le> int64_max \<Longrightarrow>
    decode_list_loop (pre @ s @ CHR ''e'' # post) (length pre) acc =
      Ret (OK (BencodeList (acc @ vs), length pre + length s + 1))"
  "bencoded_entries s kvs \<Longrightarrow> int (length (pre @ s @ CHR ''e'' # post)) \<le> int64_max \<Longrightarrow>
    keys_in_order (ks @ map fst kvs) \<Longrightarrow>
    decode_dict_loop (pre @ s @ CHR ''e'' # post) (length pre) ks m =
      Ret (OK (BencodeDict (insert_all m kvs), length pre + length s + 1))"
proof (induction arbitrary: pre post and pre post acc and pre post ks m
    rule: bencoded_bencoded_seq_bencoded_entries.inducts)
  case (int s)
  then show ?case
    using decode_int_complete [of s pre post] decode_value_dispatch [of pre "CHR ''i''" "s @ ''e'' @ post"]
    by simp
next
  case (str ds s)
  then obtain c ds' where ds: "ds = c # ds'" "is_digit c"
    by (auto simp: match_digits_def neq_Nil_conv)
  then have "c \<noteq> CHR ''i''" by auto
  with ds str show ?case
    using decode_string_complete [of ds s post pre] decode_value_dispatch [of pre c "ds' @ '':'' @ s @ post"]
    by simp
next
  case (list s vs)
  then show ?case
    using list.IH [of "pre @ ''l''" post "[]"] decode_value_dispatch [of pre "CHR ''l''" "s @ ''e'' @ post"]
    by (simp add: decode_list.simps)
next
  case (dict s kvs)
  then show ?case
    using dict.IH [of "pre @ ''d''" post "[]" "[]"] decode_value_dispatch [of pre "CHR ''d''" "s @ ''e'' @ post"]
    by (simp add: decode_dict.simps)
next
  case seq_Nil
  then show ?case by (simp add: decode_list_loop_end)
next
  case (seq_Cons s v s' vs)
  from bencoded_start [OF seq_Cons.hyps(1)] obtain c r where s: "s = c # r" and c: "c \<noteq> CHR ''e''"
    by auto
  have d: "decode_value (pre @ s @ s' @ CHR ''e'' # post) (length pre) = Ret (OK (v, length pre + length s))"
    using seq_Cons.IH(1) [of "s' @ CHR ''e'' # post" pre] seq_Cons.prems by simp
  have "decode_list_loop (pre @ (s @ s') @ CHR ''e'' # post) (length pre) acc =
      decode_list_loop ((pre @ s) @ s' @ CHR ''e'' # post) (length (pre @ s)) (acc @ [v])"
    using decode_list_loop_step [OF c, of pre "r @ s' @ CHR ''e'' # post"] d by (simp add: s)
  also have "\<dots> = Ret (OK (BencodeList (acc @ v # vs), length (pre @ s) + length s' + 1))"
    using seq_Cons.IH(2) [of "pre @ s" post "acc @ [v]"] seq_Cons.prems by simp
  finally show ?case by simp
next
  case entries_Nil
  then show ?case by (simp add: decode_dict_loop_end insert_all_def)
next
  case (entries_Cons sk k sv v s kvs)
  from bencoded_start [OF entries_Cons.hyps(1)] obtain c r where sk: "sk = c # r" and c: "c \<noteq> CHR ''e''"
    by auto
  from bencoded_start [OF entries_Cons.hyps(2)] have "sv \<noteq> []" by auto
  then have dk: "decode_value (pre @ sk @ sv @ s @ CHR ''e'' # post) (length pre) =
      Ret (OK (BencodeString k, length pre + length sk))"
    using entries_Cons.IH(1) [of "sv @ s @ CHR ''e'' # post" pre] entries_Cons.prems by simp
  have dv: "decode_value (pre @ sk @ sv @ s @ CHR ''e'' # post) (length pre + length sk) =
      Ret (OK (v, length pre + length sk + length sv))"
    using entries_Cons.IH(2) [of "s @ CHR ''e'' # post" "pre @ sk"] entries_Cons.prems by simp
  have "decode_dict_loop (pre @ (sk @ sv @ s) @ CHR ''e'' # post) (length pre) ks m =
      decode_dict_loop ((pre @ sk @ sv) @ s @ CHR ''e'' # post) (length (pre @ sk @ sv)) (ks @ [k]) (map_insert k v m)"
    using decode_dict_loop_step [OF c, of pre "r @ sv @ s @ CHR ''e'' # post"] dk dv
    by (simp add: sk add.assoc)
  also have "\<dots> = Ret (OK (BencodeDict (insert_all (map_insert k v m) kvs), length (pre @ sk @ sv) + length s + 1))"
    using entries_Cons.IH(3) [of "pre @ sk @ sv" post "ks @ [k]"] entries_Cons.prems by simp
  finally show ?case by (simp add: insert_all_def)
qed

section \<open>Soundness: what is parsed is an encoding\<close>

lemma segment_takeWhile: "segment t i (i + length (takeWhile P (drop i t))) = takeWhile P (drop i t)"
  by (simp add: segment_def flip: takeWhile_eq_take)

lemma takeWhile_stop:
  "i + length (takeWhile P (drop i t)) < length t \<Longrightarrow> \<not> P (t ! (i + length (takeWhile P (drop i t))))"
  using nth_length_takeWhile [of P "drop i t"] by simp

lemma takeWhile_bound: "i \<le> length t \<Longrightarrow> i + length (takeWhile P (drop i t)) \<le> length t"
  using length_takeWhile_le [of P "drop i t"] by simp

lemma decode_int_sound:
  assumes "decode_int t i = Ret (OK (v, j))" "i < length t" "t ! i = CHR ''i''"
  shows "j \<le> length t \<and> bencoded (segment t i j) v"
proof -
  define s where "s = takeWhile (\<lambda>x. x \<noteq> CHR ''e'') (drop (Suc i) t)"
  define k where "k = Suc i + length s"
  have "k \<le> length t"
    unfolding k_def s_def using assms(2) by (intro takeWhile_bound) simp
  with assms(1) have k: "k < length t" and j: "j = Suc k" and v: "v = BencodeInt (signed_val s)"
    and s: "s \<noteq> ''-0''" "match_signed s" "in_int64 (signed_val s)"
    by (auto simp: decode_int_def read_until_takeWhile s_def [symmetric] k_def stol_def split: if_splits)
  have e: "t ! k = CHR ''e''"
    using takeWhile_stop [of "Suc i" "\<lambda>x. x \<noteq> CHR ''e''" t] k by (simp add: s_def k_def)
  have "segment t (Suc i) k = s"
    unfolding k_def s_def by (rule segment_takeWhile)
  moreover have "segment t i j = t ! i # segment t (Suc i) k @ [t ! k]"
    unfolding j using k segment_snoc [of i k t] segment_Suc [of i k t] by (simp add: k_def)
  ultimately have "segment t i j = ''i'' @ s @ ''e''"
    using e assms(3) by simp
  with s v j k show ?thesis
    by (simp add: bencoded_bencoded_seq_bencoded_entries.int [simplified])
qed

lemma decode_string_sound:
  assumes "decode_string t i = Ret (OK (v, j))"
  shows "j \<le> length t \<and> bencoded (segment t i j) v
    \<or> j = Suc (length t) \<and> v = BencodeString [] \<and> suffix ''000'' t"
  using assms
proof (rule decode_string_OK)
  fix l k str
  assume rd: "read_until t (CHR '':'') i [] = (l, k)" and l: "match_digits l"
    and n: "stol l = Ret (int (length str))"
    and rc: "read_count t (int (length str)) 0 (Suc k) [] = (str, j)"
    and v: "v = BencodeString str" and i: "i + 3 \<le> length t"
  from rd have l_def: "l = takeWhile (\<lambda>x. x \<noteq> CHR '':'') (drop i t)" and k: "k = i + length l"
    by (auto simp: read_until_takeWhile)
  from n have val: "digits_val l = length str"
    by (simp add: stol_def signed_val_digits [OF l] split: if_splits)
  have "read_count t (int (length str)) 0 (Suc k) [] =
      (take (length str) (drop (Suc k) t), Suc k + length (take (length str) (drop (Suc k) t)))"
    by (subst read_count_take) simp_all
  with rc have str: "str = take (length str) (drop (Suc k) t)" and j: "j = Suc k + length str"
    by (metis Pair_inject)+
  have "k \<le> length t"
    unfolding k l_def using i by (intro takeWhile_bound) simp
  then consider "k < length t" | "k = length t" by linarith
  then show ?thesis
  proof cases
    case 1
    have c: "t ! k = CHR '':''"
      using takeWhile_stop [of i "\<lambda>x. x \<noteq> CHR '':''" t] 1 by (simp add: k l_def)
    have jl: "j \<le> length t"
    proof -
      have "length str \<le> length (drop (Suc k) t)"
        by (subst str) simp
      with 1 j show ?thesis by simp
    qed
    have "segment t i k = l"
      unfolding k unfolding l_def by (rule segment_takeWhile)
    moreover have "segment t (Suc k) j = str"
      using str j by (simp add: segment_def)
    moreover have "segment t i j = segment t i k @ t ! k # segment t (Suc k) j"
      using segment_append [of i k j t] segment_Suc [of k j t] 1 j k by simp
    ultimately have "segment t i j = l @ '':'' @ str"
      using c by simp
    with bencoded_bencoded_seq_bencoded_entries.str [OF l val] jl v show ?thesis by simp
  next
    case 2
    then have "str = []" using str by simp
    moreover have "l = drop i t"
      using 2 k i by (metis l_def diff_add_inverse length_drop takeWhile_eq_take take_all order_refl)
    ultimately have z: "drop i t = replicate (length t - i) (CHR ''0'')"
      using digits_val_0 [of l] l val by (simp add: match_digits_def)
    obtain m where m: "length t - i = m + 3"
      using i by (metis add.commute le_add_diff_inverse2 le_diff_conv2 add_leD1)
    have "suffix ''000'' (drop i t)"
      unfolding z m replicate_add by (simp add: suffix_def numeral_eq_Suc)
    then have "suffix ''000'' t"
      using suffix_drop suffix_order.trans by blast
    with 2 \<open>str = []\<close> j v show ?thesis by simp
  qed
qed

lemma decode_list_loop_cases:
  assumes "decode_list_loop t i vs = Ret (OK (v, j))"
  obtains (stop) "i < length t" "t ! i = CHR ''e''" "v = BencodeList vs" "j = Suc i"
  | (step) w k where "i < length t" "t ! i \<noteq> CHR ''e''" "decode_value t i = Ret (OK (w, k))"
      "decode_list_loop t k (vs @ [w]) = Ret (OK (v, j))"
proof (cases "i < length t \<and> t ! i \<noteq> CHR ''e''")
  case True
  with assms step show ?thesis
    by (subst (asm) decode_list_loop.simps) auto
next
  case False
  with assms stop show ?thesis
    by (subst (asm) decode_list_loop.simps) (auto simp: str_at_def split: if_splits)
qed

lemma decode_dict_loop_cases:
  assumes "decode_dict_loop t i ks m = Ret (OK (v, j))"
  obtains (stop) "i < length t" "t ! i = CHR ''e''" "keys_in_order ks" "v = BencodeDict m" "j = Suc i"
  | (step) s k w l where "i < length t" "t ! i \<noteq> CHR ''e''"
      "decode_value t i = Ret (OK (BencodeString s, k))" "decode_value t k = Ret (OK (w, l))"
      "decode_dict_loop t l (ks @ [s]) (map_insert s w m) = Ret (OK (v, j))"
proof (cases "i < length t \<and> t ! i \<noteq> CHR ''e''")
  case True
  with assms step show ?thesis
    by (subst (asm) decode_dict_loop.simps) (auto simp: dict_key_OK)
next
  case False
  with assms stop show ?thesis
    by (subst (asm) decode_dict_loop.simps) (auto simp: str_at_def split: if_splits)
qed

lemma decode_value_cases:
  assumes "decode_value t i = Ret (OK (v, j))"
  obtains "i < length t" "t ! i = CHR ''i''" "decode_int t i = Ret (OK (v, j))"
  | "decode_string t i = Ret (OK (v, j))"
  | "i < length t" "t ! i = CHR ''l''" "decode_list t i = Ret (OK (v, j))"
  | "i < length t" "t ! i = CHR ''d''" "decode_dict t i = Ret (OK (v, j))"
  using assms by (auto simp: decode_value.simps str_at_def split: if_splits)

text \<open>
  A value that ends inside the string is an encoding of what was read. A string without its
  colon ends one position past the end of the input; its digits are then all zero.
\<close>

definition ends_inside :: "string \<Rightarrow> nat \<Rightarrow> BencodeValue \<Rightarrow> nat \<Rightarrow> bool" where
  "ends_inside t i v j \<longleftrightarrow> i < j \<and> j \<le> length t \<and> bencoded (segment t i j) v"

definition overruns :: "string \<Rightarrow> nat \<Rightarrow> bool" where
  "overruns t j \<longleftrightarrow> j = Suc (length t) \<and> suffix ''000'' t"

text \<open>What the two loops have read: the elements or entries up to the closing character.\<close>

definition list_tail :: "string \<Rightarrow> nat \<Rightarrow> BencodeValue list \<Rightarrow> BencodeValue \<Rightarrow> nat \<Rightarrow> bool" where
  "list_tail t i vs v j \<longleftrightarrow> (\<exists>ws k. v = BencodeList (vs @ ws) \<and> j = Suc k \<and> i \<le> k \<and> k < length t \<and> t ! k = CHR ''e''
     \<and> bencoded_seq (segment t i k) ws)"

definition dict_tail ::
  "string \<Rightarrow> nat \<Rightarrow> string list \<Rightarrow> (string \<times> BencodeValue) list \<Rightarrow> BencodeValue \<Rightarrow> nat \<Rightarrow> bool" where
  "dict_tail t i ks m v j \<longleftrightarrow> (\<exists>kvs k. v = BencodeDict (insert_all m kvs) \<and> keys_in_order (ks @ map fst kvs) \<and> j = Suc k \<and> i \<le> k
     \<and> k < length t \<and> t ! k = CHR ''e'' \<and> bencoded_entries (segment t i k) kvs)"

lemma list_tail_step:
  assumes "ends_inside t i w l \<or> overruns t l" "list_tail t l (vs @ [w]) v j"
  shows "list_tail t i vs v j"
proof -
  from assms(2) obtain ws k where k: "v = BencodeList (vs @ w # ws)" "j = Suc k" "l \<le> k" "k < length t" "t ! k = CHR ''e''"
    "bencoded_seq (segment t l k) ws" by (auto simp: list_tail_def)
  with assms(1) have w: "i < l" "bencoded (segment t i l) w" by (auto simp: ends_inside_def overruns_def)
  have "bencoded_seq (segment t i k) (w # ws)"
    using bencoded_bencoded_seq_bencoded_entries.seq_Cons [OF w(2) k(6)] segment_append [of i l k t] w(1) k(3) by simp
  with k w(1) show ?thesis by (auto simp: list_tail_def)
qed

lemma list_tail_whole:
  assumes "list_tail t (Suc i) [] v j" "i < length t" "t ! i = CHR ''l''"
  shows "ends_inside t i v j"
proof -
  from assms(1) obtain ws k where k: "v = BencodeList ws" "j = Suc k" "Suc i \<le> k" "k < length t"
    "t ! k = CHR ''e''" "bencoded_seq (segment t (Suc i) k) ws" by (auto simp: list_tail_def)
  have "segment t i j = ''l'' @ segment t (Suc i) k @ ''e''"
    using k assms(2,3) segment_snoc [of i k t] segment_Suc [of i k t] by simp
  with k bencoded_bencoded_seq_bencoded_entries.list [OF k(6)] show ?thesis by (simp add: ends_inside_def)
qed

lemma dict_tail_step:
  assumes "ends_inside t i (BencodeString s) a \<or> overruns t a" "ends_inside t a w l \<or> overruns t l"
    "dict_tail t l (ks @ [s]) (map_insert s w m) v j"
  shows "dict_tail t i ks m v j"
proof -
  from assms(3) obtain kvs k where
    k: "v = BencodeDict (insert_all (map_insert s w m) kvs)" "keys_in_order (ks @ s # map fst kvs)"
      "j = Suc k" "l \<le> k" "k < length t" "t ! k = CHR ''e''" "bencoded_entries (segment t l k) kvs"
    by (auto simp: dict_tail_def)
  with assms(2) have w: "a < l" "bencoded (segment t a l) w" by (auto simp: ends_inside_def overruns_def)
  with assms(1) k have s: "i < a" "bencoded (segment t i a) (BencodeString s)" by (auto simp: ends_inside_def overruns_def)
  have "segment t i k = segment t i a @ segment t a l @ segment t l k"
    using s(1) w(1) k(4) by (simp flip: segment_append)
  then have "bencoded_entries (segment t i k) ((s, w) # kvs)"
    using bencoded_bencoded_seq_bencoded_entries.entries_Cons [OF s(2) w(2) k(7)] by simp
  moreover have "insert_all (map_insert s w m) kvs = insert_all m ((s, w) # kvs)" by (simp add: insert_all_def)
  ultimately show ?thesis unfolding dict_tail_def
    using k s(1) w(1) by (intro exI [of _ "(s, w) # kvs"] exI [of _ k]) auto
qed

lemma dict_tail_whole:
  assumes "dict_tail t (Suc i) [] [] v j" "i < length t" "t ! i = CHR ''d''"
  shows "ends_inside t i v j"
proof -
  from assms(1) obtain kvs k where k: "v = BencodeDict (insert_all [] kvs)" "keys_in_order (map fst kvs)"
    "j = Suc k" "Suc i \<le> k" "k < length t" "t ! k = CHR ''e''" "bencoded_entries (segment t (Suc i) k) kvs"
    by (auto simp: dict_tail_def)
  have "segment t i j = ''d'' @ segment t (Suc i) k @ ''e''"
    using k assms(2,3) segment_snoc [of i k t] segment_Suc [of i k t] by simp
  with k bencoded_bencoded_seq_bencoded_entries.dict [OF k(7) k(2)] show ?thesis by (simp add: ends_inside_def)
qed

lemma decode_sound:
  "decode_value t i = Ret (OK (v, j)) \<Longrightarrow> ends_inside t i v j \<or> overruns t j"
  "decode_list t i = Ret (OK (v, j)) \<Longrightarrow> i < length t \<Longrightarrow> t ! i = CHR ''l'' \<Longrightarrow> ends_inside t i v j"
  "decode_list_loop t i vs = Ret (OK (v, j)) \<Longrightarrow> list_tail t i vs v j"
  "decode_dict t i = Ret (OK (v, j)) \<Longrightarrow> i < length t \<Longrightarrow> t ! i = CHR ''d'' \<Longrightarrow> ends_inside t i v j"
  "decode_dict_loop t i ks m = Ret (OK (v, j)) \<Longrightarrow> dict_tail t i ks m v j"
proof (induction t i and t i and t i vs and t i and t i ks m
    arbitrary: v j and v j and v j and v j and v j
    rule: decode_value_decode_list_decode_list_loop_decode_dict_decode_dict_loop.induct)
  case (1 t i)
  note num = decode_int_sound [of t i v j] decode_int_progress [of t i v j]
  note str = decode_string_sound [of t i v j] decode_string_progress [of t i v j]
  from "1.prems" show ?case
    by (cases rule: decode_value_cases)
      (use num str "1.IH"(1) [of "CHR ''l''"] "1.IH"(2) [of "CHR ''d''"] in
        \<open>force simp: ends_inside_def overruns_def str_at_def less_eq_char_def\<close>)+
next
  case (2 t i)
  from "2.prems"(1) have g: "\<not> int (length t) - int i < 2" "decode_list_loop t (i + 1) [] = Ret (OK (v, j))"
    by (auto simp: decode_list.simps split: if_splits)
  from "2.IH" [OF g] "2.prems"(2,3) show ?case by (auto intro: list_tail_whole)
next
  case (3 t i vs)
  from "3.prems" show ?case
  proof (cases rule: decode_list_loop_cases)
    case stop
    then show ?thesis
      by (auto simp: list_tail_def intro!: exI [of _ i] bencoded_bencoded_seq_bencoded_entries.seq_Nil [simplified])
  next
    case (step w l)
    note IH = "3.IH" [OF conjI [OF step(1,2)]]
    show ?thesis by (rule list_tail_step [OF IH(1) [OF step(3)] IH(2) [OF step(3) refl refl step(4)]])
  qed
next
  case (4 t i)
  from "4.prems"(1) have g: "\<not> int (length t) - int i < 2" "decode_dict_loop t (i + 1) [] [] = Ret (OK (v, j))"
    by (auto simp: decode_dict.simps split: if_splits)
  from "4.IH" [OF g] "4.prems"(2,3) show ?case by (auto intro: dict_tail_whole)
next
  case (5 t i ks m)
  from "5.prems" show ?case
  proof (cases rule: decode_dict_loop_cases)
    case stop
    then show ?thesis
      by (auto intro!: exI [of _ i] exI [of _ "[]"] bencoded_bencoded_seq_bencoded_entries.entries_Nil [simplified]
          simp: insert_all_def dict_tail_def)
  next
    case (step s a w l)
    note IH = "5.IH" [OF conjI [OF step(1,2)]]
    show ?thesis
      by (rule dict_tail_step [OF IH(1) [OF step(3)] IH(2) [OF step(3) refl refl refl step(4)]
            IH(3) [OF step(3) refl refl refl step(4) refl refl step(5)]])
  qed
qed

section \<open>Undefined behaviour\<close>

lemma decode_int_no_UB: "\<not> is_UB (decode_int t i)"
proof (cases "int (length t) - int i < 3")
  case False
  then have "snd (read_until t (CHR ''e'') (Suc i) []) \<le> length t"
    by (intro read_until_bounds(2)) simp
  with False show ?thesis
    by (auto simp: decode_int_def str_at_def stol_def case_prod_unfold)
qed (simp add: decode_int_def)

lemma decode_string_no_UB: "\<not> is_UB (decode_string t i)"
  by (auto simp: decode_string_def stol_def split: prod.splits)

lemma dict_key_UB:
  "(case key of BencodeInt n \<Rightarrow> Ret (ERROR e) | BencodeString s \<Rightarrow> f s | BencodeList vs \<Rightarrow> Ret (ERROR e)
      | BencodeDict m \<Rightarrow> Ret (ERROR e)) = UB b
    \<longleftrightarrow> (\<exists>s. key = BencodeString s \<and> f s = UB b)"
  by (cases key) auto

lemma decode_UB:
  "decode_value t i = UB b \<Longrightarrow> i \<le> length t \<Longrightarrow> suffix ''000'' t"
  "decode_list t i = UB b \<Longrightarrow> suffix ''000'' t"
  "decode_list_loop t i vs = UB b \<Longrightarrow> suffix ''000'' t"
  "decode_dict t i = UB b \<Longrightarrow> suffix ''000'' t"
  "decode_dict_loop t i ks m = UB b \<Longrightarrow> suffix ''000'' t"
proof (induction t i and t i and t i vs and t i and t i ks m
    rule: decode_value_decode_list_decode_list_loop_decode_dict_decode_dict_loop.induct)
  case (1 t i)
  then show ?case
    using decode_int_no_UB [of t i] decode_string_no_UB [of t i]
    by (auto simp: decode_value.simps str_at_def split: if_splits)
next
  case (2 t i)
  then show ?case by (auto simp: decode_list.simps split: if_splits)
next
  case (3 t i vs)
  show ?case
  proof (cases "i < length t \<and> t ! i \<noteq> CHR ''e''")
    case True
    with "3.prems" consider "decode_value t i = UB b"
      | w k where "decode_value t i = Ret (OK (w, k))" "decode_list_loop t k (vs @ [w]) = UB b"
      by (subst (asm) decode_list_loop.simps) (auto simp: obind_UB_iff)
    then show ?thesis
      using "3.IH"(1) [OF True] "3.IH"(2) [OF True] True by cases auto
  next
    case False
    with "3.prems" show ?thesis
      by (subst (asm) decode_list_loop.simps) (auto simp: str_at_def split: if_splits)
  qed
next
  case (4 t i)
  then show ?case by (auto simp: decode_dict.simps split: if_splits)
next
  case (5 t i ks m)
  show ?case
  proof (cases "i < length t \<and> t ! i \<noteq> CHR ''e''")
    case True
    with "5.prems" consider (key) "decode_value t i = UB b"
      | (val) s k where "decode_value t i = Ret (OK (BencodeString s, k))" "decode_value t k = UB b"
      | (rest) s k w l where "decode_value t i = Ret (OK (BencodeString s, k))"
          "decode_value t k = Ret (OK (w, l))" "decode_dict_loop t l (ks @ [s]) (map_insert s w m) = UB b"
      by (subst (asm) decode_dict_loop.simps) (auto simp: obind_UB_iff dict_key_UB)
    then show ?thesis
    proof cases
      case key
      with "5.IH"(1) [OF True] True show ?thesis by simp
    next
      case val
      then show ?thesis
        using decode_sound(1) [OF val(1)] "5.IH"(2) [OF True val(1) refl refl refl val(2)]
        by (auto simp: ends_inside_def overruns_def)
    next
      case rest
      then show ?thesis
        using "5.IH"(3) [OF True rest(1) refl refl refl rest(2) refl refl rest(3)] by simp
    qed
  next
    case False
    with "5.prems" show ?thesis
      by (subst (asm) decode_dict_loop.simps) (auto simp: str_at_def split: if_splits)
  qed
qed

section \<open>Well-formed values and the encoder\<close>

lemma keys_in_order_sorted: "keys_in_order ks \<longleftrightarrow> sorted ks"
  by (induction ks rule: keys_in_order.induct) (auto simp: sorted1 sorted2 not_less simp del: sorted_wrt.simps(2))

lemma map_insert_keys: "set (map fst (map_insert k v m)) = insert k (set (map fst m))"
  by (induction m rule: map_insert.induct) auto

lemma map_insert_sorted:
  "sorted_wrt (<) (map fst m) \<Longrightarrow> sorted_wrt (<) (map fst (map_insert k v m))"
proof (induction m)
  case (Cons kv m)
  then show ?case
    using map_insert_keys [of k v m] by (cases kv) (auto simp: neq_iff)
qed simp

lemma map_insert_values:
  "(x, y) \<in> set (map_insert k v m) \<Longrightarrow> (x, y) = (k, v) \<or> (x, y) \<in> set m"
  by (induction m) (auto split: if_splits)

lemma map_insert_last:
  "\<forall>x \<in> set (map fst m). x < k \<Longrightarrow> map_insert k v m = m @ [(k, v)]"
  by (induction m) (auto dest: less_asym)

lemma insert_all_Nil [simp]: "insert_all m [] = m"
  by (simp add: insert_all_def)

lemma insert_all_Cons [simp]: "insert_all m ((k, v) # kvs) = insert_all (map_insert k v m) kvs"
  by (simp add: insert_all_def)

lemma insert_all_sorted:
  "sorted_wrt (<) (map fst m) \<Longrightarrow> sorted_wrt (<) (map fst (insert_all m kvs))"
  by (induction kvs arbitrary: m) (auto simp: map_insert_sorted)

lemma insert_all_values: "(x, y) \<in> set (insert_all m kvs) \<Longrightarrow> (x, y) \<in> set m \<union> set kvs"
  by (induction kvs arbitrary: m) (fastforce dest: map_insert_values)+

lemma insert_all_append:
  "sorted_wrt (<) (map fst (m @ kvs)) \<Longrightarrow> insert_all m kvs = m @ kvs"
proof (induction kvs arbitrary: m)
  case (Cons kv kvs)
  obtain k v where kv: "kv = (k, v)" by (cases kv)
  have "map_insert k v m = m @ [(k, v)]"
    using Cons.prems kv by (intro map_insert_last) (auto simp: sorted_wrt_append)
  with Cons kv show ?case by simp
qed simp

lemma bencoded_wf:
  "bencoded s v \<Longrightarrow> wf_value v"
  "bencoded_seq s vs \<Longrightarrow> list_all wf_value vs"
  "bencoded_entries s kvs \<Longrightarrow> list_all (\<lambda>(k, v). wf_value v) kvs"
proof (induction rule: bencoded_bencoded_seq_bencoded_entries.inducts)
  case (dict s kvs)
  then show ?case
    using insert_all_sorted [of "[]" kvs] insert_all_values [of _ _ "[]" kvs]
    by (fastforce simp: list_all_iff)
qed auto

lemma nat_to_string_match: "match_digits (nat_to_string n)"
  by (simp add: match_digits_def)

lemma nat_to_string_start: "\<exists>c r. nat_to_string n = c # r \<and> is_digit c"
  using nat_to_string_digits [of n] by (cases "nat_to_string n") auto

lemma int_to_string_match: "match_signed (int_to_string n)"
  using nat_to_string_start [of "nat n"] nat_to_string_match [of "nat n"] nat_to_string_match [of "nat (- n)"]
  by (auto simp: match_signed_def int_to_string_def split: list.splits)

lemma signed_val_int_to_string: "signed_val (int_to_string n) = n"
proof (cases "n < 0")
  case True
  then show ?thesis by (simp add: signed_val_def int_to_string_def)
next
  case False
  then have "int_to_string n = nat_to_string (nat n)" by (simp add: int_to_string_def)
  with False show ?thesis
    using signed_val_digits [OF nat_to_string_match] by simp
qed

lemma int_to_string_not_neg_zero: "int_to_string n \<noteq> ''-0''"
proof
  assume "int_to_string n = ''-0''"
  then have "n = 0"
    using signed_val_int_to_string [of n] by (simp add: signed_val_def digits_val_def digit_val_def)
  with \<open>int_to_string n = ''-0''\<close> show False
    by (simp add: int_to_string_def)
qed

lemma bencoded_seq_encode:
  "(\<And>v. v \<in> set vs \<Longrightarrow> bencoded (to_string v) v) \<Longrightarrow> bencoded_seq (concat (map to_string vs)) vs"
  by (induction vs) (auto intro: bencoded_bencoded_seq_bencoded_entries.intros)

lemma bencoded_entries_encode:
  "(\<And>k v. (k, v) \<in> set m \<Longrightarrow> bencoded (to_string v) v) \<Longrightarrow>
    bencoded_entries
      (concat (map (\<lambda>(key, v). nat_to_string (length key) @ '':'' @ key @ to_string v) m)) m"
proof (induction m)
  case (Cons kv m)
  obtain k v where kv: "kv = (k, v)" by (cases kv)
  have "bencoded (nat_to_string (length k) @ '':'' @ k) (BencodeString k)"
    by (rule bencoded_bencoded_seq_bencoded_entries.str) (simp_all add: nat_to_string_match)
  from bencoded_bencoded_seq_bencoded_entries.entries_Cons [OF this _ Cons.IH, of "to_string v" v] Cons.prems kv
  show ?case by auto
qed (auto intro: bencoded_bencoded_seq_bencoded_entries.intros)

lemma bencoded_encode: "wf_value v \<Longrightarrow> bencoded (to_string v) v"
proof (induction v rule: wf_value.induct)
  case (1 n)
  then show ?case
    using bencoded_bencoded_seq_bencoded_entries.int [OF int_to_string_match int_to_string_not_neg_zero, of n]
    by (simp add: signed_val_int_to_string)
next
  case (2 s)
  then show ?case
    using bencoded_bencoded_seq_bencoded_entries.str [OF nat_to_string_match, of "length s" s] by simp
next
  case (3 vs)
  then have "bencoded_seq (concat (map to_string vs)) vs"
    by (intro bencoded_seq_encode) (auto simp: list_all_iff)
  from bencoded_bencoded_seq_bencoded_entries.list [OF this] show ?case by simp
next
  case (4 m)
  then have "bencoded_entries
      (concat (map (\<lambda>(key, v). nat_to_string (length key) @ '':'' @ key @ to_string v) m)) m"
    by (intro bencoded_entries_encode) (fastforce simp: list_all_iff)
  moreover have "keys_in_order (map fst m)"
    using 4 by (auto simp: keys_in_order_sorted intro: sorted_wrt_mono_rel [of _ "(<)"])
  moreover have "insert_all [] m = m"
    using insert_all_append [of "[]" m] 4 by simp
  ultimately show ?case
    using bencoded_bencoded_seq_bencoded_entries.dict [of _ m] by simp
qed

section \<open>The parser against the grammar\<close>

lemma segment_all [simp]: "segment t 0 (length t) = t"
  by (simp add: segment_def)

lemma bencoded_not_only_colon:
  "bencoded s v \<Longrightarrow> s = ''0:'' \<Longrightarrow> v = BencodeString ''''"
  by (erule bencoded.cases) (auto simp: append_eq_Cons_conv match_digits_def)

lemma decode_OK_iff:
  "decode s = Ret (OK v) \<longleftrightarrow> bencoded s v \<and> s \<noteq> ''0:'' \<and> int (length s) \<le> int64_max"
proof
  assume d: "decode s = Ret (OK v)"
  then have v: "decode_value s 0 = Ret (OK (v, length s))" and fits: "int (length s) \<le> int64_max"
    by (auto simp: decode_def split: if_splits Result.splits)
  from decode_sound(1) [OF v] have "bencoded s v"
    by (auto simp: ends_inside_def overruns_def)
  moreover have "decode_value ''0:'' 0 = Ret (ERROR StringFormat)"
    by code_simp
  ultimately show "bencoded s v \<and> s \<noteq> ''0:'' \<and> int (length s) \<le> int64_max"
    using v fits by auto
next
  assume "bencoded s v \<and> s \<noteq> ''0:'' \<and> int (length s) \<le> int64_max"
  then show "decode s = Ret (OK v)"
    using decode_complete(1) [of s v "[]" "[]"] by (auto simp: decode_def)
qed

lemma encode_eq_empty_string: "bencoded (encode v) v \<Longrightarrow> encode v = ''0:'' \<longleftrightarrow> v = BencodeString ''''"
  using bencoded_not_only_colon [of "encode v" v] by (auto simp: encode_def)

lemma decode_encode:
  assumes "wf_value v" "int (length (encode v)) \<le> int64_max" "v \<noteq> BencodeString ''''"
  shows "decode (encode v) = Ret (OK v)"
  using assms bencoded_encode [of v] encode_eq_empty_string [of v]
  by (simp add: decode_OK_iff encode_def)

definition bencode_dom :: "BencodeValue \<Rightarrow> bool" where
  "bencode_dom v \<longleftrightarrow> wf_value v \<and> int (length (encode v)) \<le> int64_max \<and> v \<noteq> BencodeString ''''"

definition decode_opt :: "string \<Rightarrow> BencodeValue option" where
  "decode_opt s = (case decode s of Ret (OK v) \<Rightarrow> Some v | _ \<Rightarrow> None)"

interpretation bencode_codec: codec bencode_dom "\<lambda>v. Ret (encode v)" decode_opt
  by unfold_locales (auto simp: bencode_dom_def decode_opt_def decode_encode)

text \<open>
  C10. The parser accepts exactly the language of the grammar, up to its length limit and with
  the single exception of the top-level string ``0:'', and returns the value the grammar assigns.
\<close>

theorem decode_accepts_exactly:
  "decode s = Ret (OK v) \<longleftrightarrow> bencoded s v \<and> s \<noteq> ''0:'' \<and> int (length s) \<le> int64_max"
  by (rule decode_OK_iff)

text \<open>
  C18. Round trip: decoding the encoding of a well-formed value gives the value back, for every
  value but the empty string, whose encoding ``0:'' the parser rejects as too short.
\<close>

theorem bencode_roundtrip:
  assumes "wf_value v" and "int (length (encode v)) \<le> int64_max"
  shows "decode (encode v) =
    (if v = BencodeString '''' then Ret (ERROR StringFormat) else Ret (OK v))"
proof (cases "v = BencodeString ''''")
  case True
  have "decode (encode (BencodeString '''')) = Ret (ERROR StringFormat)" by code_simp
  with True show ?thesis by simp
next
  case False
  with assms show ?thesis by (simp add: decode_encode)
qed

theorem bencode_roundtrip_witness:
  "wf_value (BencodeDict [(''a'', BencodeList [BencodeInt (-7)]), (''b'', BencodeString '''')]) \<and>
   int (length (encode (BencodeDict [(''a'', BencodeList [BencodeInt (-7)]), (''b'', BencodeString '''')])))
     \<le> int64_max \<and>
   decode (encode (BencodeDict [(''a'', BencodeList [BencodeInt (-7)]), (''b'', BencodeString '''')])) =
     Ret (OK (BencodeDict [(''a'', BencodeList [BencodeInt (-7)]), (''b'', BencodeString '''')]))"
proof -
  let ?v = "BencodeDict [(''a'', BencodeList [BencodeInt (-7)]), (''b'', BencodeString '''')]"
  have "wf_value ?v" and "int (length (encode ?v)) \<le> int64_max" by code_simp+
  with bencode_roundtrip [of ?v] show ?thesis by simp
qed

text \<open>
  C22. What the parser returns is well formed (integers in range, dictionary keys strictly
  increasing), and its re-encoding is again an encoding of the same value; the info hash of a
  torrent is computed over such a re-encoding.
\<close>

theorem decode_wf_value:
  assumes "decode s = Ret (OK v)"
  shows "wf_value v \<and> bencoded (encode v) v"
  using assms bencoded_wf(1) [of s v] bencoded_encode [of v] by (simp add: decode_OK_iff encode_def)

theorem decode_wf_value_witness:
  "decode ''d1:bi007e1:bi8ee'' = Ret (OK (BencodeDict [(''b'', BencodeInt 7)])) \<and>
   wf_value (BencodeDict [(''b'', BencodeInt 7)])"
proof -
  have "decode ''d1:bi007e1:bi8ee'' = Ret (OK (BencodeDict [(''b'', BencodeInt 7)]))" by code_simp
  with decode_wf_value [OF this] show ?thesis by simp
qed

text \<open>
  C21. The parser reads past the end of its input only on inputs that end in three zeros: every
  other string is decoded without undefined behaviour.
\<close>

theorem decode_memory_safe:
  assumes "\<not> suffix ''000'' s"
  shows "\<not> is_UB (decode s)"
proof
  assume "is_UB (decode s)"
  then obtain b where "decode_value s 0 = UB b"
    by (cases "decode_value s 0") (auto simp: decode_def split: if_splits Result.splits)
  from decode_UB(1) [OF this] assms show False by simp
qed

theorem decode_memory_safe_witness:
  "\<not> suffix ''000'' ''d00'' \<and> \<not> is_UB (decode ''d00'')"
proof -
  have "\<not> suffix ''000'' ''d00''" by code_simp
  with decode_memory_safe [of "''d00''"] show ?thesis by simp
qed


end
