(* ===== verification/Sha1.thy ===== *)
theory Sha1
  imports Wire_Util
begin

text \<open>
  The SHA-1 routine bundled under third_party/smallsha1: the word operations, the in-place
  message schedule, the block loop and the handling of the last block, over 32-bit words.
  The reference is the definition of the standard on the padded message; the routine computes
  it for every message whose bit length fits in 32 bits, whatever its scratch buffer holds at
  the start.
\<close>

unbundle bit_operations_syntax

section \<open>The routine\<close>

type_synonym w32 = "32 word"
type_synonym regs = "w32 \<times> w32 \<times> w32 \<times> w32 \<times> w32"

definition rol :: "w32 \<Rightarrow> nat \<Rightarrow> w32" where
  "rol value steps = push_bit steps value OR drop_bit (32 - steps) value"

definition clearWBuffert :: "w32 list \<Rightarrow> w32 list" where
  "clearWBuffert buffert = foldl (\<lambda>b pos. b[pos := 0]) buffert (rev [0..<16])"

fun sha1macro :: "(w32 \<Rightarrow> w32 \<Rightarrow> w32 \<Rightarrow> w32) \<Rightarrow> w32 \<Rightarrow> w32 list \<Rightarrow> nat \<Rightarrow> regs \<Rightarrow> regs" where
  "sha1macro func val w round (a, b, c, d, e) =
     (rol a 5 + func b c d + e + val + w ! round, a, rol b 30, c, d)"

definition next_w :: "w32 list \<Rightarrow> nat \<Rightarrow> w32 list" where
  "next_w w round =
     w[round := rol (w ! (round - 3) XOR w ! (round - 8) XOR w ! (round - 14) XOR w ! (round - 16)) 1]"

definition round_step ::
  "(w32 \<Rightarrow> w32 \<Rightarrow> w32 \<Rightarrow> w32) \<Rightarrow> w32 \<Rightarrow> w32 list \<times> regs \<Rightarrow> nat \<Rightarrow> w32 list \<times> regs" where
  "round_step func val s round =
     (let w = next_w (fst s) round in (w, sha1macro func val w round (snd s)))"

definition f_choose :: "w32 \<Rightarrow> w32 \<Rightarrow> w32 \<Rightarrow> w32" where
  "f_choose b c d = (b AND c) OR (NOT b AND d)"

definition f_parity :: "w32 \<Rightarrow> w32 \<Rightarrow> w32 \<Rightarrow> w32" where
  "f_parity b c d = b XOR c XOR d"

definition f_majority :: "w32 \<Rightarrow> w32 \<Rightarrow> w32 \<Rightarrow> w32" where
  "f_majority b c d = (b AND c) OR (b AND d) OR (c AND d)"

definition innerHash :: "w32 list \<Rightarrow> w32 list \<Rightarrow> w32 list \<times> w32 list" where
  "innerHash result w =
     (let r = (result ! 0, result ! 1, result ! 2, result ! 3, result ! 4);
          r = foldl (\<lambda>r round. sha1macro f_choose 0x5a827999 w round r) r [0..<16];
          s = foldl (round_step f_choose 0x5a827999) (w, r) [16..<20];
          s = foldl (round_step f_parity 0x6ed9eba1) s [20..<40];
          s = foldl (round_step f_majority 0x8f1bbcdc) s [40..<60];
          s = foldl (round_step f_parity 0xca62c1d6) s [60..<80];
          (w, a, b, c, d, e) = s
      in ([result ! 0 + a, result ! 1 + b, result ! 2 + c, result ! 3 + d, result ! 4 + e], w))"

definition load_word :: "bytes \<Rightarrow> nat \<Rightarrow> w32" where
  "load_word sarray i =
     ucast (sarray ! (i + 3)) OR push_bit 8 (ucast (sarray ! (i + 2)))
       OR push_bit 16 (ucast (sarray ! (i + 1))) OR push_bit 24 (ucast (sarray ! i))"

definition load_block :: "bytes \<Rightarrow> nat \<Rightarrow> w32 list \<Rightarrow> w32 list" where
  "load_block sarray currentBlock w =
     foldl (\<lambda>w roundPos. w[roundPos := load_word sarray (currentBlock + 4 * roundPos)]) w [0..<16]"

function full_blocks :: "bytes \<Rightarrow> nat \<Rightarrow> w32 list \<times> w32 list \<Rightarrow> nat \<times> w32 list \<times> w32 list" where
  "full_blocks sarray currentBlock s =
     (if int currentBlock \<le> int (length sarray) - 64
      then full_blocks sarray (currentBlock + 64)
             (innerHash (fst s) (load_block sarray currentBlock (snd s)))
      else (currentBlock, s))"
  by pat_completeness auto
termination by (relation "measure (\<lambda>(sarray, cb, _). length sarray - cb)") auto

definition or_byte :: "w32 list \<Rightarrow> nat \<Rightarrow> byte \<Rightarrow> w32 list" where
  "or_byte w i x = w[i div 4 := w ! (i div 4) OR push_bit ((3 - i mod 4) * 8) (ucast x)]"

definition init_result :: "w32 list" where
  "init_result = [0x67452301, 0xefcdab89, 0x98badcfe, 0x10325476, 0xc3d2e1f0]"

definition store_hash :: "w32 list \<Rightarrow> bytes" where
  "store_hash result =
     map (\<lambda>hashByte. ucast (drop_bit (nat ((3 - int hashByte) mod 4) * 8) (result ! (hashByte div 4)) AND 0xff))
       [0..<20]"

text \<open>
  The buffer is not initialised: its contents are a parameter. The shift of the length by
  three bits is a shift of a signed integer.
\<close>

definition calc_from :: "w32 list \<Rightarrow> bytes \<Rightarrow> bytes outcome" where
  "calc_from w0 sarray =
     (let (currentBlock, result, w) = full_blocks sarray 0 (init_result, w0);
          endCurrentBlock = length sarray - currentBlock;
          w = foldl (\<lambda>w i. or_byte w i (sarray ! (i + currentBlock))) (clearWBuffert w) [0..<endCurrentBlock];
          w = or_byte w endCurrentBlock 0x80;
          (result, w) = (if endCurrentBlock \<ge> 56
             then let (result, w) = innerHash result w in (result, clearWBuffert w) else (result, w))
      in if int (length sarray) * 8 \<ge> 2 ^ 32 then UB SignedOverflow
         else let w = w[15 := word_of_nat (length sarray * 8)];
                  (result, w) = innerHash result w
              in Ret (store_hash result))"

definition calc :: "bytes \<Rightarrow> bytes outcome" where
  "calc = calc_from (replicate 80 0)"

definition hexDigits :: string where
  "hexDigits = ''0123456789abcdef''"

definition toHexString :: "bytes \<Rightarrow> string" where
  "toHexString hash =
     concat (map (\<lambda>x. [hexDigits ! unat (drop_bit 4 x AND 0xf), hexDigits ! unat (x AND 0xf)]) hash)"

section \<open>The standard\<close>

fun sched :: "w32 list \<Rightarrow> nat \<Rightarrow> w32" where
  "sched M t =
     (if t < 16 then M ! t
      else word_rotl 1 (sched M (t - 3) XOR sched M (t - 8) XOR sched M (t - 14) XOR sched M (t - 16)))"

definition ft :: "nat \<Rightarrow> w32 \<Rightarrow> w32 \<Rightarrow> w32 \<Rightarrow> w32" where
  "ft t x y z =
     (if t < 20 then (x AND y) XOR (NOT x AND z)
      else if t < 40 then x XOR y XOR z
      else if t < 60 then (x AND y) XOR (x AND z) XOR (y AND z)
      else x XOR y XOR z)"

definition Kt :: "nat \<Rightarrow> w32" where
  "Kt t = (if t < 20 then 0x5a827999 else if t < 40 then 0x6ed9eba1 else if t < 60 then 0x8f1bbcdc else 0xca62c1d6)"

fun std_round :: "w32 list \<Rightarrow> nat \<Rightarrow> regs \<Rightarrow> regs" where
  "std_round M t (a, b, c, d, e) =
     (word_rotl 5 a + ft t b c d + e + Kt t + sched M t, a, word_rotl 30 b, c, d)"

definition compress :: "w32 list \<Rightarrow> w32 list \<Rightarrow> w32 list" where
  "compress H M =
     (let (a, b, c, d, e) = fold (std_round M) [0..<80] (H ! 0, H ! 1, H ! 2, H ! 3, H ! 4)
      in [H ! 0 + a, H ! 1 + b, H ! 2 + c, H ! 3 + d, H ! 4 + e])"

definition length_bytes :: "nat \<Rightarrow> bytes" where
  "length_bytes n = map (\<lambda>i. word_of_nat (n * 8 div 256 ^ (7 - i))) [0..<8]"

definition pad :: "bytes \<Rightarrow> bytes" where
  "pad m = m @ 0x80 # replicate ((119 - length m mod 64) mod 64) 0 @ length_bytes (length m)"

definition words_of :: "bytes \<Rightarrow> w32 list" where
  "words_of bs = map (\<lambda>k. word_of_int (decode_integer (take 4 (drop (4 * k) bs)))) [0..<16]"

fun blocks :: "bytes \<Rightarrow> bytes list" where
  "blocks bs = (if length bs < 64 then [] else take 64 bs # blocks (drop 64 bs))"

definition word_bytes :: "w32 \<Rightarrow> bytes" where
  "word_bytes h = [ucast (drop_bit 24 h), ucast (drop_bit 16 h), ucast (drop_bit 8 h), ucast h]"

definition sha1 :: "bytes \<Rightarrow> bytes" where
  "sha1 m = concat (map word_bytes (fold (\<lambda>b H. compress H (words_of b)) (blocks (pad m)) init_result))"

section \<open>One block\<close>

lemma rol_rotl: "0 < k \<Longrightarrow> k < 32 \<Longrightarrow> rol x k = word_rotl k x"
proof (rule bit_word_eqI)
  fix n assume "n < LENGTH(32)" "0 < k" "k < 32"
  then have n: "n < 32" by simp
  show "bit (rol x k) n = bit (word_rotl k x) n"
  proof (cases "k \<le> n")
    case True
    then have "(n + 32 - k) mod 32 = n - k" using n by (simp add: mod_if)
    with True n \<open>k < 32\<close> show ?thesis
      by (auto simp: rol_def bit_word_rotl_iff bit_simps dest: bit_imp_le_length)
  next
    case False
    then show ?thesis using n \<open>k < 32\<close> \<open>0 < k\<close>
      by (auto simp: rol_def bit_word_rotl_iff bit_simps add.commute [of n 32])
  qed
qed

declare sched.simps [simp del]

lemma f_choose_ft: "t < 20 \<Longrightarrow> f_choose = ft t"
  by (intro ext bit_word_eqI) (auto simp: f_choose_def ft_def bit_simps)

lemma f_parity_ft: "20 \<le> t \<and> t < 40 \<or> 60 \<le> t \<Longrightarrow> f_parity = ft t"
  by (intro ext) (auto simp: f_parity_def ft_def)

lemma f_majority_ft: "40 \<le> t \<Longrightarrow> t < 60 \<Longrightarrow> f_majority = ft t"
  by (intro ext bit_word_eqI) (auto simp: f_majority_def ft_def bit_simps)

definition scheduled :: "w32 list \<Rightarrow> nat \<Rightarrow> w32 list \<Rightarrow> bool" where
  "scheduled M t w \<longleftrightarrow> length w = 80 \<and> (\<forall>i<t. w ! i = sched M i)"

lemma sha1macro_std_round:
  "w ! t = sched M t \<Longrightarrow> sha1macro (ft t) (Kt t) w t r = std_round M t r"
  by (cases r) (simp add: rol_rotl)

lemma next_w_scheduled:
  assumes "scheduled M t w" "16 \<le> t" "t < 80"
  shows "scheduled M (Suc t) (next_w w t)"
  using assms
  by (auto simp: scheduled_def next_w_def nth_list_update rol_rotl less_Suc_eq sched.simps [of M t])

lemma round_step_segment:
  assumes "16 \<le> i" "i \<le> j" "j \<le> 80" "scheduled M i w"
    and "\<And>t. i \<le> t \<Longrightarrow> t < j \<Longrightarrow> func = ft t \<and> val = Kt t"
  shows "\<exists>w'. scheduled M j w' \<and>
    foldl (round_step func val) (w, r) [i..<j] = (w', fold (std_round M) [i..<j] r)"
  using assms(2,3,5)
proof (induction j rule: dec_induct)
  case base
  then show ?case using assms(4) by auto
next
  case (step j)
  then obtain w' where w': "scheduled M j w'"
      "foldl (round_step func val) (w, r) [i..<j] = (w', fold (std_round M) [i..<j] r)"
    by auto
  have "scheduled M (Suc j) (next_w w' j)"
    using w'(1) step assms(1) by (intro next_w_scheduled) auto
  moreover from this have "round_step func val (w', q) j = (next_w w' j, std_round M j q)" for q
    using step(1) step.prems(2) [of j]
    by (simp add: round_step_def Let_def sha1macro_std_round scheduled_def)
  ultimately show ?case using w' step(1) by auto
qed

lemma first_rounds:
  assumes "\<And>i. i < 16 \<Longrightarrow> w ! i = M ! i" "n \<le> 16"
  shows "foldl (\<lambda>r round. sha1macro f_choose 0x5a827999 w round r) r [0..<n] = fold (std_round M) [0..<n] r"
  using assms(2)
proof (induction n)
  case (Suc n)
  then have "sha1macro (ft n) (Kt n) w n q = std_round M n q" for q
    using assms(1) [of n] by (intro sha1macro_std_round) (simp add: sched.simps)
  moreover have "ft n = f_choose" "Kt n = 0x5a827999"
    using Suc.prems f_choose_ft [of n] by (auto simp: Kt_def)
  ultimately show ?case using Suc by simp
qed simp

lemma innerHash_compress:
  assumes "length w = 80"
  shows "\<exists>w'. innerHash H w = (compress H (take 16 w), w') \<and> length w' = 80"
proof -
  let ?M = "take 16 w" and ?r = "(H ! 0, H ! 1, H ! 2, H ! 3, H ! 4)"
  let ?R = "\<lambda>n. fold (std_round ?M) [0..<n] ?r"
  have ext: "fold (std_round ?M) [i..<j] (?R i) = ?R j" if "i \<le> j" for i j
    using upt_add_eq_append [of 0 i "j - i"] that by simp
  have "scheduled ?M 16 w"
    using assms by (simp add: scheduled_def sched.simps)
  then obtain w1 where w1: "scheduled ?M 20 w1"
      "foldl (round_step f_choose 0x5a827999) (w, ?R 16) [16..<20] = (w1, ?R 20)"
    using round_step_segment [of 16 20 ?M w f_choose "0x5a827999" "?R 16"] ext [of 16 20]
    by (auto simp: Kt_def intro: f_choose_ft)
  obtain w2 where w2: "scheduled ?M 40 w2"
      "foldl (round_step f_parity 0x6ed9eba1) (w1, ?R 20) [20..<40] = (w2, ?R 40)"
    using round_step_segment [of 20 40 ?M w1 f_parity "0x6ed9eba1" "?R 20"] ext [of 20 40] w1(1)
    by (auto simp: Kt_def intro: f_parity_ft)
  obtain w3 where w3: "scheduled ?M 60 w3"
      "foldl (round_step f_majority 0x8f1bbcdc) (w2, ?R 40) [40..<60] = (w3, ?R 60)"
    using round_step_segment [of 40 60 ?M w2 f_majority "0x8f1bbcdc" "?R 40"] ext [of 40 60] w2(1)
    by (auto simp: Kt_def intro: f_majority_ft)
  obtain w4 where w4: "scheduled ?M 80 w4"
      "foldl (round_step f_parity 0xca62c1d6) (w3, ?R 60) [60..<80] = (w4, ?R 80)"
    using round_step_segment [of 60 80 ?M w3 f_parity "0xca62c1d6" "?R 60"] ext [of 60 80] w3(1)
    by (auto simp: Kt_def intro: f_parity_ft)
  have "foldl (\<lambda>r round. sha1macro f_choose 0x5a827999 w round r) ?r [0..<16] = ?R 16"
    by (rule first_rounds) auto
  then show ?thesis
    using w1(2) w2(2) w3(2) w4 by (simp add: innerHash_def compress_def Let_def scheduled_def split_beta)
qed

section \<open>The block loop\<close>

declare full_blocks.simps [simp del] blocks.simps [simp del]

lemma take4: "i + 4 \<le> length bs \<Longrightarrow> take 4 (drop i bs) = [bs ! i, bs ! (i + 1), bs ! (i + 2), bs ! (i + 3)]"
  by (rule nth_equalityI) (auto simp: less_Suc_eq numeral_eq_Suc)

lemma load_word_decode:
  "i + 4 \<le> length bs \<Longrightarrow> load_word bs i = word_of_int (decode_integer (take 4 (drop i bs)))"
  by (simp add: take4 decode_integer_word load_word_def or.commute or.left_commute)

lemma words_of_load: "length bs = 64 \<Longrightarrow> words_of bs = map (\<lambda>k. load_word bs (4 * k)) [0..<16]"
  by (simp add: words_of_def load_word_decode)

lemma length_words_of [simp]: "length (words_of bs) = 16"
  by (simp add: words_of_def)

text \<open>A buffer whose first sixteen words are those of a block of 64 bytes.\<close>

definition holds :: "bytes \<Rightarrow> w32 list \<Rightarrow> bool" where
  "holds bs w \<longleftrightarrow> length bs = 64 \<and> length w = 80 \<and> take 16 w = words_of bs"

lemma foldl_update_prefix:
  "n \<le> length w \<Longrightarrow> foldl (\<lambda>w p. w[p := f p]) w [0..<n] = map f [0..<n] @ drop n w"
proof (induction n)
  case (Suc n)
  then have "drop n w = w ! n # drop (Suc n) w"
    by (simp add: Cons_nth_drop_Suc)
  with Suc show ?case by (simp add: list_update_append)
qed simp

lemma load_block_holds:
  assumes "cb + 64 \<le> length s" "length w = 80"
  shows "holds (take 64 (drop cb s)) (load_block s cb w)"
proof -
  have "load_word s (cb + 4 * k) = load_word (take 64 (drop cb s)) (4 * k)" if "k < 16" for k
    using that assms by (simp add: load_word_def ac_simps)
  then show ?thesis
    using assms by (simp add: holds_def load_block_def foldl_update_prefix words_of_load)
qed

lemma innerHash_holds:
  "holds bs w \<Longrightarrow> \<exists>w'. innerHash H w = (compress H (words_of bs), w') \<and> length w' = 80"
  using innerHash_compress [of w H] by (simp add: holds_def)

lemma blocks_append: "64 dvd length a \<Longrightarrow> blocks (a @ b) = blocks a @ blocks b"
proof (induction a rule: blocks.induct)
  case (1 a)
  show ?case
  proof (cases "length a < 64")
    case True
    with 1 have "a = []" by (auto dest: dvd_imp_le)
    then show ?thesis by (simp add: blocks.simps [of "[]"])
  next
    case False
    with 1 show ?thesis by (simp add: blocks.simps [of a] blocks.simps [of "a @ b"] dvd_diff_nat)
  qed
qed

abbreviation hash_blocks :: "bytes \<Rightarrow> w32 list \<Rightarrow> w32 list" where
  "hash_blocks bs H \<equiv> fold (\<lambda>b H. compress H (words_of b)) (blocks bs) H"

lemma full_blocks_spec:
  "length w = 80 \<Longrightarrow> cb \<le> length s \<Longrightarrow>
    \<exists>w'. full_blocks s cb (H, w) = (cb + 64 * ((length s - cb) div 64), hash_blocks (drop cb s) H, w')
      \<and> length w' = 80"
proof (induction "length s - cb" arbitrary: cb H w rule: less_induct)
  case less
  show ?case
  proof (cases "cb + 64 \<le> length s")
    case False
    then have "length s - cb < 64" using less.prems by linarith
    with False show ?thesis
      using less.prems by (simp add: full_blocks.simps [of s cb] blocks.simps [of "drop cb s"])
  next
    case True
    obtain w1 where w1: "innerHash H (load_block s cb w) = (compress H (words_of (take 64 (drop cb s))), w1)"
        "length w1 = 80"
      using innerHash_holds [OF load_block_holds [OF True less.prems(1)], of H] by blast
    have "(length s - cb) div 64 = Suc ((length s - (cb + 64)) div 64)"
      using True by (simp add: le_div_geq)
    moreover have "blocks (drop cb s) = take 64 (drop cb s) # blocks (drop (cb + 64) s)"
      using True by (subst blocks.simps) (simp add: add.commute)
    moreover have "int cb \<le> int (length s) - 64" using True by linarith
    moreover have "length s - (cb + 64) < length s - cb" using True by simp
    ultimately show ?thesis
      using less.hyps [of "cb + 64" w1 "compress H (words_of (take 64 (drop cb s)))"] True w1
      by (simp add: full_blocks.simps [of s cb] add.assoc)
  qed
qed

section \<open>The last block\<close>

lemma or_byte_words:
  assumes "length bs = 64" "i < 64" "bs ! i = 0"
  shows "words_of (bs[i := x]) = or_byte (words_of bs) i x"
proof (rule nth_equalityI)
  fix k assume "k < length (words_of (bs[i := x]))"
  then have k: "k < 16" by simp
  have *: "k = i div 4 \<longleftrightarrow> i = 4 * k + i mod 4" "i mod 4 < 4"
    using div_mult_mod_eq [of i 4] by auto
  show "words_of (bs[i := x]) ! k = or_byte (words_of bs) i x ! k"
  proof (cases "k = i div 4")
    case True
    obtain m where m: "i = 4 * k + m" "m < 4" using * True by blast
    then consider "m = 0" | "m = 1" | "m = 2" | "m = 3" by linarith
    then show ?thesis
      using assms k m by cases
        (simp_all add: words_of_load or_byte_def load_word_def nth_list_update or.commute or.left_commute or.assoc
          del: add_2_eq_Suc' One_nat_def)
  next
    case False
    then have "i \<noteq> 4 * k" "i \<noteq> 4 * k + 1" "i \<noteq> 4 * k + 2" "i \<noteq> 4 * k + 3" by auto
    with False k assms show ?thesis
      by (simp add: words_of_load or_byte_def load_word_def)
  qed
qed (simp add: or_byte_def)

lemma or_byte_holds:
  assumes "holds bs w" "i < 64" "bs ! i = 0"
  shows "holds (bs[i := x]) (or_byte w i x)"
proof -
  have "i div 4 < 16" using assms(2) by simp
  then have "take 16 (or_byte w i x) = or_byte (take 16 w) i x"
    by (simp add: or_byte_def take_update_swap)
  with assms show ?thesis
    by (simp add: holds_def or_byte_words) (simp add: or_byte_def)
qed

lemma clear_holds:
  assumes "length w = 80"
  shows "holds (replicate 64 0) (clearWBuffert w)"
proof -
  have *: "length (foldl (\<lambda>b pos. b[pos := 0]) w ps) = length w" for w :: "w32 list" and ps
    by (induction ps arbitrary: w) auto
  have **: "foldl (\<lambda>b pos. b[pos := 0]) w ps ! i = (if i \<in> set ps then 0 else w ! i)"
    if "i < length w" for i and w :: "w32 list" and ps
    using that by (induction ps arbitrary: w) (auto simp: nth_list_update)
  have "take 16 (clearWBuffert w) = words_of (replicate 64 0)"
    using assms by (intro nth_equalityI) (auto simp: clearWBuffert_def * ** words_of_load load_word_def)
  then show ?thesis using assms by (simp add: holds_def clearWBuffert_def *)
qed

lemma tail_loop_holds:
  assumes "length w = 80" "n \<le> length t" "n < 64"
  shows "holds (take n t @ replicate (64 - n) 0)
    (foldl (\<lambda>w i. or_byte w i (t ! i)) (clearWBuffert w) [0..<n])"
  using assms(2,3)
proof (induction n)
  case 0
  then show ?case using clear_holds [OF assms(1)] by simp
next
  case (Suc n)
  have "replicate (64 - n) (0 :: byte) = 0 # replicate (64 - Suc n) 0"
    using Suc.prems by (simp add: Suc_diff_Suc flip: replicate_Suc)
  then have "(take n t @ replicate (64 - n) 0)[n := t ! n] = take (Suc n) t @ replicate (64 - Suc n) 0"
    using Suc.prems by (simp add: list_update_append take_Suc_conv_app_nth)
  moreover have "holds ((take n t @ replicate (64 - n) 0)[n := t ! n])
      (or_byte (foldl (\<lambda>w i. or_byte w i (t ! i)) (clearWBuffert w) [0..<n]) n (t ! n))"
    using Suc by (intro or_byte_holds) (auto simp: nth_append)
  ultimately show ?case by simp
qed

lemma length_bytes_small:
  assumes "n * 8 < 2 ^ 32"
  shows "length_bytes n = replicate 4 0 @ word_bytes (word_of_nat (n * 8))"
proof -
  define N where "N = n * 8"
  have u8: "[0..<8] = [0, 1, 2, 3, 4, 5, 6, 7 :: nat]" by code_simp
  have r4: "replicate 4 (0 :: byte) = [0, 0, 0, 0]" by code_simp
  have "N < 256 ^ 4" using assms by (simp add: N_def)
  moreover have "(256 :: nat) ^ 4 \<le> 256 ^ k" if "4 \<le> k" for k
    using that by (intro power_increasing) auto
  ultimately have z: "N div 256 ^ k = 0" if "4 \<le> k" for k
    using that by (meson div_less less_le_trans)
  have d: "ucast (drop_bit (8 * k) (word_of_nat N :: w32)) = (word_of_nat (N div 256 ^ k) :: byte)" for k
  proof -
    have "int N div 2 ^ (8 * k) = int (N div 256 ^ k)"
      by (simp only: power_mult of_nat_div of_nat_power) simp
    then show ?thesis
      using ucast_drop_bit_word_of_int [of "int N" "8 * k"] assms by (simp add: N_def)
  qed
  show ?thesis
    unfolding length_bytes_def word_bytes_def N_def [symmetric] u8
    using z [of 7] z [of 6] z [of 5] z [of 4] d [of 3] d [of 2] d [of 1] d [of 0]
    by (simp add: r4)
qed

lemma words_of_length:
  assumes "length bs = 56" "n * 8 < 2 ^ 32"
  shows "words_of (bs @ length_bytes n) = (words_of (bs @ replicate 8 0))[15 := word_of_nat (n * 8)]"
proof (rule nth_equalityI)
  let ?h = "word_of_nat (n * 8) :: w32"
  fix k assume "k < length (words_of (bs @ length_bytes n))"
  then consider "k < 14" | "k = 14" | "k = 15" by (simp; linarith)
  then show "words_of (bs @ length_bytes n) ! k = (words_of (bs @ replicate 8 0))[15 := ?h] ! k"
  proof cases
    case 3
    have "load_word (bs @ replicate 4 0 @ word_bytes ?h) 60 = ?h"
      using assms(1) word32_from_bytes [of ?h]
      by (simp add: load_word_def nth_append word_bytes_def or.commute or.left_commute)
    with 3 show ?thesis using assms
      by (simp add: words_of_load length_bytes_small [OF assms(2)] word_bytes_def)
  qed (use assms in \<open>simp_all add: words_of_load length_bytes_small load_word_def nth_append word_bytes_def\<close>)
qed simp

section \<open>The routine computes the standard\<close>

lemma store_hash_word_bytes:
  assumes "length H = 5"
  shows "store_hash H = concat (map word_bytes H)"
proof -
  obtain a b c d e where H: "H = [a, b, c, d, e]"
    using assms by (auto simp: numeral_eq_Suc length_Suc_conv)
  have u20: "[0..<20] = [0, 1, 2, 3, 4, 5, 6, 7, 8, 9, 10, 11, 12, 13, 14, 15, 16, 17, 18, 19 :: nat]"
    by code_simp
  show ?thesis
    unfolding store_hash_def u20 H by (simp add: word_bytes_def ucast_and_255)
qed

lemma length_compress [simp]: "length (compress H M) = 5"
  by (simp add: compress_def split_beta)

lemma blocks_nonempty: "64 \<le> length bs \<Longrightarrow> blocks bs = take 64 bs # blocks (drop 64 bs)"
  by (subst blocks.simps) simp

lemma blocks_small [simp]: "length bs < 64 \<Longrightarrow> blocks bs = []"
  by (subst blocks.simps) simp

lemma blocks_single: "length bs = 64 \<Longrightarrow> blocks bs = [bs]"
  by (simp add: blocks_nonempty)

lemma blocks_pair: "length a = 64 \<Longrightarrow> length b = 64 \<Longrightarrow> blocks (a @ b) = [a, b]"
  by (simp add: blocks_append blocks_single)

lemma pad_split:
  assumes "q = length m div 64 * 64"
  shows "blocks (pad m) = blocks m @
    blocks (drop q m @ 0x80 # replicate ((119 - length m mod 64) mod 64) 0 @ length_bytes (length m))"
proof -
  have len: "length (take q m) = q" and dvd: "64 dvd q" and small: "length (drop q m) < 64"
    using assms by (auto simp: minus_div_mult_eq_mod)
  have "blocks m = blocks (take q m) @ blocks (drop q m)"
    using blocks_append [of "take q m" "drop q m"] len dvd by simp
  moreover have "pad m = take q m @ drop q m @ 0x80 # replicate ((119 - length m mod 64) mod 64) 0 @ length_bytes (length m)"
    by (simp add: pad_def)
  ultimately show ?thesis
    using blocks_append [of "take q m"] len dvd small by (simp only:) simp
qed

lemma holds_set_length:
  assumes "holds (bs @ replicate 8 0) w" "length bs = 56" "n * 8 < 2 ^ 32"
  shows "holds (bs @ length_bytes n) (w[15 := word_of_nat (n * 8)])"
  using assms words_of_length [OF assms(2,3)]
  by (simp add: holds_def take_update_swap length_bytes_def)

lemma terminated_holds:
  assumes "holds (t @ replicate (64 - length t) 0) w" "length t < 64"
  shows "holds (t @ 0x80 # replicate (63 - length t) 0) (or_byte w (length t) 0x80)"
proof -
  have "replicate (64 - length t) (0 :: byte) = 0 # replicate (63 - length t) 0"
    using assms(2) by (simp add: Suc_diff_le flip: replicate_Suc)
  then have *: "holds (t @ 0 # replicate (63 - length t) 0) w"
    using assms(1) by simp
  show ?thesis
    using or_byte_holds [OF *, of "length t" "0x80"] assms(2) by (simp add: list_update_append)
qed

lemma last_blocks_short:
  assumes "length t < 56" "n * 8 < 2 ^ 32" "holds (t @ 0x80 # replicate (63 - length t) 0) w"
  shows "holds (t @ 0x80 # replicate ((119 - length t) mod 64) 0 @ length_bytes n) (w[15 := word_of_nat (n * 8)])"
proof -
  have "(119 - length t) mod 64 = 55 - length t" using assms(1) by (simp add: mod_if)
  moreover have "replicate (63 - length t) (0 :: byte) = replicate (55 - length t) 0 @ replicate 8 0"
    using assms(1) by (simp flip: replicate_add)
  ultimately show ?thesis
    using holds_set_length [of "t @ 0x80 # replicate (55 - length t) 0" w n] assms by simp
qed

lemma last_blocks_long:
  assumes "56 \<le> length t" "length t < 64"
  shows "blocks (t @ 0x80 # replicate ((119 - length t) mod 64) 0 @ length_bytes n) =
    [t @ 0x80 # replicate (63 - length t) 0, replicate 56 0 @ length_bytes n]"
proof -
  have "replicate ((119 - length t) mod 64) (0 :: byte) = replicate (63 - length t) 0 @ replicate 56 0"
    using assms by (simp flip: replicate_add)
  then have "t @ 0x80 # replicate ((119 - length t) mod 64) 0 @ length_bytes n =
      (t @ 0x80 # replicate (63 - length t) 0) @ replicate 56 0 @ length_bytes n"
    by simp
  moreover have "length (t @ (0x80 :: byte) # replicate (63 - length t) 0) = 64"
    "length (replicate 56 0 @ length_bytes n) = 64"
    using assms by (simp_all add: length_bytes_def)
  ultimately show ?thesis by (simp only: blocks_pair)
qed

lemma calc_from_sha1:
  assumes "length w0 = 80"
  shows "calc_from w0 m = (if length m * 8 < 2 ^ 32 then Ret (sha1 m) else UB SignedOverflow)"
proof (cases "length m * 8 < 2 ^ 32")
  case False
  then have "int (length m) * 8 \<ge> 2 ^ 32" by simp
  then show ?thesis using False by (simp add: calc_from_def split_beta Let_def)
next
  case True
  define q where "q = length m div 64 * 64"
  define t where "t = drop q m"
  obtain w where w: "full_blocks m 0 (init_result, w0) = (q, hash_blocks m init_result, w)" "length w = 80"
    using full_blocks_spec [OF assms, of 0 m init_result] by (auto simp: q_def mult.commute)
  have t: "length t = length m - q" "length t < 64" "length m mod 64 = length t"
    by (auto simp: t_def q_def minus_div_mult_eq_mod)
  let ?H = "hash_blocks m init_result"
  let ?w1 = "foldl (\<lambda>w i. or_byte w i (m ! (i + q))) (clearWBuffert w) [0..<length t]"
  have "?w1 = foldl (\<lambda>w i. or_byte w i (t ! i)) (clearWBuffert w) [0..<length t]"
    by (rule foldl_cong) (auto simp: t_def add.commute)
  then have w2: "holds (t @ 0x80 # replicate (63 - length t) 0) (or_byte ?w1 (length t) 0x80)"
    using terminated_holds tail_loop_holds [OF w(2), of "length t" t] t(2) by simp
  let ?P = "t @ 0x80 # replicate ((119 - length t) mod 64) 0 @ length_bytes (length m)"
  have sha1: "sha1 m = concat (map word_bytes (hash_blocks ?P ?H))"
    using pad_split [OF q_def] by (simp add: sha1_def t(3) flip: t_def)
  have fits: "\<not> int (length m) * 8 \<ge> 2 ^ 32" using True by simp
  show ?thesis
  proof (cases "56 \<le> length t")
    case True
    obtain w3 where w3: "innerHash ?H (or_byte ?w1 (length t) 0x80) =
        (compress ?H (words_of (t @ 0x80 # replicate (63 - length t) 0)), w3)" "length w3 = 80"
      using innerHash_holds [OF w2] by blast
    have "replicate 64 (0 :: byte) = replicate 56 0 @ replicate 8 0" by (simp flip: replicate_add)
    then have "holds (replicate 56 0 @ length_bytes (length m)) ((clearWBuffert w3)[15 := word_of_nat (length m * 8)])"
      using clear_holds [OF w3(2)] \<open>length m * 8 < 2 ^ 32\<close> by (intro holds_set_length) auto
    from innerHash_holds [OF this, of "compress ?H (words_of (t @ 0x80 # replicate (63 - length t) 0))"] show ?thesis
      using w w3 True fits \<open>length m * 8 < 2 ^ 32\<close> last_blocks_long [OF True t(2), of "length m"]
      by (auto simp: calc_from_def Let_def sha1 store_hash_word_bytes simp flip: t(1))
  next
    case False
    from last_blocks_short [OF _ True w2] False
    have h: "holds ?P ((or_byte ?w1 (length t) 0x80)[15 := word_of_nat (length m * 8)])" by simp
    then have "blocks ?P = [?P]" by (simp add: holds_def blocks_single)
    with innerHash_holds [OF h, of ?H] show ?thesis
      using w False fits \<open>length m * 8 < 2 ^ 32\<close>
      by (auto simp: calc_from_def Let_def sha1 store_hash_word_bytes simp flip: t(1))
  qed
qed

lemma calc_sha1: "calc m = (if length m * 8 < 2 ^ 32 then Ret (sha1 m) else UB SignedOverflow)"
  by (simp add: calc_def calc_from_sha1)

lemma length_fold_compress: "length H = 5 \<Longrightarrow> length (fold (\<lambda>b H. compress H (words_of b)) bs H) = 5"
  by (induction bs arbitrary: H) auto

lemma length_sha1 [simp]: "length (sha1 m) = 20"
proof -
  have "length (concat (map word_bytes hs)) = 4 * length hs" for hs
    by (induction hs) (auto simp: word_bytes_def)
  then show ?thesis
    by (simp add: sha1_def length_fold_compress init_result_def)
qed

text \<open>
  C13. The bundled routine computes SHA-1: for every message of less than 2^29 bytes it returns
  the standard's digest of the message, whatever its uninitialised buffer of 80 words holds;
  from 2^29 bytes on the shift that forms the bit length overflows.
\<close>

theorem smallsha1_computes_sha1:
  assumes "length w0 = 80"
  shows "calc_from w0 m = (if length m < 2 ^ 29 then Ret (sha1 m) else UB SignedOverflow)"
  using calc_from_sha1 [OF assms, of m] by simp

theorem smallsha1_computes_sha1_witness:
  "length (replicate 80 (0xdeadbeef :: w32)) = 80 \<and>
   calc_from (replicate 80 0xdeadbeef) [0x61, 0x62, 0x63] = Ret (sha1 [0x61, 0x62, 0x63])"
  using smallsha1_computes_sha1 [of "replicate 80 0xdeadbeef" "[0x61, 0x62, 0x63]"] by simp

end
