(* ===== verification/Hash.thy ===== *)
theory Hash
  imports Sha1 Result_Type
begin

text \<open>
  The hashing layer (hash.cpp): the conversions of a 20-byte hash, the info hash, the splitting
  of the concatenated piece hashes of a torrent and the check of a downloaded piece. Characters
  are bytes, as the build makes \<open>char\<close> unsigned.
\<close>

section \<open>Definitions\<close>

type_synonym hash_t = bytes

definition byte_of_char :: "char \<Rightarrow> byte" where
  "byte_of_char c = of_char c"

definition char_of_byte :: "byte \<Rightarrow> char" where
  "char_of_byte b = char_of (unat b)"

datatype HashError = MalformedPieceHashesString | PieceHashesStringTooLarge

primrec hash_error_to_string :: "HashError \<Rightarrow> string" where
  "hash_error_to_string MalformedPieceHashesString = ''malformed piece hashes string''"
| "hash_error_to_string PieceHashesStringTooLarge = ''piece hashes string is too large''"

definition hash_to_str :: "hash_t \<Rightarrow> string" where
  "hash_to_str hash = map char_of_byte hash"

definition hash_to_hex :: "hash_t \<Rightarrow> string" where
  "hash_to_hex hash = toHexString hash"

definition compute_info_hash :: "string \<Rightarrow> hash_t outcome" where
  "compute_info_hash bencoded_info_dict =
     (if int (length bencoded_info_dict) > int32_max then Throw invalid_argument
      else calc (map byte_of_char bencoded_info_dict))"

definition copy_into :: "bytes \<Rightarrow> bytes \<Rightarrow> bytes" where
  "copy_into dest src = src @ drop (length src) dest"

function split_loop :: "string \<Rightarrow> nat \<Rightarrow> hash_t list \<Rightarrow> hash_t list" where
  "split_loop s i result =
     (if i < length s
      then let this_hash = copy_into (replicate 20 0) (map byte_of_char (take 20 (drop i s)))
           in split_loop s (i + 20) (result @ [this_hash])
      else result)"
  by pat_completeness auto
termination by (relation "measure (\<lambda>(s, i, _). length s - i)") auto

definition split_piece_hashes :: "string \<Rightarrow> (hash_t list, HashError) Result" where
  "split_piece_hashes s =
     (if int (length s) > int64_max then ERROR PieceHashesStringTooLarge
      else if length s mod 20 > 0 then ERROR MalformedPieceHashesString
      else OK (split_loop s 0 []))"

definition verify_piece :: "bytes \<Rightarrow> hash_t \<Rightarrow> bool outcome" where
  "verify_piece piece hash =
     (if int (length piece) > int32_max then Throw invalid_argument
      else obind (calc piece) (\<lambda>buffer. Ret (buffer = hash)))"

section \<open>Lemmas\<close>

lemma byte_of_char_nat: "byte_of_char c = word_of_nat (of_char c)"
  by (simp add: byte_of_char_def of_nat_of_char)

lemma unat_byte_of_char [simp]: "unat (byte_of_char c) = of_char c"
  by (simp add: byte_of_char_nat unsigned_of_nat take_bit_nat_eq_self nat_of_char_less_256 del: of_nat_of_char)

lemma char_of_byte_of_char [simp]: "char_of_byte (byte_of_char c) = c"
  by (simp add: char_of_byte_def)

lemma byte_of_char_of_byte [simp]: "byte_of_char (char_of_byte b) = b"
proof (rule word_unat_eq_iff [THEN iffD2])
  have "unat b < 256" using unsigned_less [of b, where 'a = nat] by simp
  then show "unat (byte_of_char (char_of_byte b)) = unat b"
    by (simp add: char_of_byte_def of_char_of)
qed

lemma hash_to_str_bytes [simp]:
  "map byte_of_char (hash_to_str h) = h" "hash_to_str (map byte_of_char s) = s"
  "length (hash_to_str h) = length h"
  by (simp_all add: hash_to_str_def o_def)

declare split_loop.simps [simp del]

lemma split_loop_concat:
  "list_all (\<lambda>h. length h = 20) hs \<Longrightarrow>
    split_loop (pre @ concat (map hash_to_str hs)) (length pre) acc = acc @ hs"
proof (induction hs arbitrary: pre acc)
  case Nil
  then show ?case by (subst split_loop.simps) simp
next
  case (Cons h hs)
  from Cons.IH [of "pre @ hash_to_str h" "acc @ [h]"] Cons.prems show ?case
    by (subst split_loop.simps) (simp add: copy_into_def Let_def add.commute)
qed

lemma chunks_of_20: "length s mod 20 = 0 \<Longrightarrow>
    \<exists>hs. s = concat (map hash_to_str hs) \<and> list_all (\<lambda>h. length h = 20) hs"
proof (induction "length s" arbitrary: s rule: less_induct)
  case less
  show ?case
  proof (cases "s = []")
    case True
    then show ?thesis by (intro exI [of _ "[]"]) simp
  next
    case False
    with less.prems have l: "20 \<le> length s"
      by (metis dvd_imp_le length_greater_0_conv mod_0_imp_dvd)
    with less.prems have "length (drop 20 s) mod 20 = 0" by (simp add: le_mod_geq)
    then obtain hs where "drop 20 s = concat (map hash_to_str hs)" "list_all (\<lambda>h. length h = 20) hs"
      using less.hyps [of "drop 20 s"] l False by auto
    then show ?thesis
      using l by (intro exI [of _ "map byte_of_char (take 20 s) # hs"]) (simp flip: \<open>drop 20 s = _\<close>)
  qed
qed

lemma concat_hashes_length: "list_all (\<lambda>h. length h = 20) hs \<Longrightarrow> length (concat (map hash_to_str hs)) = 20 * length hs"
  by (induction hs) auto

lemma split_piece_hashes_OK_iff:
  "split_piece_hashes s = OK hs \<longleftrightarrow>
     s = concat (map hash_to_str hs) \<and> list_all (\<lambda>h. length h = 20) hs \<and> int (length s) \<le> int64_max"
proof
  assume l: "split_piece_hashes s = OK hs"
  then obtain hs' where "s = concat (map hash_to_str hs')" "list_all (\<lambda>h. length h = 20) hs'"
    using chunks_of_20 [of s] by (auto simp: split_piece_hashes_def split: if_splits)
  then show "s = concat (map hash_to_str hs) \<and> list_all (\<lambda>h. length h = 20) hs \<and> int (length s) \<le> int64_max"
    using l split_loop_concat [of hs' "[]" "[]"] by (auto simp: split_piece_hashes_def split: if_splits)
next
  assume "s = concat (map hash_to_str hs) \<and> list_all (\<lambda>h. length h = 20) hs \<and> int (length s) \<le> int64_max"
  then show "split_piece_hashes s = OK hs"
    using split_loop_concat [of hs "[]" "[]"] concat_hashes_length [of hs] by (auto simp: split_piece_hashes_def)
qed

text \<open>
  Splitting the piece-hash string of a torrent inverts concatenating the hashes: the result
  is \<open>hs\<close> exactly when the string is the concatenation of the 20-byte hashes \<open>hs\<close>.
\<close>

theorem split_piece_hashes_inverse:
  "split_piece_hashes s = OK hs \<longleftrightarrow>
     s = concat (map hash_to_str hs) \<and> list_all (\<lambda>h. length h = 20) hs \<and> int (length s) \<le> int64_max"
  by (rule split_piece_hashes_OK_iff)

lemma verify_piece_cases:
  "verify_piece piece hash =
     (if length piece < 2 ^ 29 then Ret (sha1 piece = hash)
      else if length piece < 2 ^ 31 then UB SignedOverflow
      else Throw invalid_argument)"
  by (simp add: verify_piece_def calc_sha1 int32_max_def)

text \<open>
  Checking a piece: below 2^29 bytes it decides whether the SHA-1 digest of the piece is the
  expected hash; the guard that precedes the hash only starts at 2^31 bytes and leaves the sizes
  between unprotected.
\<close>

theorem verify_piece_spec:
  "verify_piece piece hash =
     (if length piece < 2 ^ 29 then Ret (sha1 piece = hash)
      else if length piece < 2 ^ 31 then UB SignedOverflow
      else Throw invalid_argument)"
  by (rule verify_piece_cases)

lemma compute_info_hash_small:
  "length s < 2 ^ 29 \<Longrightarrow> compute_info_hash s = Ret (sha1 (map byte_of_char s))"
  by (simp add: compute_info_hash_def calc_sha1 int32_max_def)

section \<open>The hexadecimal form\<close>

definition hex_val :: "char \<Rightarrow> nat" where
  "hex_val c = (if CHR ''a'' \<le> c then 10 + (of_char c - of_char CHR ''a'') else of_char c - of_char CHR ''0'')"

fun from_hex :: "string \<Rightarrow> bytes" where
  "from_hex (a # b # s) = word_of_nat (16 * hex_val a + hex_val b) # from_hex s"
| "from_hex _ = []"

lemma hex_val_digit: "n < 16 \<Longrightarrow> hex_val (hexDigits ! n) = n"
proof -
  have "list_all (\<lambda>n. hex_val (hexDigits ! n) = n) [0..<16]" by code_simp
  then show "n < 16 \<Longrightarrow> hex_val (hexDigits ! n) = n" by (simp add: list_all_iff)
qed

lemma nibbles: "unat (drop_bit 4 b AND 0xf) = unat b div 16" "unat (b AND 0xf) = unat b mod 16" for b :: byte
proof -
  have m: "x AND 0xf = take_bit 4 x" for x :: byte
    by (simp add: take_bit_eq_mask mask_eq_exp_minus_1)
  have b: "unat b div 16 < 16" using unsigned_less [of b, where 'a = nat] by (simp add: less_mult_imp_div_less)
  show "unat (b AND 0xf) = unat b mod 16"
    unfolding m unsigned_take_bit_eq by (simp add: take_bit_eq_mod)
  from b show "unat (drop_bit 4 b AND 0xf) = unat b div 16"
    unfolding m unsigned_take_bit_eq unsigned_drop_bit_eq by (simp add: take_bit_eq_mod drop_bit_eq_div)
qed

lemma toHexString_nibbles:
  "toHexString h = concat (map (\<lambda>x. [hexDigits ! (unat x div 16), hexDigits ! (unat x mod 16)]) h)"
  unfolding toHexString_def unfolding nibbles(1) unfolding nibbles(2) ..

lemma from_hex_toHexString: "from_hex (toHexString h) = h"
proof (induction h)
  case (Cons x h)
  have "unat x div 16 < 16"
    using unsigned_less [of x, where 'a = nat] by (simp add: less_mult_imp_div_less)
  then have "word_of_nat (16 * hex_val (hexDigits ! (unat x div 16)) + hex_val (hexDigits ! (unat x mod 16))) = x"
    by (simp add: hex_val_digit del: of_nat_add of_nat_mult)
  with Cons show ?case
    by (simp add: toHexString_nibbles del: of_nat_add of_nat_mult)
qed (simp add: toHexString_nibbles)

text \<open>
  The hexadecimal form of a hash determines the hash: it has two digits per byte, and
  reading them back gives the bytes.
\<close>

theorem hash_to_hex_injective:
  "length (hash_to_hex h) = 2 * length h \<and> from_hex (hash_to_hex h) = h"
proof -
  have "length (toHexString h) = 2 * length h"
    by (induction h) (simp_all add: toHexString_nibbles)
  then show ?thesis by (simp add: hash_to_hex_def from_hex_toHexString)
qed

end
