(* ===== verification/Torrent_File.thy ===== *)
theory Torrent_File
  imports Bencode_Spec Hash
begin

text \<open>
  The parsed torrent file (torrent.hpp, and the constructor of \<open>TorrentFile\<close> in torrent.cpp):
  the descriptor as a record, its construction from a bencode tree with every cast, lookup and
  arithmetic step that can fail, and the invariant of the descriptors it returns.
\<close>

section \<open>Data\<close>

record File =
  filepath :: "string list"
  flength :: int

definition filename_sections :: "string list \<Rightarrow> string" where
  "filename_sections ps =
     concat (map (\<lambda>i. (ps ! i) @ (if int i \<noteq> int (length ps) - 1 then ''/'' else '''')) [0..<length ps])"

definition filename :: "File \<Rightarrow> string outcome" where
  "filename f =
     (if int (length (filepath f)) > int64_max then Throw invalid_argument
      else Ret (filename_sections (filepath f)))"

record TorrentFile =
  announce_url :: string
  info_hash :: hash_t
  piece_hashes :: "hash_t list"
  piece_length :: int
  tlength :: int
  pieces_count :: int
  tname :: string
  folder_name :: string
  files :: "File list"

definition empty_TorrentFile :: TorrentFile where
  "empty_TorrentFile = \<lparr>announce_url = '''', info_hash = replicate 20 0, piece_hashes = [],
     piece_length = 0, tlength = 0, pieces_count = 0, tname = '''', folder_name = '''', files = []\<rparr>"

section \<open>The constructor\<close>

text \<open>A reference cast to the wrong alternative throws, and so does \<open>at\<close> on a missing key.\<close>

primrec as_dict :: "BencodeValue \<Rightarrow> (string \<times> BencodeValue) list outcome" where
  "as_dict (BencodeDict m) = Ret m"
| "as_dict (BencodeInt n) = Throw bad_cast"
| "as_dict (BencodeString s) = Throw bad_cast"
| "as_dict (BencodeList vs) = Throw bad_cast"

primrec as_list :: "BencodeValue \<Rightarrow> BencodeValue list outcome" where
  "as_list (BencodeList vs) = Ret vs"
| "as_list (BencodeInt n) = Throw bad_cast"
| "as_list (BencodeString s) = Throw bad_cast"
| "as_list (BencodeDict m) = Throw bad_cast"

primrec as_int :: "BencodeValue \<Rightarrow> int outcome" where
  "as_int (BencodeInt n) = Ret n"
| "as_int (BencodeList vs) = Throw bad_cast"
| "as_int (BencodeString s) = Throw bad_cast"
| "as_int (BencodeDict m) = Throw bad_cast"

primrec as_string :: "BencodeValue \<Rightarrow> string outcome" where
  "as_string (BencodeString s) = Ret s"
| "as_string (BencodeInt n) = Throw bad_cast"
| "as_string (BencodeList vs) = Throw bad_cast"
| "as_string (BencodeDict m) = Throw bad_cast"

definition dict_at :: "(string \<times> BencodeValue) list \<Rightarrow> string \<Rightarrow> BencodeValue outcome" where
  "dict_at m k = (case map_of m k of Some v \<Rightarrow> Ret v | None \<Rightarrow> Throw out_of_range)"

text \<open>One entry of the list of files, and the loop that adds up their lengths.\<close>

definition read_file_entry :: "int \<Rightarrow> BencodeValue \<Rightarrow> (int \<times> File) outcome" where
  "read_file_entry tot file_node =
     obind (as_dict file_node) (\<lambda>file_dict.
     obind (obind (dict_at file_dict ''length'') as_int) (\<lambda>l.
     obind (add64 tot l) (\<lambda>tot.
     obind (obind (dict_at file_dict ''path'') as_list) (\<lambda>path.
     obind (omap as_string path) (\<lambda>segments.
       Ret (tot, \<lparr>filepath = segments, flength = l\<rparr>))))))"

fun read_files :: "int \<Rightarrow> File list \<Rightarrow> BencodeValue list \<Rightarrow> (int \<times> File list) outcome" where
  "read_files tot acc [] = Ret (tot, acc)"
| "read_files tot acc (file_node # rest) =
     obind (read_file_entry tot file_node) (\<lambda>(tot, file). read_files tot (acc @ [file]) rest)"

definition read_layout :: "string \<Rightarrow> (string \<times> BencodeValue) list \<Rightarrow> (int \<times> File list) outcome" where
  "read_layout name info_dict =
     (if map_of info_dict ''files'' \<noteq> None
      then obind (obind (dict_at info_dict ''files'') as_list) (read_files 0 [])
      else obind (obind (dict_at info_dict ''length'') as_int) (\<lambda>l.
             Ret (l, [\<lparr>filepath = [name], flength = l\<rparr>])))"

definition TorrentFile_of :: "BencodeValue \<Rightarrow> TorrentFile outcome" where
  "TorrentFile_of tree =
     obind (as_dict tree) (\<lambda>dict.
     obind (obind (dict_at dict ''announce'') as_string) (\<lambda>announce.
     obind (dict_at dict ''info'') (\<lambda>info.
     obind (as_dict info) (\<lambda>info_dict.
     obind (compute_info_hash (encode info)) (\<lambda>ihash.
     obind (obind (dict_at info_dict ''name'') as_string) (\<lambda>name.
     obind (read_layout name info_dict) (\<lambda>(tot, fs).
     obind (obind (dict_at info_dict ''piece length'') as_int) (\<lambda>pl.
     obind (Ret (cast_int32 pl)) (\<lambda>pl.
     obind (obind (dict_at info_dict ''pieces'') as_string) (\<lambda>pieces.
     case split_piece_hashes pieces of
       ERROR e \<Rightarrow> Throw invalid_argument
     | OK hashes \<Rightarrow>
         if int (length hashes) > int64_max then Throw out_of_range
         else obind (add64 tot pl) (\<lambda>x.
              obind (sub64 x 1) (\<lambda>y.
              obind (div64 y pl) (\<lambda>count.
                if count \<noteq> int (length hashes) then Throw logic_error
                else Ret \<lparr>announce_url = announce, info_hash = ihash, piece_hashes = hashes,
                  piece_length = pl, tlength = tot, pieces_count = count, tname = name,
                  folder_name = '''', files = fs\<rparr>)))))))))))))"

section \<open>What the constructor guarantees\<close>

definition total_length :: "File list \<Rightarrow> int" where
  "total_length fs = sum_list (map flength fs)"

definition desc_ok :: "TorrentFile \<Rightarrow> bool" where
  "desc_ok td \<longleftrightarrow>
     piece_length td \<noteq> 0 \<and> - (2 ^ 31) \<le> piece_length td \<and> piece_length td < 2 ^ 31 \<and>
     in_int64 (tlength td) \<and> tlength td = total_length (files td) \<and>
     pieces_count td = (tlength td + piece_length td - 1) sdiv piece_length td \<and>
     pieces_count td = int (length (piece_hashes td)) \<and>
     list_all (\<lambda>h. length h = 20) (piece_hashes td) \<and> length (info_hash td) = 20"

lemma add64_Ret_iff [simp]: "add64 a b = Ret c \<longleftrightarrow> c = a + b \<and> in_int64 c"
  by (auto simp: add64_def int64_check_def)

lemma sub64_Ret_iff [simp]: "sub64 a b = Ret c \<longleftrightarrow> c = a - b \<and> in_int64 c"
  by (auto simp: sub64_def int64_check_def)

lemma mul64_Ret_iff [simp]: "mul64 a b = Ret c \<longleftrightarrow> c = a * b \<and> in_int64 c"
  by (auto simp: mul64_def int64_check_def)

lemma div64_Ret_iff [simp]: "div64 a b = Ret c \<longleftrightarrow> b \<noteq> 0 \<and> c = a sdiv b \<and> in_int64 c"
  by (auto simp: div64_def int64_check_def)

lemma cast_int32_range: "- (2 ^ 31) \<le> cast_int32 x" "cast_int32 x < 2 ^ 31"
  using signed_take_bit_int_greater_eq_minus_exp [of 31 x] signed_take_bit_int_less_exp [of 31 x]
  by (simp_all add: cast_int32_def)

lemma read_files_total:
  "read_files tot acc vs = Ret (tot', fs) \<Longrightarrow> tot = total_length acc \<Longrightarrow> in_int64 tot \<Longrightarrow>
    tot' = total_length fs \<and> in_int64 tot'"
proof (induction tot acc vs rule: read_files.induct)
  case (2 tot acc v vs)
  from "2.prems"(1) obtain tot1 f where f: "read_file_entry tot v = Ret (tot1, f)"
      "read_files tot1 (acc @ [f]) vs = Ret (tot', fs)"
    by auto
  then have "tot1 = tot + flength f" "in_int64 tot1"
    by (auto simp: read_file_entry_def)
  with "2.IH" [OF f(1) refl f(2)] "2.prems"(2) show ?case
    by (auto simp: total_length_def)
qed simp

lemma compute_info_hash_length: "compute_info_hash s = Ret h \<Longrightarrow> length h = 20"
  by (auto simp: compute_info_hash_def calc_sha1 split: if_splits)

lemma as_int_Ret_iff [simp]: "as_int v = Ret n \<longleftrightarrow> v = BencodeInt n"
  and as_string_Ret_iff [simp]: "as_string v = Ret s \<longleftrightarrow> v = BencodeString s"
  and as_list_Ret_iff [simp]: "as_list v = Ret vs \<longleftrightarrow> v = BencodeList vs"
  and as_dict_Ret_iff [simp]: "as_dict v = Ret m \<longleftrightarrow> v = BencodeDict m"
  by (cases v; auto)+

lemma dict_at_Ret_iff [simp]: "dict_at m k = Ret v \<longleftrightarrow> map_of m k = Some v"
  by (auto simp: dict_at_def split: option.splits)

lemma dict_at_wf:
  assumes "wf_value (BencodeDict m)" "map_of m k = Some v"
  shows "wf_value v"
  using assms map_of_SomeD [OF assms(2)] by (auto simp: list_all_iff)

lemma read_layout_total:
  assumes "read_layout n m = Ret (tot, fs)" "wf_value (BencodeDict m)"
  shows "tot = total_length fs \<and> in_int64 tot"
proof (cases "map_of m ''files'' = None")
  case True
  with assms dict_at_wf [OF assms(2)] show ?thesis
    by (fastforce simp: read_layout_def total_length_def)
next
  case False
  with assms(1) read_files_total [of 0 "[]" _ tot fs] show ?thesis
    by (auto simp: read_layout_def total_length_def in_int64_def int64_min_def int64_max_def)
qed

lemma TorrentFile_of_desc_ok:
  assumes td: "TorrentFile_of tree = Ret td" and wf: "wf_value tree"
  shows "desc_ok td"
proof -
  from td obtain dict info_dict name fs pl pieces where
    d: "tree = BencodeDict dict" "map_of dict ''info'' = Some (BencodeDict info_dict)"
    and l: "read_layout name info_dict = Ret (tlength td, fs)" "files td = fs"
    and pl: "piece_length td = cast_int32 pl"
    and h: "compute_info_hash (encode (BencodeDict info_dict)) = Ret (info_hash td)"
    and s: "split_piece_hashes pieces = OK (piece_hashes td)"
    and r: "piece_length td \<noteq> 0" "pieces_count td = (tlength td + piece_length td - 1) sdiv piece_length td"
      "pieces_count td = int (length (piece_hashes td))"
    by (auto simp: TorrentFile_of_def case_Result_Ret_iff)
  from s have "list_all (\<lambda>h. length h = 20) (piece_hashes td)"
    by (simp add: split_piece_hashes_OK_iff)
  moreover have "wf_value (BencodeDict info_dict)"
    using dict_at_wf wf d by blast
  ultimately show ?thesis
    using read_layout_total [OF l(1)] l(2) r cast_int32_range [of pl] compute_info_hash_length [OF h]
    by (auto simp: desc_ok_def pl)
qed

text \<open>
  C20. Every descriptor the constructor returns from a parsed tree is consistent: the piece
  length is a non-zero 32-bit value, the total length is the sum of the file lengths, and the
  number of pieces is both the rounded-up quotient and the number of 20-byte hashes.
\<close>

theorem TorrentFile_consistent:
  assumes "decode text = Ret (OK tree)" and "TorrentFile_of tree = Ret td"
  shows "desc_ok td"
  using assms TorrentFile_of_desc_ok bencoded_wf(1) by (auto simp: decode_OK_iff)

section \<open>Reading back a descriptor\<close>

definition file_tree :: "File \<Rightarrow> BencodeValue" where
  "file_tree f = BencodeDict
     [(''length'', BencodeInt (flength f)), (''path'', BencodeList (map BencodeString (filepath f)))]"

definition info_tree :: "TorrentFile \<Rightarrow> BencodeValue" where
  "info_tree td = BencodeDict
     [(''files'', BencodeList (map file_tree (files td))), (''name'', BencodeString (tname td)),
      (''piece length'', BencodeInt (piece_length td)),
      (''pieces'', BencodeString (concat (map hash_to_str (piece_hashes td))))]"

definition torrent_tree :: "TorrentFile \<Rightarrow> BencodeValue" where
  "torrent_tree td = BencodeDict
     [(''announce'', BencodeString (announce_url td)), (''info'', info_tree td)]"

definition sane_desc :: "TorrentFile \<Rightarrow> bool" where
  "sane_desc td \<longleftrightarrow>
     0 < piece_length td \<and> piece_length td < 2 ^ 31 \<and>
     list_all (\<lambda>f. 0 \<le> flength f) (files td) \<and> tlength td = total_length (files td) \<and>
     tlength td + piece_length td \<le> int64_max \<and>
     pieces_count td = (tlength td + piece_length td - 1) div piece_length td \<and>
     pieces_count td = int (length (piece_hashes td)) \<and>
     list_all (\<lambda>h. length h = 20) (piece_hashes td) \<and> folder_name td = ''''"

lemma omap_as_string: "omap as_string (map BencodeString ps) = Ret ps"
  by (induction ps) simp_all

lemma total_length_nonneg: "list_all (\<lambda>f. 0 \<le> flength f) fs \<Longrightarrow> 0 \<le> total_length fs"
  by (induction fs) (auto simp: total_length_def)

lemma total_length_simps [simp]:
  "total_length [] = 0" "total_length (f # fs) = flength f + total_length fs"
  "total_length (fs @ gs) = total_length fs + total_length gs"
  by (simp_all add: total_length_def)

lemma read_files_trees:
  assumes "list_all (\<lambda>f. 0 \<le> flength f) (acc @ fs)" "total_length (acc @ fs) \<le> int64_max"
  shows "read_files (total_length acc) acc (map file_tree fs) = Ret (total_length (acc @ fs), acc @ fs)"
  using assms
proof (induction fs arbitrary: acc)
  case (Cons f fs)
  have "in_int64 (total_length acc + flength f)"
    using Cons.prems total_length_nonneg [of fs] total_length_nonneg [of acc]
    by (simp add: in_int64_def int64_min_def)
  then have "read_file_entry (total_length acc) (file_tree f) = Ret (total_length acc + flength f, f)"
    by (simp add: read_file_entry_def file_tree_def omap_as_string)
  with Cons.IH [of "acc @ [f]"] Cons.prems show ?case by (simp add: add.assoc)
qed simp

lemma sdiv_nonneg: "0 \<le> a \<Longrightarrow> 0 < b \<Longrightarrow> a sdiv b = a div b" for a b :: int
  using sdiv_of_nat [of "nat a" "nat b"] by (simp add: of_nat_div)

lemma concat_hash_bound:
  assumes "sane_desc td"
  shows "int (20 * length (piece_hashes td)) \<le> int64_max \<or> 2 ^ 29 \<le> length (encode (info_tree td))"
proof -
  have "length (encode (info_tree td)) \<ge> length (concat (map hash_to_str (piece_hashes td)))"
    by (simp add: info_tree_def encode_def)
  then show ?thesis
    using assms concat_hashes_length [of "piece_hashes td"]
    by (auto simp: sane_desc_def int64_max_def)
qed

lemma TorrentFile_of_torrent_tree:
  assumes "sane_desc td" "length (encode (info_tree td)) < 2 ^ 29"
  shows "TorrentFile_of (torrent_tree td) =
    Ret (td\<lparr>info_hash := sha1 (map byte_of_char (encode (info_tree td)))\<rparr>)"
proof -
  define m where "m = [(''files'', BencodeList (map file_tree (files td))), (''name'', BencodeString (tname td)),
      (''piece length'', BencodeInt (piece_length td)),
      (''pieces'', BencodeString (concat (map hash_to_str (piece_hashes td))))]"
  have info: "info_tree td = BencodeDict m"
    by (simp add: info_tree_def m_def)
  have keys: "map_of m ''name'' = Some (BencodeString (tname td))"
    "map_of m ''piece length'' = Some (BencodeInt (piece_length td))"
    "map_of m ''pieces'' = Some (BencodeString (concat (map hash_to_str (piece_hashes td))))"
    by (simp_all add: m_def)
  have layout: "read_layout (tname td) m = Ret (tlength td, files td)"
    using read_files_trees [of "[]" "files td"] assms(1)
    by (simp add: read_layout_def sane_desc_def m_def)
  have pl: "cast_int32 (piece_length td) = piece_length td"
    using assms(1) by (simp add: cast_int32_def sane_desc_def signed_take_bit_int_eq_self)
  have split: "split_piece_hashes (concat (map hash_to_str (piece_hashes td))) = OK (piece_hashes td)"
    using assms concat_hash_bound [OF assms(1)] concat_hashes_length [of "piece_hashes td"]
    by (auto simp: split_piece_hashes_OK_iff sane_desc_def)
  have nonneg: "0 \<le> tlength td"
    using assms(1) by (simp add: sane_desc_def total_length_nonneg)
  then have count: "obind (add64 (tlength td) (piece_length td)) (\<lambda>x. obind (sub64 x 1) (\<lambda>y. div64 y (piece_length td)))
      = Ret (pieces_count td)"
    using assms(1) concat_hash_bound [OF assms(1)] assms(2)
    by (auto simp: sane_desc_def arith64 sdiv_nonneg)
  show ?thesis
    using count compute_info_hash_small [OF assms(2)] assms(1,2) concat_hash_bound [OF assms(1)]
    by (auto simp: TorrentFile_of_def torrent_tree_def info keys layout pl split sane_desc_def)
qed

lemma nat_to_string_length: "length (nat_to_string n) \<le> Suc n"
proof (induction n rule: nat_to_string.induct)
  case (1 n)
  then show ?case
    by (cases "n < 10") (auto simp: nat_to_string_small nat_to_string_step)
qed

lemma flength_le_total: "list_all (\<lambda>f. 0 \<le> flength f) fs \<Longrightarrow> f \<in> set fs \<Longrightarrow> flength f \<le> total_length fs"
proof (induction fs)
  case (Cons g fs)
  then show ?case using total_length_nonneg [of fs] by auto
qed simp

lemma wf_torrent_tree:
  assumes "sane_desc td"
  shows "wf_value (torrent_tree td)"
proof -
  have sorted: "sorted_wrt (<) [''announce'', ''info'']" "sorted_wrt (<) [''length'', ''path'']"
    "sorted_wrt (<) [''files'', ''name'', ''piece length'', ''pieces'']"
    by code_simp+
  have "wf_value (file_tree f)" if "f \<in> set (files td)" for f
  proof -
    have "flength f \<le> total_length (files td)"
      using that assms by (auto simp: sane_desc_def intro: flength_le_total)
    then show ?thesis
      using that assms sorted(2)
      by (auto simp: file_tree_def sane_desc_def list_all_iff in_int64_def int64_min_def)
  qed
  then show ?thesis
    using assms sorted(1,3)
    by (auto simp: torrent_tree_def info_tree_def sane_desc_def list_all_iff in_int64_def int64_min_def int64_max_def)
qed

lemma decode_torrent_tree:
  assumes "sane_desc td" "length (encode (info_tree td)) < 2 ^ 29" "length (announce_url td) < 2 ^ 29"
  shows "decode (encode (torrent_tree td)) = Ret (OK (torrent_tree td))"
proof -
  have "int (length (encode (torrent_tree td))) \<le> int64_max"
    using assms(2,3) nat_to_string_length [of "length (announce_url td)"]
      nat_to_string_length [of "length ''announce''"] nat_to_string_length [of "length ''info''"]
    by (simp add: torrent_tree_def encode_def int64_max_def)
  moreover have "torrent_tree td \<noteq> BencodeString ''''"
    by (simp add: torrent_tree_def)
  ultimately show ?thesis
    using wf_torrent_tree [OF assms(1)] by (simp add: decode_encode)
qed

text \<open>
  C19. Loading a torrent: the text of a multi-file torrent whose values are sane is parsed and
  gives back exactly the descriptor, with the SHA-1 digest of the bencoded info dictionary as
  its info hash.
\<close>

theorem load_torrent_roundtrip:
  assumes "sane_desc td" "length (encode (info_tree td)) < 2 ^ 29" "length (announce_url td) < 2 ^ 29"
  shows "\<exists>tree. decode (encode (torrent_tree td)) = Ret (OK tree) \<and>
    TorrentFile_of tree = Ret (td\<lparr>info_hash := sha1 (map byte_of_char (encode (info_tree td)))\<rparr>)"
  using decode_torrent_tree [OF assms] TorrentFile_of_torrent_tree [OF assms(1,2)] by simp

definition example_desc :: TorrentFile where
  "example_desc = \<lparr>announce_url = ''http://t'', info_hash = [], piece_hashes = [replicate 20 1, replicate 20 2],
     piece_length = 2, tlength = 3, pieces_count = 2, tname = ''t'', folder_name = '''',
     files = [\<lparr>filepath = [''d'', ''a''], flength = 1\<rparr>, \<lparr>filepath = [''b''], flength = 2\<rparr>]\<rparr>"

lemma example_info_length: "length (encode (info_tree example_desc)) = 140"
  by code_simp

lemma example_desc_sane:
  "sane_desc example_desc" "length (encode (info_tree example_desc)) < 2 ^ 29"
  "length (announce_url example_desc) < 2 ^ 29"
proof -
  show "sane_desc example_desc"
    by (simp add: sane_desc_def example_desc_def int64_max_def)
  show "length (encode (info_tree example_desc)) < 2 ^ 29"
    unfolding example_info_length by simp
  show "length (announce_url example_desc) < 2 ^ 29"
    by (simp add: example_desc_def)
qed

theorem load_torrent_roundtrip_witness:
  "sane_desc example_desc \<and> (\<exists>tree. decode (encode (torrent_tree example_desc)) = Ret (OK tree) \<and>
    TorrentFile_of tree = Ret (example_desc\<lparr>info_hash := sha1 (map byte_of_char (encode (info_tree example_desc)))\<rparr>))"
  using load_torrent_roundtrip [OF example_desc_sane] example_desc_sane(1) by simp

theorem TorrentFile_consistent_witness:
  "\<exists>td. decode (encode (torrent_tree example_desc)) = Ret (OK (torrent_tree example_desc)) \<and>
    TorrentFile_of (torrent_tree example_desc) = Ret td \<and> desc_ok td"
proof -
  have "decode (encode (torrent_tree example_desc)) = Ret (OK (torrent_tree example_desc))"
    by (rule decode_torrent_tree [OF example_desc_sane])
  with TorrentFile_consistent [OF this] TorrentFile_of_torrent_tree [OF example_desc_sane(1,2)]
  show ?thesis by simp
qed

end
