(* ===== verification/Peer.thy ===== *)
theory Peer
  imports Torrent_File
begin

text \<open>
  Peers and the announce to the tracker (peer.hpp, peer.cpp). A peer is an address and a port;
  the tracker's answer is a bencoded dictionary with the peers in compact form, read by a loop
  over the characters. The HTTP request is a parameter: a function from the URL and the query
  parameters to a status code and a body.
\<close>

unbundle bit_operations_syntax

section \<open>Definitions\<close>

record Peer =
  ip :: "32 word"
  port :: "16 word"

definition Peer_empty :: Peer where
  "Peer_empty = \<lparr>ip = 0, port = 0\<rparr>"

definition Peer_of :: "32 word \<Rightarrow> 16 word \<Rightarrow> Peer" where
  "Peer_of i p = \<lparr>ip = i, port = p\<rparr>"

definition octet :: "32 word \<Rightarrow> nat \<Rightarrow> string" where
  "octet w k = nat_to_string (unat (drop_bit k w AND 0xFF))"

definition address :: "Peer \<Rightarrow> string" where
  "address p = octet (ip p) 24 @ ''.'' @ octet (ip p) 16 @ ''.'' @ octet (ip p) 8 @ ''.''
     @ octet (ip p) 0 @ '':'' @ nat_to_string (unat (port p))"

text \<open>
  The regular expression of the string constructor: white space, four runs of digits separated
  by dots, white space. \<open>stoi\<close> throws when a run does not fit in an \<open>int\<close>.
\<close>

definition is_space :: "char \<Rightarrow> bool" where
  "is_space c \<longleftrightarrow> c = CHR '' '' \<or> (CHR 0x09 \<le> c \<and> c \<le> CHR 0x0D)"

definition strip :: "string \<Rightarrow> string" where
  "strip s = rev (dropWhile is_space (rev (dropWhile is_space s)))"

fun split_on :: "char \<Rightarrow> string \<Rightarrow> string list" where
  "split_on c [] = [[]]"
| "split_on c (x # xs) =
     (if x = c then [] # split_on c xs
      else case split_on c xs of [] \<Rightarrow> [[x]] | y # ys \<Rightarrow> (x # y) # ys)"

definition match_ip :: "string \<Rightarrow> string list option" where
  "match_ip s =
     (let parts = split_on CHR ''.'' (strip s)
      in if length parts = 4 \<and> list_all match_digits parts then Some parts else None)"

definition stoi :: "string \<Rightarrow> int outcome" where
  "stoi s = (if int (digits_val s) > int32_max then Throw out_of_range else Ret (int (digits_val s)))"

fun or_octets :: "nat \<Rightarrow> string list \<Rightarrow> 32 word \<Rightarrow> 32 word outcome" where
  "or_octets i [] acc = Ret acc"
| "or_octets i (m # ms) acc =
     obind (stoi m) (\<lambda>n. or_octets (Suc i) ms (acc OR push_bit (8 * (4 - i)) (word_of_int n)))"

definition Peer_of_string :: "string \<Rightarrow> 16 word \<Rightarrow> Peer outcome" where
  "Peer_of_string ip_s p =
     (case match_ip ip_s of
        None \<Rightarrow> Throw invalid_argument
      | Some parts \<Rightarrow> obind (or_octets 1 parts 0) (\<lambda>w. Ret \<lparr>ip = w, port = p\<rparr>))"

record Announce =
  interval :: int
  apeers :: "Peer list"

datatype PeerError = ParserError | AnnounceError

type_synonym PeerResult = "(Announce, PeerError) Result"

text \<open>Dereferencing the iterator is defined strictly before the end.\<close>

definition deref_it :: "string \<Rightarrow> nat \<Rightarrow> byte outcome" where
  "deref_it s it = (if it < length s then Ret (byte_of_char (s ! it)) else UB OutOfBounds)"

definition read_peer :: "string \<Rightarrow> nat \<Rightarrow> Peer outcome" where
  "read_peer s it =
     obind (deref_it s it) (\<lambda>a. obind (deref_it s (it + 1)) (\<lambda>b.
     obind (deref_it s (it + 2)) (\<lambda>c. obind (deref_it s (it + 3)) (\<lambda>d.
     obind (deref_it s (it + 4)) (\<lambda>e. obind (deref_it s (it + 5)) (\<lambda>f.
       Ret (Peer_of (push_bit 24 (ucast a) OR push_bit 16 (ucast b) OR push_bit 8 (ucast c) OR ucast d)
              (push_bit 8 (ucast e) OR ucast f))))))))"

function parse_peers :: "string \<Rightarrow> nat \<Rightarrow> Peer list \<Rightarrow> Peer list outcome" where
  "parse_peers s it acc =
     (if it < length s
      then obind (read_peer s it) (\<lambda>p. parse_peers s (it + 6 + 6) (acc @ [p]))
      else Ret acc)"
  by pat_completeness auto
termination by (relation "measure (\<lambda>(s, it, _). length s - it)") auto

definition parse_tracker_response :: "string \<Rightarrow> PeerResult outcome" where
  "parse_tracker_response text =
     obind (decode text) (\<lambda>tree. case tree of
       ERROR e \<Rightarrow> Ret (ERROR ParserError)
     | OK t \<Rightarrow>
         obind (as_dict t) (\<lambda>dict.
         obind (obind (dict_at dict ''interval'') as_int) (\<lambda>n.
         obind (obind (dict_at dict ''peers'') as_string) (\<lambda>s.
         obind (parse_peers s 0 []) (\<lambda>ps.
           Ret (OK \<lparr>interval = n, apeers = ps\<rparr>))))))"

type_synonym http = "string \<Rightarrow> (string \<times> string) list \<Rightarrow> int \<times> string"

definition announce_params :: "TorrentFile \<Rightarrow> (string \<times> string) list" where
  "announce_params torrent_f =
     [(''info_hash'', hash_to_str (info_hash torrent_f)), (''peer_id'', ''FUR-----------------''),
      (''port'', ''6881''), (''uploaded'', ''0''), (''downloaded'', ''0''), (''compact'', ''0''),
      (''left'', int_to_string (tlength torrent_f))]"

definition peer_announce :: "http \<Rightarrow> TorrentFile \<Rightarrow> PeerResult outcome" where
  "peer_announce get torrent_f =
     (let (status_code, text) = get (announce_url torrent_f) (announce_params torrent_f)
      in if status_code = 0 \<or> status_code \<ge> 400 then Ret (ERROR AnnounceError)
         else parse_tracker_response text)"

section \<open>The compact peer list\<close>

fun compact_peers :: "bytes \<Rightarrow> Peer list" where
  "compact_peers (a # b # c # d # e # f # rest) =
     Peer_of (push_bit 24 (ucast a) OR push_bit 16 (ucast b) OR push_bit 8 (ucast c) OR ucast d)
       (push_bit 8 (ucast e) OR ucast f) # compact_peers rest"
| "compact_peers _ = []"

fun every_other :: "'a list \<Rightarrow> 'a list" where
  "every_other [] = []"
| "every_other [x] = [x]"
| "every_other (x # y # zs) = x # every_other zs"

definition compact_peer :: "Peer \<Rightarrow> bytes" where
  "compact_peer p = [ucast (drop_bit 24 (ip p)), ucast (drop_bit 16 (ip p)), ucast (drop_bit 8 (ip p)), ucast (ip p),
     ucast (drop_bit 8 (port p)), ucast (port p)]"

definition tracker_reply :: "int \<Rightarrow> Peer list \<Rightarrow> BencodeValue" where
  "tracker_reply n ps = BencodeDict
     [(''interval'', BencodeInt n), (''peers'', BencodeString (map char_of_byte (concat (map compact_peer ps))))]"

declare parse_peers.simps [simp del]

lemma six_elements: "6 \<le> length t \<Longrightarrow> \<exists>a b c d e f r. t = a # b # c # d # e # f # r"
  by (auto simp: numeral_eq_Suc Suc_le_length_iff)

lemma read_peer_group:
  assumes "it + 6 \<le> length s"
  shows "read_peer s it = Ret (hd (compact_peers (map byte_of_char (drop it s))))"
proof -
  have "6 \<le> length (drop it s)" using assms by simp
  then obtain a b c d e f r where t: "drop it s = a # b # c # d # e # f # r"
    using six_elements by blast
  have "s ! (it + k) = drop it s ! k" for k using assms by simp
  from this [of 0] this [of 1] this [of 2] this [of 3] this [of 4] this [of 5] show ?thesis
    using assms by (simp add: read_peer_def deref_it_def t)
qed

lemma read_peer_short: "it < length s \<Longrightarrow> length s < it + 6 \<Longrightarrow> read_peer s it = UB OutOfBounds"
proof -
  assume "it < length s" "length s < it + 6"
  then consider "length s = it + 1" | "length s = it + 2" | "length s = it + 3" | "length s = it + 4"
    | "length s = it + 5" by linarith
  then show ?thesis by cases (simp_all add: read_peer_def deref_it_def)
qed

lemma compact_peers_short [simp]: "length t < 6 \<Longrightarrow> compact_peers t = []"
  by (cases t rule: compact_peers.cases) auto

lemma compact_peers_drop: "6 \<le> length t \<Longrightarrow> compact_peers t = hd (compact_peers t) # compact_peers (drop 6 t)"
  using six_elements [of t] by auto

lemma every_other_single: "6 \<le> length t \<Longrightarrow> length t < 12 \<Longrightarrow> every_other (compact_peers t) = [hd (compact_peers t)]"
  by (subst compact_peers_drop) simp_all

lemma every_other_pair:
  assumes "12 \<le> length t"
  shows "every_other (compact_peers t) = hd (compact_peers t) # every_other (compact_peers (drop 12 t))"
proof -
  have "compact_peers t = hd (compact_peers t) # hd (compact_peers (drop 6 t)) # compact_peers (drop 12 t)"
    using assms compact_peers_drop [of t] compact_peers_drop [of "drop 6 t"] by simp
  then have "every_other (compact_peers t) =
      every_other (hd (compact_peers t) # hd (compact_peers (drop 6 t)) # compact_peers (drop 12 t))"
    by (rule arg_cong)
  then show ?thesis by (simp only: every_other.simps)
qed

lemma parse_peers_spec:
  "parse_peers s it acc =
     (if (length s - it) mod 12 \<in> {1..5} then UB OutOfBounds
      else Ret (acc @ every_other (compact_peers (map byte_of_char (drop it s)))))"
proof (induction "length s - it" arbitrary: it acc rule: less_induct)
  case less
  let ?t = "map byte_of_char (drop it s)"
  consider "length s \<le> it" | "it < length s" "length s < it + 6" | "it + 6 \<le> length s" "length s < it + 12"
    | "it + 12 \<le> length s" by linarith
  then show ?case
  proof cases
    case 1
    then show ?thesis by (simp add: parse_peers.simps [of s it])
  next
    case 2
    then have "(length s - it) mod 12 = length s - it" "length s - it \<in> {1..5}" by auto
    with 2 show ?thesis by (simp add: parse_peers.simps [of s it] read_peer_short)
  next
    case 3
    then have "(length s - it) mod 12 = length s - it" "length s - it \<notin> {1..5}" by auto
    moreover have "parse_peers s (12 + it) bs = Ret bs" for bs
      using 3 by (simp add: parse_peers.simps)
    moreover have "every_other (compact_peers ?t) = [hd (compact_peers ?t)]"
      using 3 by (intro every_other_single) auto
    ultimately show ?thesis
      using 3 by (simp add: parse_peers.simps [of s it] read_peer_group)
  next
    case 4
    have "every_other (compact_peers ?t) = hd (compact_peers ?t) # every_other (compact_peers (drop 12 ?t))"
      using 4 by (intro every_other_pair) simp
    moreover have "(length s - (it + 12)) mod 12 = (length s - it) mod 12"
      using 4 by (simp add: le_mod_geq)
    moreover have "length s - (it + 12) < length s - it" using 4 by simp
    note less.hyps [OF this, of "acc @ [hd (compact_peers ?t)]"]
    ultimately show ?thesis
      using 4 by (simp add: parse_peers.simps [of s it] read_peer_group drop_map add.commute)
  qed
qed

text \<open>
  What the announce reads out of a compact peer list, for every string: the first of each
  pair of peers, because the loop advances by six characters beyond the six it has consumed;
  the read runs past the end exactly when the length leaves a remainder of 1 to 5 modulo 12.
\<close>

theorem parse_peers_reads_every_other:
  "parse_peers s 0 [] =
     (if length s mod 12 \<in> {1..5} then UB OutOfBounds
      else Ret (every_other (compact_peers (map byte_of_char s))))"
  by (simp add: parse_peers_spec)

lemma word16_from_bytes:
  "push_bit 8 (ucast (ucast (drop_bit 8 w) :: 8 word)) OR ucast (ucast w :: 8 word) = (w :: 16 word)"
  (is "?l = w")
proof (rule bit_word_eqI)
  fix n assume "n < LENGTH(16)"
  then have n: "n < 16" by simp
  show "bit ?l n = bit w n"
  proof (cases "n < 8")
    case False
    define k where "k = n - 8"
    with n False have "n = 8 + k" "k < 8" by auto
    then show ?thesis by (simp add: bit_simps)
  qed (use n in \<open>simp add: bit_simps\<close>)
qed

lemma compact_peers_compact: "compact_peers (concat (map compact_peer ps)) = ps"
  by (induction ps) (simp_all add: compact_peer_def Peer_of_def word32_from_bytes word16_from_bytes or.assoc)

lemma length_compact: "length (concat (map compact_peer ps)) = 6 * length ps"
  by (induction ps) (simp_all add: compact_peer_def)

lemma parse_compact: "parse_peers (map char_of_byte (concat (map compact_peer ps))) 0 [] = Ret (every_other ps)"
proof -
  have "6 * k mod 12 \<notin> {1..5}" for k :: nat
    using mult_mod_right [of 6 k 2] by (cases "k mod 2 = 0") auto
  then show ?thesis
    by (simp add: parse_peers_spec length_compact compact_peers_compact o_def)
qed

text \<open>
  C27. The announce, with the HTTP client as a parameter that answers with success and a
  well-formed reply listing the peers \<open>ps\<close>: the result has the tracker's interval and only every
  other peer of \<open>ps\<close>.
\<close>

theorem announce_keeps_every_other_peer:
  assumes "get (announce_url tf) (announce_params tf) = (code, encode (tracker_reply n ps))"
    and "code \<noteq> 0" "code < 400" "in_int64 n" "int (length (encode (tracker_reply n ps))) \<le> int64_max"
  shows "peer_announce get tf = Ret (OK \<lparr>interval = n, apeers = every_other ps\<rparr>)"
proof -
  have "sorted_wrt (<) [''interval'', ''peers'']" by code_simp
  then have "wf_value (tracker_reply n ps)"
    using assms(4) by (simp add: tracker_reply_def)
  moreover have "tracker_reply n ps \<noteq> BencodeString ''''"
    by (simp add: tracker_reply_def)
  ultimately have "decode (encode (tracker_reply n ps)) = Ret (OK (tracker_reply n ps))"
    using assms(5) by (simp add: decode_encode)
  then show ?thesis
    using assms(1-3) parse_compact [of ps]
    by (simp add: peer_announce_def parse_tracker_response_def tracker_reply_def)
qed

theorem announce_keeps_every_other_peer_witness:
  "let get = (\<lambda>url params. (200, encode (tracker_reply 1800 [Peer_of 1 2, Peer_of 3 4, Peer_of 5 6])))
   in peer_announce get example_desc = Ret (OK \<lparr>interval = 1800, apeers = [Peer_of 1 2, Peer_of 5 6]\<rparr>)"
proof -
  let ?ps = "[Peer_of 1 2, Peer_of 3 4, Peer_of 5 6]"
  have "in_int64 1800" "int (length (encode (tracker_reply 1800 ?ps))) \<le> int64_max" by code_simp+
  then show ?thesis
    using announce_keeps_every_other_peer [of "\<lambda>url params. (200, encode (tracker_reply 1800 ?ps))" example_desc 200 1800 ?ps]
    by simp
qed

section \<open>Addresses\<close>

lemma split_on_append:
  "c \<notin> set ds \<Longrightarrow> split_on c (ds @ c # r) = ds # split_on c r"
  by (induction ds) auto

lemma split_on_free: "c \<notin> set ds \<Longrightarrow> split_on c ds = [ds]"
  by (induction ds) auto

lemma digit_not_special: "is_digit c \<Longrightarrow> \<not> is_space c \<and> c \<noteq> CHR ''.'' \<and> c \<noteq> CHR '':''"
  by (auto simp: is_space_def is_digit_range less_eq_char_def)

lemma dropWhile_id: "(\<forall>x \<in> set s. \<not> P x) \<Longrightarrow> dropWhile P s = s"
  by (cases s) auto

lemma strip_id: "\<forall>x \<in> set s. \<not> is_space x \<Longrightarrow> strip s = s"
  by (simp add: strip_def dropWhile_id)

lemma octet_digits: "list_all is_digit (octet w k)" "octet w k \<noteq> []"
  by (simp_all add: octet_def)

lemma octet_chars: "c \<in> set (octet w k) \<Longrightarrow> \<not> is_space c \<and> c \<noteq> CHR ''.'' \<and> c \<noteq> CHR '':''"
  using octet_digits(1) [of w k] digit_not_special by (auto simp: list_all_iff)

lemma stoi_octet: "stoi (octet w k) = Ret (uint (drop_bit k w AND 0xFF))"
proof -
  have "uint (x AND 0xFF) \<le> 255" for x :: "32 word"
    using uint_and [of x "0xFF"] AND_upper2 [of "255" "uint x"] by simp
  from this [of "drop_bit k w"] show ?thesis
    by (simp add: stoi_def octet_def int32_max_def)
qed

lemma word32_from_octets:
  "push_bit 24 (drop_bit 24 w AND 0xFF) OR push_bit 16 (drop_bit 16 w AND 0xFF)
   OR push_bit 8 (drop_bit 8 w AND 0xFF) OR (w AND 0xFF) = (w :: 32 word)" (is "?l = w")
proof (rule bit_word_eqI)
  have m: "x AND 0xFF = x AND mask 8" for x :: "32 word"
    by (simp add: mask_eq_exp_minus_1)
  fix n assume "n < LENGTH(32)"
  then have "n < 32" by simp
  then show "bit ?l n = bit w n"
    unfolding m by (rule byte_position) (simp_all add: bit_simps)
qed

lemma match_ip_octets:
  "match_ip (octet w 24 @ ''.'' @ octet w 16 @ ''.'' @ octet w 8 @ ''.'' @ octet w 0) =
     Some [octet w 24, octet w 16, octet w 8, octet w 0]"
proof -
  have "strip (octet w 24 @ ''.'' @ octet w 16 @ ''.'' @ octet w 8 @ ''.'' @ octet w 0) =
      octet w 24 @ CHR ''.'' # octet w 16 @ CHR ''.'' # octet w 8 @ CHR ''.'' # octet w 0"
    by (subst strip_id) (auto dest: octet_chars simp: is_space_def)
  moreover have "CHR ''.'' \<notin> set (octet w k)" for k
    using octet_chars by blast
  ultimately show ?thesis
    using octet_digits by (simp add: match_ip_def split_on_append split_on_free match_digits_def)
qed


lemma octets_not_bounded: "Peer_of_string ''0.0.1.256'' 80 = Peer_of_string ''0.0.1.0'' 80"
  by code_simp

end
