(* ===== verification/Torrent.thy ===== *)
theory Torrent
  imports Peer
begin

text \<open>
  The torrent object (class \<open>Torrent\<close> in torrent.hpp and torrent.cpp): its state, the announce
  that fills the list of peers and their scores, and \<open>pieces\<close>, which maps every piece of the
  torrent to the sections of files it covers. The main result is that the pieces partition the
  bytes of the files in order.
\<close>

section \<open>State\<close>

type_synonym TorrentID = int

datatype TorrentState = Loading | Downloading | Paused | Completed | Stopped | Error

record Subpiece =
  sp_filepath :: string
  file_offset :: int
  sp_len :: int

record Piece =
  pindex :: int
  subpieces :: "Subpiece list"

record Torrent =
  tid :: TorrentID
  descriptor :: TorrentFile
  peers :: "Peer list"
  peers_score :: "int list"
  update_interval :: int
  tstate :: TorrentState
  pieces_processed :: int

definition Torrent_empty :: Torrent where
  "Torrent_empty = \<lparr>tid = 0, descriptor = empty_TorrentFile, peers = [], peers_score = [],
     update_interval = 0, tstate = Error, pieces_processed = 0\<rparr>"

text \<open>The tracker is reached through the HTTP parameter of Peer.thy.\<close>

definition torrent_announce :: "http \<Rightarrow> Torrent \<Rightarrow> Torrent outcome" where
  "torrent_announce get t =
     obind (peer_announce get (descriptor t)) (\<lambda>response. case response of
       ERROR e \<Rightarrow> Ret t
     | OK a \<Rightarrow>
         if int (length (apeers a)) > int64_max then Throw out_of_range
         else Ret (t\<lparr>update_interval := interval a, peers := apeers a,
                peers_score := replicate (length (apeers a)) 1\<rparr>))"

definition Torrent_of :: "http \<Rightarrow> TorrentID \<Rightarrow> TorrentFile \<Rightarrow> Torrent outcome" where
  "Torrent_of get i td = torrent_announce get
     \<lparr>tid = i, descriptor = td, peers = [], peers_score = [], update_interval = 0,
      tstate = Loading, pieces_processed = 0\<rparr>"

text \<open>Atomic addition wraps around.\<close>

definition wrap64 :: "int \<Rightarrow> int" where
  "wrap64 x = signed_take_bit 63 x"

definition atomic_add_peer_score :: "int \<Rightarrow> Torrent \<Rightarrow> Torrent outcome" where
  "atomic_add_peer_score peer_index t =
     (if peer_index < int (length (peers_score t))
      then obind (vec_at (peers_score t) peer_index) (\<lambda>s.
             Ret (t\<lparr>peers_score := (peers_score t)[nat peer_index := wrap64 (s + 1)]\<rparr>))
      else Ret t)"

text \<open>The weights of the discrete distribution over the peers.\<close>

definition distribution :: "Torrent \<Rightarrow> int list" where
  "distribution t = peers_score t"

section \<open>Pieces\<close>

text \<open>
  The cursor of \<open>pieces\<close>: the current file, its size, and how much of it is left. After the last
  file has been used up the code reads the length of the element one past the end of the
  vector. The parameter \<open>past\<close> is what that read gives: nothing defined (\<^const>\<open>None\<close>), or some
  value. Every other access outside the vector is undefined.
\<close>

type_synonym cursor = "nat \<times> int \<times> int"

definition file_length_at :: "int option \<Rightarrow> File list \<Rightarrow> nat \<Rightarrow> int outcome" where
  "file_length_at past fs i =
     (if i = length fs then (case past of None \<Rightarrow> UB OutOfBounds | Some l \<Rightarrow> Ret l)
      else obind (vec_at fs (int i)) (\<lambda>f. Ret (flength f)))"

function fill_piece ::
  "int option \<Rightarrow> File list \<Rightarrow> int \<Rightarrow> Subpiece list \<Rightarrow> nat \<Rightarrow> int \<Rightarrow> int \<Rightarrow> (Subpiece list \<times> cursor) outcome" where
  "fill_piece past fs piece_rem_len sps cur_file tot_size rem_size =
     (if piece_rem_len > 0
      then if rem_size \<le> piece_rem_len
           then obind (sub64 tot_size rem_size) (\<lambda>offset.
                obind (vec_at fs (int cur_file)) (\<lambda>f.
                obind (filename f) (\<lambda>piece_filename.
                obind (sub64 piece_rem_len rem_size) (\<lambda>piece_rem_len'.
                obind (file_length_at past fs (cur_file + 1)) (\<lambda>l.
                  fill_piece past fs piece_rem_len'
                    (sps @ [\<lparr>sp_filepath = piece_filename, file_offset = offset, sp_len = rem_size\<rparr>])
                    (cur_file + 1) l l)))))
           else obind (sub64 tot_size rem_size) (\<lambda>offset.
                obind (vec_at fs (int cur_file)) (\<lambda>f.
                obind (filename f) (\<lambda>piece_filename.
                obind (sub64 rem_size piece_rem_len) (\<lambda>rem_size'.
                  Ret (sps @ [\<lparr>sp_filepath = piece_filename, file_offset = offset, sp_len = piece_rem_len\<rparr>],
                    (cur_file, tot_size, rem_size'))))))
      else Ret (sps, (cur_file, tot_size, rem_size)))"
  by pat_completeness auto
termination by (relation "measure (\<lambda>(_, fs, _, _, cur_file, _, _). length fs - cur_file)") auto

definition piece_length_at :: "TorrentFile \<Rightarrow> int \<Rightarrow> int outcome" where
  "piece_length_at td index =
     (if index = pieces_count td - 1
      then obind (mul64 (pieces_count td - 1) (piece_length td)) (\<lambda>before_this_piece.
             sub64 (tlength td) before_this_piece)
      else Ret (piece_length td))"

definition next_piece :: "int option \<Rightarrow> TorrentFile \<Rightarrow> int \<Rightarrow> cursor \<Rightarrow> (Piece \<times> cursor) outcome" where
  "next_piece past td index cur =
     (let (cur_file, tot_size, rem_size) = cur in
      obind (piece_length_at td index) (\<lambda>plen.
        obind (if rem_size < plen
               then fill_piece past (files td) plen [] cur_file tot_size rem_size
               else obind (sub64 tot_size rem_size) (\<lambda>offset.
                    obind (vec_at (files td) (int cur_file)) (\<lambda>f.
                    obind (filename f) (\<lambda>piece_filename.
                    obind (sub64 rem_size plen) (\<lambda>rem_size'.
                      Ret ([\<lparr>sp_filepath = piece_filename, file_offset = offset, sp_len = plen\<rparr>],
                        (cur_file, tot_size, rem_size')))))))
          (\<lambda>(sps, cur'). Ret (\<lparr>pindex = index, subpieces = sps\<rparr>, cur'))))"

fun pieces_loop :: "int option \<Rightarrow> TorrentFile \<Rightarrow> int list \<Rightarrow> cursor \<Rightarrow> Piece list \<Rightarrow> Piece list outcome" where
  "pieces_loop past td [] cur acc = Ret acc"
| "pieces_loop past td (index # is) cur acc =
     obind (next_piece past td index cur) (\<lambda>(p, cur'). pieces_loop past td is cur' (acc @ [p]))"

definition pieces :: "int option \<Rightarrow> Torrent \<Rightarrow> Piece list outcome" where
  "pieces past t =
     (let td = descriptor t in
      if pieces_count td < 0 then Throw length_error
      else obind (vec_at (files td) 0) (\<lambda>f.
             pieces_loop past td [0..pieces_count td - 1] (0, flength f, flength f) []))"

section \<open>The pieces partition the files\<close>

text \<open>A byte of the torrent: the name of its file and its offset there.\<close>

definition file_bytes :: "File \<Rightarrow> (string \<times> int) list" where
  "file_bytes f = map (Pair (filename_sections (filepath f))) [0..flength f - 1]"

definition torrent_bytes :: "TorrentFile \<Rightarrow> (string \<times> int) list" where
  "torrent_bytes td = concat (map file_bytes (files td))"

definition sub_bytes :: "Subpiece \<Rightarrow> (string \<times> int) list" where
  "sub_bytes sp = map (Pair (sp_filepath sp)) [file_offset sp..file_offset sp + sp_len sp - 1]"

definition piece_bytes :: "Piece \<Rightarrow> (string \<times> int) list" where
  "piece_bytes p = concat (map sub_bytes (subpieces p))"

text \<open>Layouts with at least one file, no negative length, and a total that fits.\<close>

definition layout_ok :: "File list \<Rightarrow> bool" where
  "layout_ok fs \<longleftrightarrow> fs \<noteq> [] \<and> list_all (\<lambda>f. 0 \<le> flength f \<and> int (length (filepath f)) \<le> int64_max) fs
     \<and> total_length fs \<le> int64_max"

definition partition_ok :: "TorrentFile \<Rightarrow> bool" where
  "partition_ok td \<longleftrightarrow> layout_ok (files td) \<and> 0 < piece_length td \<and> tlength td = total_length (files td)
     \<and> pieces_count td = (tlength td + piece_length td - 1) div piece_length td"

definition cursor_ok :: "File list \<Rightarrow> nat \<Rightarrow> int \<Rightarrow> int \<Rightarrow> bool" where
  "cursor_ok fs cf tot rm \<longleftrightarrow> cf < length fs \<longrightarrow> tot = flength (fs ! cf) \<and> 0 \<le> rm \<and> rm \<le> tot"

definition rest_bytes :: "File list \<Rightarrow> nat \<Rightarrow> int \<Rightarrow> int \<Rightarrow> (string \<times> int) list" where
  "rest_bytes fs cf tot rm =
     (if cf < length fs
      then map (Pair (filename_sections (filepath (fs ! cf)))) [tot - rm..tot - 1]
             @ concat (map file_bytes (drop (Suc cf) fs))
      else [])"

declare fill_piece.simps [simp del]

lemma upto_take_drop:
  assumes "0 \<le> k" "k \<le> b - a + 1"
  shows "take (nat k) [a..b] = [a..a + k - 1]" "drop (nat k) [a..b] = [a + k..b]"
proof -
  have "[a..b] = [a..a + k - 1] @ [a + k..b]"
  proof (cases "k \<le> b - a")
    case True
    then show ?thesis using upto_split1 [of a "a + k" b] assms by simp
  next
    case False
    with assms have "k = b - a + 1" by simp
    then show ?thesis by simp
  qed
  moreover have "length [a..a + k - 1] = nat k" by simp
  ultimately show "take (nat k) [a..b] = [a..a + k - 1]" "drop (nat k) [a..b] = [a + k..b]"
    by (metis append_eq_conv_conj)+
qed

lemma length_file_bytes [simp]: "length (file_bytes f) = nat (flength f)"
  by (simp add: file_bytes_def)

lemma layout_nth:
  assumes "layout_ok fs" "i < length fs"
  shows "0 \<le> flength (fs ! i)" "flength (fs ! i) \<le> int64_max" "filename (fs ! i) = Ret (filename_sections (filepath (fs ! i)))"
proof -
  have "fs ! i \<in> set fs" using assms(2) by simp
  then show "0 \<le> flength (fs ! i)" "filename (fs ! i) = Ret (filename_sections (filepath (fs ! i)))"
    using assms(1) by (auto simp: layout_ok_def list_all_iff filename_def)
  have "list_all (\<lambda>f. 0 \<le> flength f) fs" using assms(1) by (auto simp: layout_ok_def list_all_iff)
  from flength_le_total [OF this \<open>fs ! i \<in> set fs\<close>] show "flength (fs ! i) \<le> int64_max"
    using assms(1) by (simp add: layout_ok_def)
qed

lemma rest_next:
  assumes "cf < length fs" "Suc cf < length fs \<Longrightarrow> l = flength (fs ! Suc cf)"
  shows "rest_bytes fs (Suc cf) l l = concat (map file_bytes (drop (Suc cf) fs))"
  using assms by (auto simp: rest_bytes_def file_bytes_def Cons_nth_drop_Suc [symmetric])

lemma in_int64_between: "0 \<le> x \<Longrightarrow> x \<le> int64_max \<Longrightarrow> in_int64 x"
  by (simp add: in_int64_def int64_min_def)

lemma file_length_next:
  assumes "layout_ok fs" "cf < length fs"
  shows "\<exists>l. file_length_at (Some j) fs (cf + 1) = Ret l \<and> cursor_ok fs (Suc cf) l l
    \<and> (Suc cf < length fs \<longrightarrow> l = flength (fs ! Suc cf))"
  using assms layout_nth(1) [OF assms(1), of "Suc cf"]
  by (auto simp: file_length_at_def cursor_ok_def vec_at_def nat_add_distrib)

text \<open>
  Cutting \<open>n\<close> bytes off the front: what a step of the loop yields, in terms of the bytes that
  were left before it.
\<close>

definition cuts :: "File list \<Rightarrow> (string \<times> int) list \<Rightarrow> int \<Rightarrow> Subpiece list \<Rightarrow> cursor \<Rightarrow> bool" where
  "cuts fs bs n sps c \<longleftrightarrow> (case c of (cf, tot, rm) \<Rightarrow>
     cursor_ok fs cf tot rm \<and> concat (map sub_bytes sps) = take (nat n) bs \<and>
     rest_bytes fs cf tot rm = drop (nat n) bs)"

lemma cut_within_file:
  assumes "layout_ok fs" "cursor_ok fs cf tot rm" "cf < length fs" "0 \<le> n" "n \<le> rm"
  shows "cuts fs (rest_bytes fs cf tot rm) n
    [\<lparr>sp_filepath = filename_sections (filepath (fs ! cf)), file_offset = tot - rm, sp_len = n\<rparr>] (cf, tot, rm - n)"
proof -
  have l: "length [tot - rm..tot - 1] = nat rm" by simp
  have "take (nat n) [tot - rm..tot - 1] = [tot - rm..tot - rm + n - 1]"
    "drop (nat n) [tot - rm..tot - 1] = [tot - rm + n..tot - 1]"
    using assms(4,5) by (intro upto_take_drop; simp)+
  then show ?thesis
    using assms by (simp add: cuts_def rest_bytes_def cursor_ok_def sub_bytes_def take_map drop_map algebra_simps)
qed

lemma cut_file_end:
  assumes "layout_ok fs" "cursor_ok fs cf tot rm" "cf < length fs" "rm \<le> n"
    and l: "cursor_ok fs (Suc cf) l l" "Suc cf < length fs \<longrightarrow> l = flength (fs ! Suc cf)"
    and rec: "cuts fs (rest_bytes fs (Suc cf) l l) (n - rm) sps c"
  shows "cuts fs (rest_bytes fs cf tot rm) n
    (\<lparr>sp_filepath = filename_sections (filepath (fs ! cf)), file_offset = tot - rm, sp_len = rm\<rparr> # sps) c"
proof -
  have rm: "0 \<le> rm" using assms(2,3) by (simp add: cursor_ok_def)
  have "rest_bytes fs cf tot rm = map (Pair (filename_sections (filepath (fs ! cf)))) [tot - rm..tot - 1]
      @ rest_bytes fs (Suc cf) l l"
    using assms(3) rest_next [of cf fs l] l(2) by (simp add: rest_bytes_def [of fs cf])
  moreover have "nat n - nat rm = nat (n - rm)" using rm assms(4) by simp
  ultimately show ?thesis
    using rec rm assms(4) by (auto simp: cuts_def sub_bytes_def algebra_simps)
qed

lemma fill_piece_spec:
  assumes "layout_ok fs" "cursor_ok fs cf tot rm" "0 \<le> n" "n \<le> int64_max"
    "n \<le> int (length (rest_bytes fs cf tot rm))"
  shows "\<exists>sps' c. fill_piece (Some j) fs n sps cf tot rm = Ret (sps @ sps', c) \<and>
    cuts fs (rest_bytes fs cf tot rm) n sps' c"
  using assms(2-)
proof (induction "length fs - cf" arbitrary: n sps cf tot rm rule: less_induct)
  case less
  show ?case
  proof (cases "n = 0")
    case True
    then show ?thesis using less.prems(1) by (auto simp: fill_piece.simps cuts_def)
  next
    case False
    then have cf: "cf < length fs" using less.prems by (auto simp: rest_bytes_def split: if_splits)
    then have c: "tot = flength (fs ! cf)" "0 \<le> rm" "rm \<le> tot" using less.prems(1) by (auto simp: cursor_ok_def)
    note f = layout_nth [OF assms(1) cf]
    have ok: "sub64 tot rm = Ret (tot - rm)" "vec_at fs (int cf) = Ret (fs ! cf)"
      using c f cf by (auto intro: in_int64_between)
    show ?thesis
    proof (cases "rm \<le> n")
      case False
      then have "sub64 rm n = Ret (rm - n)" using c f less.prems by (auto intro: in_int64_between)
      with False \<open>n \<noteq> 0\<close> less.prems ok f(3) cut_within_file [OF assms(1) less.prems(1) cf, of n]
      show ?thesis by (simp add: fill_piece.simps [of _ _ n])
    next
      case True
      obtain l where l: "file_length_at (Some j) fs (cf + 1) = Ret l" "cursor_ok fs (Suc cf) l l"
          "Suc cf < length fs \<longrightarrow> l = flength (fs ! Suc cf)"
        using file_length_next [OF assms(1) cf] by blast
      let ?s = "sps @ [\<lparr>sp_filepath = filename_sections (filepath (fs ! cf)), file_offset = tot - rm, sp_len = rm\<rparr>]"
      have n': "sub64 n rm = Ret (n - rm)" using c True less.prems by (auto intro: in_int64_between)
      have "n - rm \<le> int (length (rest_bytes fs (Suc cf) l l))"
        using less.prems(4) cf c rest_next [of cf fs l] l(3) by (simp add: rest_bytes_def [of fs cf])
      moreover have "length fs - Suc cf < length fs - cf" using cf by simp
      ultimately obtain sps' cur where r: "fill_piece (Some j) fs (n - rm) ?s (Suc cf) l l = Ret (?s @ sps', cur)"
          "cuts fs (rest_bytes fs (Suc cf) l l) (n - rm) sps' cur"
        using less.hyps [of "Suc cf" l l "n - rm" ?s] l(2) True c less.prems by auto
      from r(1) have "fill_piece (Some j) fs n sps cf tot rm = Ret (?s @ sps', cur)"
        using True \<open>n \<noteq> 0\<close> less.prems ok f(3) n' l(1) by (simp add: fill_piece.simps [of _ _ n])
      with cut_file_end [OF assms(1) less.prems(1) cf True l(2,3) r(2)] show ?thesis by auto
    qed
  qed
qed

lemma next_piece_spec:
  assumes "layout_ok (files td)" "cursor_ok (files td) cf tot rm" "piece_length_at td i = Ret n"
    "0 < n" "n \<le> int64_max" "n \<le> int (length (rest_bytes (files td) cf tot rm))"
  shows "\<exists>sps c. next_piece (Some j) td i (cf, tot, rm) = Ret (\<lparr>pindex = i, subpieces = sps\<rparr>, c) \<and>
    cuts (files td) (rest_bytes (files td) cf tot rm) n sps c"
proof (cases "rm < n")
  case True
  with fill_piece_spec [OF assms(1,2) _ assms(5,6), of j "[]"] assms(3,4) show ?thesis
    by (auto simp: next_piece_def)
next
  case False
  have cf: "cf < length (files td)" using assms(4,6) by (auto simp: rest_bytes_def split: if_splits)
  note f = layout_nth [OF assms(1) cf]
  have "sub64 tot rm = Ret (tot - rm)" "vec_at (files td) (int cf) = Ret (files td ! cf)" "sub64 rm n = Ret (rm - n)"
    using assms(2,4) False cf f by (auto simp: cursor_ok_def intro: in_int64_between)
  with cut_within_file [OF assms(1,2) cf, of n] assms(3,4) False f(3) show ?thesis
    by (simp add: next_piece_def)
qed

lemma piece_count_bounds:
  fixes l p i :: int
  assumes "0 < p" "i < (l + p - 1) div p"
  shows "i * p < l"
proof -
  have "(i + 1) * p \<le> (l + p - 1) div p * p"
    using assms by (intro mult_right_mono) auto
  also have "\<dots> \<le> l + p - 1"
    using pos_mod_sign [OF assms(1), of "l + p - 1"] div_mult_mod_eq [of "l + p - 1" p] by linarith
  finally show ?thesis by (simp add: algebra_simps)
qed

lemma piece_count_covers: "0 < p \<Longrightarrow> l \<le> (l + p - 1) div p * p" for l p :: int
  using div_mult_mod_eq [of "l + p - 1" p] pos_mod_bound [of p "l + p - 1"] by linarith

lemma length_torrent_bytes:
  "layout_ok (files td) \<Longrightarrow> int (length (torrent_bytes td)) = total_length (files td)"
proof -
  have "list_all (\<lambda>f. 0 \<le> flength f) fs \<Longrightarrow> int (length (concat (map file_bytes fs))) = total_length fs" for fs
    by (induction fs) auto
  then show "layout_ok (files td) \<Longrightarrow> int (length (torrent_bytes td)) = total_length (files td)"
    by (simp add: torrent_bytes_def layout_ok_def list_all_iff)
qed

lemma piece_length_at_spec:
  assumes "partition_ok td" "0 \<le> i" "i < pieces_count td"
  shows "piece_length_at td i = Ret (min (piece_length td) (tlength td - i * piece_length td))"
    "i * piece_length td < tlength td" "tlength td \<le> int64_max"
proof -
  let ?p = "piece_length td" and ?l = "tlength td"
  have p: "0 < ?p" and l: "?l \<le> int64_max" and c: "pieces_count td = (?l + ?p - 1) div ?p"
    using assms(1) by (auto simp: partition_ok_def layout_ok_def)
  show b: "i * ?p < ?l" using piece_count_bounds [OF p] assms(3) c by simp
  show "?l \<le> int64_max" by (rule l)
  have last: "(pieces_count td - 1) * ?p < ?l" "?l \<le> pieces_count td * ?p"
    using piece_count_bounds [OF p, of "pieces_count td - 1" ?l] piece_count_covers [OF p, of ?l] c by auto
  show "piece_length_at td i = Ret (min ?p (?l - i * ?p))"
  proof (cases "i = pieces_count td - 1")
    case True
    then have c1: "pieces_count td = i + 1" by simp
    have "pieces_count td * ?p = i * ?p + ?p" unfolding c1 by (simp add: algebra_simps)
    then have "?l - i * ?p \<le> ?p" using last(2) by linarith
    moreover have "0 \<le> i * ?p" using assms(2) p by simp
    ultimately show ?thesis
      using True b l by (auto simp: piece_length_at_def in_int64_between)
  next
    case False
    then have "(i + 1) * ?p \<le> (pieces_count td - 1) * ?p" using assms(3) p by (intro mult_right_mono) auto
    then have "?p \<le> ?l - i * ?p" using last(1) by (simp add: algebra_simps)
    with False show ?thesis by (simp add: piece_length_at_def)
  qed
qed

abbreviation nth_chunk :: "int \<Rightarrow> 'a list \<Rightarrow> int \<Rightarrow> 'a list" where
  "nth_chunk p xs i \<equiv> take (nat p) (drop (nat (i * p)) xs)"

lemma pieces_loop_spec:
  assumes td: "partition_ok td"
  shows "0 \<le> i \<Longrightarrow> cursor_ok (files td) cf tot rm \<Longrightarrow>
    rest_bytes (files td) cf tot rm = drop (nat (i * piece_length td)) (torrent_bytes td) \<Longrightarrow>
    \<exists>ps. pieces_loop (Some j) td [i..pieces_count td - 1] (cf, tot, rm) acc = Ret (acc @ ps) \<and>
      map pindex ps = [i..pieces_count td - 1] \<and>
      map piece_bytes ps = map (nth_chunk (piece_length td) (torrent_bytes td)) [i..pieces_count td - 1]"
proof (induction "nat (pieces_count td - i)" arbitrary: i cf tot rm acc)
  case 0
  then show ?case by simp
next
  case (Suc k)
  let ?p = "piece_length td" and ?l = "tlength td" and ?bs = "torrent_bytes td"
  let ?n = "min ?p (?l - i * ?p)"
  have lay: "layout_ok (files td)" and p: "0 < ?p" and l: "?l = int (length ?bs)"
    using td length_torrent_bytes [of td] by (auto simp: partition_ok_def)
  have i: "i < pieces_count td" using Suc.hyps(2) by simp
  note pl = piece_length_at_spec [OF td Suc.prems(1) i]
  have ip: "0 \<le> i * ?p" using Suc.prems(1) p by simp
  have rest: "int (length (rest_bytes (files td) cf tot rm)) = ?l - i * ?p"
    using Suc.prems(3) pl(2) ip l by simp
  obtain sps cf' tot' rm' where np: "next_piece (Some j) td i (cf, tot, rm) = Ret (\<lparr>pindex = i, subpieces = sps\<rparr>, (cf', tot', rm'))"
      "cuts (files td) (rest_bytes (files td) cf tot rm) ?n sps (cf', tot', rm')"
  proof -
    have "0 < ?n" "?n \<le> int64_max" "?n \<le> int (length (rest_bytes (files td) cf tot rm))"
      using p pl(2,3) rest ip by auto
    from next_piece_spec [OF lay Suc.prems(2) pl(1) this, of j] that show ?thesis by auto
  qed
  have chunk: "take (nat ?n) (drop (nat (i * ?p)) ?bs) = nth_chunk ?p ?bs i"
    using l ip by (simp add: min_def nat_diff_distrib)
  have "nat ((i + 1) * ?p) = nat (i * ?p) + nat ?p"
    using ip p by (simp add: algebra_simps nat_add_distrib)
  then have "drop (nat ?n) (drop (nat (i * ?p)) ?bs) = drop (nat ((i + 1) * ?p)) ?bs"
    using l ip by (simp add: min_def nat_diff_distrib algebra_simps)
  moreover have k: "k = nat (pieces_count td - (i + 1))" using Suc.hyps(2) by simp
  ultimately obtain ps where ps: "pieces_loop (Some j) td [i + 1..pieces_count td - 1] (cf', tot', rm') (acc @ [\<lparr>pindex = i, subpieces = sps\<rparr>])
        = Ret ((acc @ [\<lparr>pindex = i, subpieces = sps\<rparr>]) @ ps)"
      "map pindex ps = [i + 1..pieces_count td - 1]"
      "map piece_bytes ps = map (nth_chunk ?p ?bs) [i + 1..pieces_count td - 1]"
    using Suc.hyps(1) [OF k, of cf' tot' rm' "acc @ [\<lparr>pindex = i, subpieces = sps\<rparr>]"] Suc.prems np(2)
    by (auto simp: cuts_def)
  have "piece_bytes \<lparr>pindex = i, subpieces = sps\<rparr> = nth_chunk ?p ?bs i"
    using np(2) chunk Suc.prems(3) by (simp add: cuts_def piece_bytes_def)
  with ps np(1) show ?case
    using i by (intro exI [of _ "\<lparr>pindex = i, subpieces = sps\<rparr> # ps"]) (simp add: upto_rec1)
qed

lemma concat_chunks: "concat (map (nth_chunk (int p) xs) [0..int k - 1]) = take (k * p) xs"
proof (induction k)
  case (Suc k)
  have "[0..int (Suc k) - 1] = [0..int k - 1] @ [int k]"
    using upto_rec2 [of 0 "int k"] by simp
  moreover have "take (Suc k * p) xs = take (k * p) xs @ take p (drop (k * p) xs)"
    using take_add [of "k * p" p xs] by (simp add: add.commute)
  ultimately show ?case using Suc by (simp add: nat_mult_distrib del: mult_Suc)
qed simp

lemma pieces_Some_spec:
  assumes "partition_ok (descriptor t)"
  shows "\<exists>ps. pieces (Some junk) t = Ret ps \<and>
    map pindex ps = [0..pieces_count (descriptor t) - 1] \<and>
    map piece_bytes ps =
      map (nth_chunk (piece_length (descriptor t)) (torrent_bytes (descriptor t))) [0..pieces_count (descriptor t) - 1] \<and>
    concat (map piece_bytes ps) = torrent_bytes (descriptor t)"
proof -
  let ?td = "descriptor t"
  have lay: "layout_ok (files ?td)" and p: "0 < piece_length ?td" and l: "tlength ?td = int (length (torrent_bytes ?td))"
    and c: "pieces_count ?td = (tlength ?td + piece_length ?td - 1) div piece_length ?td"
    using assms length_torrent_bytes [of ?td] by (auto simp: partition_ok_def)
  then obtain f fs where fs: "files ?td = f # fs" by (cases "files ?td") (auto simp: layout_ok_def)
  have "rest_bytes (files ?td) 0 (flength f) (flength f) = torrent_bytes ?td"
    by (simp add: rest_bytes_def torrent_bytes_def file_bytes_def fs)
  moreover have "cursor_ok (files ?td) 0 (flength f) (flength f)"
    using lay by (simp add: cursor_ok_def fs layout_ok_def)
  ultimately obtain ps where ps: "pieces_loop (Some junk) ?td [0..pieces_count ?td - 1] (0, flength f, flength f) [] = Ret ps"
      "map pindex ps = [0..pieces_count ?td - 1]"
      "map piece_bytes ps = map (nth_chunk (piece_length ?td) (torrent_bytes ?td)) [0..pieces_count ?td - 1]"
    using pieces_loop_spec [OF assms, of 0 0 "flength f" "flength f" junk "[]"] by auto
  have cnt: "0 \<le> pieces_count ?td" using c l p by (simp add: pos_imp_zdiv_nonneg_iff)
  moreover have "nat (pieces_count ?td) * nat (piece_length ?td) \<ge> length (torrent_bytes ?td)"
  proof -
    have "int (length (torrent_bytes ?td)) \<le> int (nat (pieces_count ?td) * nat (piece_length ?td))"
      using piece_count_covers [OF p, of "tlength ?td"] c l cnt p by simp
    then show ?thesis by (simp only: of_nat_le_iff)
  qed
  moreover have "pieces (Some junk) t = Ret ps"
    using ps(1) cnt by (simp add: pieces_def fs vec_at_def)
  ultimately show ?thesis
    using ps concat_chunks [of "nat (piece_length ?td)" "torrent_bytes ?td" "nat (pieces_count ?td)"] p by auto
qed


definition example_torrent :: Torrent where
  "example_torrent = Torrent_empty\<lparr>descriptor := example_desc\<rparr>"

lemma example_partition_ok: "partition_ok (descriptor example_torrent)"
  by code_simp


section \<open>The read past the last file\<close>

lemma single_file_loop:
  assumes td: "partition_ok td" and f: "files td = [f]"
  shows "0 \<le> i \<Longrightarrow>
    pieces_loop None td [i..pieces_count td - 1] (0, flength f, flength f - i * piece_length td) acc =
    pieces_loop (Some j) td [i..pieces_count td - 1] (0, flength f, flength f - i * piece_length td) acc"
proof (induction "nat (pieces_count td - i)" arbitrary: i acc)
  case (Suc k)
  have i: "i < pieces_count td" using Suc.hyps(2) by simp
  let ?rm = "flength f - i * piece_length td"
  let ?n = "min (piece_length td) ?rm"
  have l: "tlength td = flength f" using td f by (simp add: partition_ok_def)
  note pl = piece_length_at_spec [OF td Suc.prems i, unfolded l]
  have p: "0 < piece_length td" using td by (simp add: partition_ok_def)
  have same: "next_piece None td i (0, flength f, ?rm) = next_piece (Some j) td i (0, flength f, ?rm)"
    using pl(1) by (auto simp: next_piece_def)
  have cur: "snd r = (0, flength f, flength f - (i + 1) * piece_length td)"
    if "next_piece (Some j) td i (0, flength f, ?rm) = Ret r" "i + 1 < pieces_count td" for r
  proof -
    have "(i + 1) * piece_length td < flength f"
      using piece_length_at_spec(2) [OF td _ that(2)] Suc.prems l by simp
    then have le: "piece_length td + i * piece_length td \<le> flength f" by (simp add: algebra_simps)
    then have "piece_length_at td i = Ret (piece_length td)" using pl(1) by simp
    then show ?thesis using that(1) le by (auto simp: next_piece_def algebra_simps)
  qed
  have k: "k = nat (pieces_count td - (i + 1))" using Suc.hyps(2) by simp
  have u: "[i..pieces_count td - 1] = i # [i + 1..pieces_count td - 1]" using i by (simp add: upto_rec1)
  show ?case
  proof (cases "next_piece (Some j) td i (0, flength f, ?rm)")
    case (Ret r)
    show ?thesis
    proof (cases "i + 1 < pieces_count td")
      case True
      then show ?thesis
        using cur [OF Ret True] Suc.hyps(1) [OF k, of "acc @ [fst r]"] Suc.prems same Ret
        by (simp add: u split_beta)
    next
      case False
      then show ?thesis using same Ret by (simp add: u split_beta)
    qed
  qed (use same in \<open>simp_all add: u\<close>)
qed simp

text \<open>
  The read past the end does not happen for torrents of a single file: there \<open>pieces\<close> is
  defined with no assumption on that read, and covers the bytes of the file.
\<close>

theorem single_file_pieces_defined:
  assumes "partition_ok (descriptor t)" "files (descriptor t) = [f]"
  shows "\<exists>ps. pieces None t = Ret ps \<and> concat (map piece_bytes ps) = file_bytes f"
proof -
  let ?td = "descriptor t"
  have "pieces None t = pieces (Some 0) t"
    using single_file_loop [OF assms, of 0 "[]" 0] assms(2) by (simp add: pieces_def vec_at_def Let_def)
  then show ?thesis
    using pieces_Some_spec [OF assms(1), of 0] assms(2) by (auto simp: torrent_bytes_def)
qed

theorem single_file_pieces_defined_witness:
  "let f = \<lparr>filepath = [''a''], flength = 5\<rparr>;
       t = Torrent_empty\<lparr>descriptor := example_desc\<lparr>files := [f], tlength := 5, piece_length := 4\<rparr>\<rparr>
   in partition_ok (descriptor t) \<and> (\<exists>ps. pieces None t = Ret ps \<and> concat (map piece_bytes ps) = file_bytes f)"
proof -
  let ?f = "\<lparr>filepath = [''a''], flength = 5\<rparr>"
  let ?t = "Torrent_empty\<lparr>descriptor := example_desc\<lparr>files := [?f], tlength := 5, piece_length := 4\<rparr>\<rparr>"
  have "partition_ok (descriptor ?t)" "files (descriptor ?t) = [?f]" by code_simp+
  with single_file_pieces_defined [of ?t ?f] show ?thesis by simp
qed


section \<open>Scores\<close>

definition scores_ok :: "Torrent \<Rightarrow> bool" where
  "scores_ok t \<longleftrightarrow> length (peers_score t) = length (peers t)"

lemma torrent_announce_scores: "torrent_announce get t = Ret t' \<Longrightarrow> scores_ok t \<Longrightarrow> scores_ok t'"
  by (auto simp: torrent_announce_def scores_ok_def case_Result_Ret_iff)

lemma Torrent_of_scores: "Torrent_of get i td = Ret t \<Longrightarrow> scores_ok t"
  unfolding Torrent_of_def by (erule torrent_announce_scores) (simp add: scores_ok_def)

lemma torrent_announce_fields:
  "torrent_announce get t = Ret t' \<Longrightarrow> tid t' = tid t \<and> descriptor t' = descriptor t \<and>
    tstate t' = tstate t \<and> pieces_processed t' = pieces_processed t"
  by (auto simp: torrent_announce_def case_Result_Ret_iff)

lemma add_score_scores: "atomic_add_peer_score i t = Ret t' \<Longrightarrow> scores_ok t \<Longrightarrow> scores_ok t'"
  by (auto simp: atomic_add_peer_score_def scores_ok_def split: if_splits)

lemma add_score_in_range:
  assumes "0 \<le> i" "i < int (length (peers_score t))" "peers_score t ! nat i < int64_max" "int64_min \<le> peers_score t ! nat i"
  shows "atomic_add_peer_score i t = Ret (t\<lparr>peers_score := (peers_score t)[nat i := peers_score t ! nat i + 1]\<rparr>)"
  using assms by (simp add: atomic_add_peer_score_def vec_at_def wrap64_def int64_max_def int64_min_def
      signed_take_bit_int_eq_self)

lemma add_score_negative: "peer_index < 0 \<Longrightarrow> atomic_add_peer_score peer_index t = UB OutOfBounds"
  by (simp add: atomic_add_peer_score_def vec_at_def)

end
