(* ===== verification/Message.thy ===== *)
theory Message
  imports Torrent Bitfield
begin

text \<open>
  The messages of the peer protocol (download/message.hpp, download/message.cpp): the message
  kinds as a datatype, their encoding to the wire format \<open><length><id><payload>\<close> and the decoder
  of a complete frame. The lemmas are the round trip in both directions and what the decoder
  does not check.
\<close>

section \<open>Definitions\<close>

datatype MessageKind =
    KeepAlive | Choke | Unchoke | Interested | NotInterested | Have | BitfieldKind | Request | PieceKind

datatype DecodeError = UnexpectedPayload | InvalidHeader | UnknownMessageID | InvalidPayloadLength

primrec display_decode_error :: "DecodeError \<Rightarrow> string" where
  "display_decode_error UnexpectedPayload = ''UnexpectedPayload''"
| "display_decode_error InvalidHeader = ''InvalidHeader''"
| "display_decode_error UnknownMessageID = ''UnknownMessageID''"
| "display_decode_error InvalidPayloadLength = ''InvalidPayloadLength''"

datatype Message =
    KeepAliveMessage
  | ChokeMessage
  | UnchokeMessage
  | InterestedMessage
  | NotInterestedMessage
  | HaveMessage int
  | BitfieldMessage Bitfield
  | RequestMessage int int int
  | PieceMessage int int bytes

primrec kind :: "Message \<Rightarrow> MessageKind" where
  "kind KeepAliveMessage = KeepAlive"
| "kind ChokeMessage = Choke"
| "kind UnchokeMessage = Unchoke"
| "kind InterestedMessage = Interested"
| "kind NotInterestedMessage = NotInterested"
| "kind (HaveMessage index) = Have"
| "kind (BitfieldMessage bf) = BitfieldKind"
| "kind (RequestMessage index begin l) = Request"
| "kind (PieceMessage index begin block) = PieceKind"

primrec message_id :: "Message \<Rightarrow> byte" where
  "message_id KeepAliveMessage = 0"
| "message_id ChokeMessage = 0"
| "message_id UnchokeMessage = 1"
| "message_id InterestedMessage = 2"
| "message_id NotInterestedMessage = 3"
| "message_id (HaveMessage index) = 4"
| "message_id (BitfieldMessage bf) = 5"
| "message_id (RequestMessage index begin l) = 6"
| "message_id (PieceMessage index begin block) = 7"

primrec encode_payload :: "Message \<Rightarrow> bytes outcome" where
  "encode_payload KeepAliveMessage = Ret []"
| "encode_payload ChokeMessage = Ret []"
| "encode_payload UnchokeMessage = Ret []"
| "encode_payload InterestedMessage = Ret []"
| "encode_payload NotInterestedMessage = Ret []"
| "encode_payload (HaveMessage index) = encode_integer index"
| "encode_payload (BitfieldMessage bf) = Ret (get_bytes bf)"
| "encode_payload (RequestMessage index begin l) =
     obind (encode_integer index) (\<lambda>index_encoded.
     obind (encode_integer begin) (\<lambda>begin_encoded.
     obind (encode_integer l) (\<lambda>length_encoded.
       Ret (index_encoded @ begin_encoded @ length_encoded))))"
| "encode_payload (PieceMessage index begin block) =
     obind (encode_integer index) (\<lambda>index_encoded.
     obind (encode_integer begin) (\<lambda>begin_encoded.
       Ret (index_encoded @ begin_encoded @ block)))"

definition encode_framed :: "Message \<Rightarrow> bytes outcome" where
  "encode_framed m =
     obind (encode_payload m) (\<lambda>payload.
       if int (length payload) > int64_max then Throw invalid_argument
       else obind (add64 1 (int (length payload))) (\<lambda>n.
            obind (encode_integer n) (\<lambda>l.
              Ret (l @ [message_id m] @ payload))))"

definition encode_msg :: "Message \<Rightarrow> bytes outcome" where
  "encode_msg m = (case m of KeepAliveMessage \<Rightarrow> Ret [0, 0, 0, 0] | _ \<Rightarrow> encode_framed m)"

definition HaveMessage_decode :: "bytes \<Rightarrow> (Message, DecodeError) Result" where
  "HaveMessage_decode buf =
     (if length buf \<noteq> 4 then ERROR InvalidPayloadLength
      else OK (HaveMessage (decode_integer [buf ! 0, buf ! 1, buf ! 2, buf ! 3])))"

definition BitfieldMessage_decode :: "TorrentFile \<Rightarrow> bytes \<Rightarrow> Message" where
  "BitfieldMessage_decode torrent buf = BitfieldMessage (Bitfield_of_storage buf (pieces_count torrent))"

definition RequestMessage_decode :: "bytes \<Rightarrow> (Message, DecodeError) Result" where
  "RequestMessage_decode buf =
     (if length buf \<noteq> 3 * 4 then ERROR InvalidPayloadLength
      else OK (RequestMessage (decode_integer [buf ! 0, buf ! 1, buf ! 2, buf ! 3])
             (decode_integer [buf ! 4, buf ! 5, buf ! 6, buf ! 7])
             (decode_integer [buf ! 8, buf ! 9, buf ! 10, buf ! 11])))"

definition PieceMessage_decode :: "bytes \<Rightarrow> (Message, DecodeError) Result" where
  "PieceMessage_decode buf =
     (if length buf < 8 then ERROR InvalidPayloadLength
      else OK (PieceMessage (decode_integer [buf ! 0, buf ! 1, buf ! 2, buf ! 3])
             (decode_integer [buf ! 4, buf ! 5, buf ! 6, buf ! 7])
             (drop 8 buf)))"

text \<open>
  For the messages without payload the source builds an \<open>UnexpectedPayload\<close> error when there is
  one, but does not return it.
\<close>

definition decode_msg :: "TorrentFile \<Rightarrow> bytes \<Rightarrow> (Message, DecodeError) Result" where
  "decode_msg torrent buf =
     (if encode_msg KeepAliveMessage = Ret buf then OK KeepAliveMessage
      else if length buf < 5 then ERROR InvalidHeader
      else let id = buf ! 4; payload = drop 5 buf in
        if id < 4 then
          (if id = 0 then OK ChokeMessage else if id = 1 then OK UnchokeMessage
           else if id = 2 then OK InterestedMessage else OK NotInterestedMessage)
        else if id < 8 then
          (if id = 4 then HaveMessage_decode payload
           else if id = 5 then OK (BitfieldMessage_decode torrent payload)
           else if id = 6 then RequestMessage_decode payload
           else PieceMessage_decode payload)
        else ERROR UnknownMessageID)"

section \<open>Round trips\<close>

text \<open>The messages that have a wire form for a given torrent.\<close>

primrec msg_ok :: "TorrentFile \<Rightarrow> Message \<Rightarrow> bool" where
  "msg_ok td KeepAliveMessage = True"
| "msg_ok td ChokeMessage = True"
| "msg_ok td UnchokeMessage = True"
| "msg_ok td InterestedMessage = True"
| "msg_ok td NotInterestedMessage = True"
| "msg_ok td (HaveMessage index) = fits_u32 index"
| "msg_ok td (BitfieldMessage bf) = (len bf = pieces_count td \<and> int (length (storage bf)) < 2 ^ 32 - 1)"
| "msg_ok td (RequestMessage index begin l) = (fits_u32 index \<and> fits_u32 begin \<and> fits_u32 l)"
| "msg_ok td (PieceMessage index begin block) =
     (fits_u32 index \<and> fits_u32 begin \<and> int (length block) < 2 ^ 32 - 9)"

lemma fits_u32_encode:
  assumes "fits_u32 n"
  obtains a b c d where "encode_integer n = Ret [a, b, c, d]" "decode_integer [a, b, c, d] = n"
proof -
  obtain w where w: "encode_integer n = Ret w" "decode_integer w = n"
    using int_codec.roundtrip [OF assms] by auto
  from encode_integer_length [OF w(1)] obtain a b c d where "w = [a, b, c, d]"
    by (rule list4_cases)
  with w that show ?thesis by simp
qed

lemma encode_framed_frame:
  assumes "encode_payload m = Ret payload" "int (length payload) < 2 ^ 32 - 1"
  obtains a b c d where "encode_framed m = Ret (a # b # c # d # message_id m # payload)"
    "[a, b, c, d] \<noteq> [0, 0, 0, 0]" "decode_integer [a, b, c, d] = 1 + int (length payload)"
proof -
  have "fits_u32 (1 + int (length payload))" using assms(2) by (simp add: fits_u32_def)
  then obtain a b c d where e: "encode_integer (1 + int (length payload)) = Ret [a, b, c, d]"
      "decode_integer [a, b, c, d] = 1 + int (length payload)"
    by (rule fits_u32_encode)
  moreover have "decode_integer [0, 0, 0, 0] = 0" by code_simp
  ultimately have "[a, b, c, d] \<noteq> [0, 0, 0, 0]" by auto
  moreover have "encode_framed m = Ret (a # b # c # d # message_id m # payload)"
    using assms e(1) by (simp add: encode_framed_def arith64)
  ultimately show ?thesis using that e(2) by blast
qed

lemma decode_msg_frame:
  "decode_msg td (a # b # c # d # i # payload) =
     (if i < 4 then
        (if i = 0 then OK ChokeMessage else if i = 1 then OK UnchokeMessage
         else if i = 2 then OK InterestedMessage else OK NotInterestedMessage)
      else if i < 8 then
        (if i = 4 then HaveMessage_decode payload
         else if i = 5 then OK (BitfieldMessage_decode td payload)
         else if i = 6 then RequestMessage_decode payload
         else PieceMessage_decode payload)
      else ERROR UnknownMessageID)"
  by (simp add: decode_msg_def encode_msg_def)

lemma payload_roundtrip:
  assumes "msg_ok td m" "m \<noteq> KeepAliveMessage"
  shows "\<exists>payload. encode_payload m = Ret payload \<and> int (length payload) < 2 ^ 32 - 1 \<and>
    (\<forall>a b c d. decode_msg td (a # b # c # d # message_id m # payload) = OK m)"
proof (cases m)
  case (HaveMessage i)
  with assms obtain a b c d where "encode_integer i = Ret [a, b, c, d]" "decode_integer [a, b, c, d] = i"
    by (auto elim: fits_u32_encode)
  with HaveMessage show ?thesis by (simp add: decode_msg_frame HaveMessage_decode_def)
next
  case (BitfieldMessage bf)
  with assms show ?thesis
    by (simp add: decode_msg_frame BitfieldMessage_decode_def Bitfield_of_storage_def get_bytes_def)
next
  case (RequestMessage i g l)
  with assms obtain a b c d where i: "encode_integer i = Ret [a, b, c, d]" "decode_integer [a, b, c, d] = i"
    by (auto elim: fits_u32_encode)
  from RequestMessage assms obtain a' b' c' d' where g: "encode_integer g = Ret [a', b', c', d']" "decode_integer [a', b', c', d'] = g"
    by (auto elim: fits_u32_encode)
  from RequestMessage assms obtain a'' b'' c'' d'' where "encode_integer l = Ret [a'', b'', c'', d'']" "decode_integer [a'', b'', c'', d''] = l"
    by (auto elim: fits_u32_encode)
  with RequestMessage i g show ?thesis by (simp add: decode_msg_frame RequestMessage_decode_def)
next
  case (PieceMessage i g block)
  with assms obtain a b c d where i: "encode_integer i = Ret [a, b, c, d]" "decode_integer [a, b, c, d] = i"
    by (auto elim: fits_u32_encode)
  from PieceMessage assms obtain a' b' c' d' where "encode_integer g = Ret [a', b', c', d']" "decode_integer [a', b', c', d'] = g"
    by (auto elim: fits_u32_encode)
  with PieceMessage assms i show ?thesis by (simp add: decode_msg_frame PieceMessage_decode_def)
qed (use assms in \<open>simp_all add: decode_msg_frame\<close>)

lemma decode_encode_msg:
  assumes "msg_ok td m"
  shows "\<exists>w. encode_msg m = Ret w \<and> decode_msg td w = OK m"
proof (cases "m = KeepAliveMessage")
  case True
  then show ?thesis by (simp add: encode_msg_def decode_msg_def)
next
  case False
  then obtain payload where p: "encode_payload m = Ret payload" "int (length payload) < 2 ^ 32 - 1"
      "\<And>a b c d. decode_msg td (a # b # c # d # message_id m # payload) = OK m"
    using payload_roundtrip [OF assms] by blast
  moreover have "encode_msg m = encode_framed m" using False by (cases m) (simp_all add: encode_msg_def)
  ultimately show ?thesis by (metis encode_framed_frame)
qed

definition decode_msg_opt :: "TorrentFile \<Rightarrow> bytes \<Rightarrow> Message option" where
  "decode_msg_opt td w = (case decode_msg td w of OK m \<Rightarrow> Some m | ERROR e \<Rightarrow> None)"

lemma decode_msg_opt_Some [simp]: "decode_msg_opt td w = Some m \<longleftrightarrow> decode_msg td w = OK m"
  by (simp add: decode_msg_opt_def split: Result.splits)

interpretation msg_codec: codec "msg_ok td" encode_msg "decode_msg_opt td" for td
  by unfold_locales (use decode_encode_msg in fastforce)+

text \<open>
  C17. Round trip of the peer protocol: every message whose fields fit the wire format is
  encoded without error, and decoding the bytes against the same torrent gives the message back;
  so no two messages share an encoding.
\<close>

theorem message_roundtrip:
  assumes "msg_ok td m"
  shows "\<exists>w. encode_msg m = Ret w \<and> decode_msg td w = OK m"
  using msg_codec.roundtrip [OF assms] by simp

theorem message_roundtrip_witness:
  "msg_ok example_desc (PieceMessage 1 16384 [0xAB, 0xCD]) \<and>
   (\<exists>w. encode_msg (PieceMessage 1 16384 [0xAB, 0xCD]) = Ret w \<and>
      decode_msg example_desc w = OK (PieceMessage 1 16384 [0xAB, 0xCD]))"
proof -
  have "msg_ok example_desc (PieceMessage 1 16384 [0xAB, 0xCD])" by (simp add: fits_u32_def)
  with message_roundtrip [OF this] show ?thesis by simp
qed

section \<open>What the decoder checks\<close>

text \<open>Frames whose length prefix is right and that carry a payload only where one belongs.\<close>

definition canonical_frame :: "bytes \<Rightarrow> bool" where
  "canonical_frame w \<longleftrightarrow> w = [0, 0, 0, 0] \<or>
     (5 \<le> length w \<and> decode_integer (take 4 w) = int (length w) - 4 \<and> (w ! 4 < 4 \<longrightarrow> length w = 5))"

lemma five_elements: "5 \<le> length w \<Longrightarrow> \<exists>a b c d i payload. w = a # b # c # d # i # payload"
  by (auto simp: numeral_eq_Suc Suc_le_length_iff)

lemma small_id: "i < 4 \<Longrightarrow> i = 0 \<or> i = 1 \<or> i = 2 \<or> i = 3" for i :: byte
proof -
  assume "i < 4"
  then have "unat i < 4" by (simp add: word_less_nat_alt)
  then have "unat i = 0 \<or> unat i = 1 \<or> unat i = 2 \<or> unat i = 3" by linarith
  then show ?thesis by (auto simp: word_unat_eq_iff)
qed

lemma payload_id: "\<not> i < 4 \<Longrightarrow> i < 8 \<Longrightarrow> i = 4 \<or> i = 5 \<or> i = 6 \<or> i = 7" for i :: byte
proof -
  assume "\<not> i < 4" "i < 8"
  then have "\<not> unat i < 4" "unat i < 8" by (simp_all add: word_less_nat_alt)
  then have "unat i = 4 \<or> unat i = 5 \<or> unat i = 6 \<or> unat i = 7" by linarith
  then show ?thesis by (auto simp: word_unat_eq_iff)
qed

lemma list_of_4: "length p = 4 \<Longrightarrow> [p ! 0, p ! 1, p ! 2, p ! 3] = p"
  by (erule list4_cases) simp

lemma take4_front: "4 \<le> length p \<Longrightarrow> take 4 p = [p ! 0, p ! 1, p ! 2, p ! 3]"
  using take4 [of 0 p] by (simp add: numeral_2_eq_2)

lemma split_4_4: "take 4 p @ take 4 (drop 4 p) @ drop 8 p = p"
  by (metis append.assoc append_take_drop_id numeral_Bit0 take_add)

lemma decode_msg_payload:
  assumes "decode_msg td (a # b # c # d # i # payload) = OK m" "i < 4 \<longrightarrow> payload = []"
  shows "encode_payload m = Ret payload \<and> message_id m = i \<and> m \<noteq> KeepAliveMessage"
proof (cases "i < 4")
  case True
  then show ?thesis
    using assms small_id [OF True] by (auto simp: decode_msg_frame)
next
  case False
  then have "i < 8" using assms(1) by (simp add: decode_msg_frame split: if_splits)
  from payload_id [OF False this] consider "i = 4" | "i = 5" | "i = 6" | "i = 7" by blast
  then show ?thesis
  proof cases
    case 1
    then have "length payload = 4" "m = HaveMessage (decode_integer payload)"
      using assms(1) list_of_4 [of payload] by (auto simp: decode_msg_frame HaveMessage_decode_def split: if_splits)
    with 1 show ?thesis by (simp add: encode_decode_integer)
  next
    case 2
    with assms(1) show ?thesis
      by (auto simp: decode_msg_frame BitfieldMessage_decode_def Bitfield_of_storage_def get_bytes_def)
  next
    case 3
    then have l: "length payload = 12" using assms(1) by (auto simp: decode_msg_frame RequestMessage_decode_def split: if_splits)
    with 3 assms(1) have "m = RequestMessage (decode_integer (take 4 payload)) (decode_integer (take 4 (drop 4 payload)))
        (decode_integer (take 4 (drop 8 payload)))"
      using take4_front [of payload] take4 [of 4 payload] take4 [of 8 payload]
      by (simp add: decode_msg_frame RequestMessage_decode_def)
    moreover have "take 4 payload @ take 4 (drop 4 payload) @ take 4 (drop 8 payload) = payload"
      using l split_4_4 [of payload] by simp
    ultimately show ?thesis using 3 l by (simp add: encode_decode_integer)
  next
    case 4
    then have l: "8 \<le> length payload" using assms(1) by (auto simp: decode_msg_frame PieceMessage_decode_def split: if_splits)
    with 4 assms(1) have "m = PieceMessage (decode_integer (take 4 payload)) (decode_integer (take 4 (drop 4 payload))) (drop 8 payload)"
      using take4_front [of payload] take4 [of 4 payload]
      by (simp add: decode_msg_frame PieceMessage_decode_def)
    then show ?thesis using 4 l split_4_4 [of payload] by (simp add: encode_decode_integer)
  qed
qed

text \<open>
  C24. The other direction: a canonical frame that decodes is the encoding of what it decodes to,
  so on canonical frames the decoder loses nothing.
\<close>

theorem decode_msg_canonical:
  assumes "canonical_frame w" "decode_msg td w = OK m"
  shows "encode_msg m = Ret w"
proof (cases "w = [0, 0, 0, 0]")
  case True
  with assms(2) show ?thesis by (simp add: decode_msg_def encode_msg_def)
next
  case False
  with assms(1) obtain a b c d i payload where w: "w = a # b # c # d # i # payload"
    using five_elements [of w] by (auto simp: canonical_frame_def)
  with assms(1) False have "decode_integer [a, b, c, d] = 1 + int (length payload)" "i < 4 \<longrightarrow> payload = []"
    by (auto simp: canonical_frame_def)
  note len = this
  from decode_msg_payload [OF assms(2) [unfolded w] len(2)]
  have m: "encode_payload m = Ret payload" "message_id m = i" "m \<noteq> KeepAliveMessage" by auto
  have "int (length payload) < 2 ^ 32 - 1"
    using len(1) decode_integer_range(2) [of "[a, b, c, d]"] by simp
  moreover have "encode_integer (1 + int (length payload)) = Ret [a, b, c, d]"
    using encode_decode_integer [of "[a, b, c, d]"] len(1) by simp
  ultimately have "encode_framed m = Ret w"
    using m by (simp add: encode_framed_def arith64 w)
  moreover have "encode_msg m = encode_framed m" using m(3) by (cases m) (simp_all add: encode_msg_def)
  ultimately show ?thesis by simp
qed

theorem decode_msg_canonical_witness:
  "canonical_frame [0, 0, 0, 5, 4, 0, 0, 0, 9] \<and> encode_msg (HaveMessage 9) = Ret [0, 0, 0, 5, 4, 0, 0, 0, 9]"
proof -
  have "canonical_frame [0, 0, 0, 5, 4, 0, 0, 0, 9]"
    "decode_msg example_desc [0, 0, 0, 5, 4, 0, 0, 0, 9] = OK (HaveMessage 9)" by code_simp+
  with decode_msg_canonical [of "[0, 0, 0, 5, 4, 0, 0, 0, 9]" example_desc "HaveMessage 9"] show ?thesis by simp
qed

text \<open>
  The decoder never reports \<open>UnexpectedPayload\<close>: a message that should have no payload is
  accepted with any payload, and the length prefix is not looked at.
\<close>

theorem decode_msg_never_unexpected_payload:
  "decode_msg td w \<noteq> ERROR UnexpectedPayload \<and>
   decode_msg td (a # b # c # d # 0 # payload) = OK ChokeMessage"
  by (auto simp: decode_msg_def encode_msg_def HaveMessage_decode_def RequestMessage_decode_def
      PieceMessage_decode_def Let_def split: if_splits)

end
