(* ===== verification/Policy_Queue.thy ===== *)
theory Policy_Queue
  imports Result_Type
begin

text \<open>
  The policy queue (policy/policy.hpp, policy/policy.inl, policy/queue.hpp, policy/queue.inl).
  A queue is the list of its items; a policy picks the position of the item to extract, where
  the position equal to the length stands for the end iterator. A locale states what a policy
  has to promise, and the queue's conservation laws are proved in it once for both policies.
\<close>

section \<open>Definitions\<close>

type_synonym 'a policy = "'a list \<Rightarrow> nat"

definition LIFOPolicy_extract :: "'a policy" where
  "LIFOPolicy_extract items = 0"

definition FIFOPolicy_extract :: "'a policy" where
  "FIFOPolicy_extract items = length items - 1"

datatype QueueError = Empty | PolicyFailure

definition queue_insert :: "'a \<Rightarrow> 'a list \<Rightarrow> 'a list outcome" where
  "queue_insert item items =
     (if int (length items) = int64_max then Throw logic_error else Ret (items @ [item]))"

definition queue_emplace :: "('b \<Rightarrow> 'a) \<Rightarrow> 'b \<Rightarrow> 'a list \<Rightarrow> 'a list outcome" where
  "queue_emplace construct args items =
     (if int (length items) = int64_max then Throw logic_error else Ret (items @ [construct args]))"

definition queue_extract :: "'a policy \<Rightarrow> 'a list \<Rightarrow> ('a, QueueError) Result \<times> 'a list" where
  "queue_extract policy items =
     (if items = [] then (ERROR Empty, items)
      else let it = policy items in
        if it = length items then (ERROR PolicyFailure, items)
        else (OK (items ! it), take it items @ drop (Suc it) items))"

text \<open>The mutation may update the item and its own captured state, and says whether to remove the item.\<close>

fun queue_mutate :: "('s \<Rightarrow> 'a \<Rightarrow> bool \<times> 'a \<times> 's) \<Rightarrow> 's \<Rightarrow> 'a list \<Rightarrow> 'a list \<times> 's" where
  "queue_mutate mutation st [] = ([], st)"
| "queue_mutate mutation st (x # xs) =
     (let (remove, x', st') = mutation st x;
          (ys, st'') = queue_mutate mutation st' xs
      in (if remove then ys else x' # ys, st''))"

definition queue_size :: "'a list \<Rightarrow> int" where
  "queue_size items = int (length items)"

text \<open>A client's sequence of operations: \<open>Some x\<close> inserts \<open>x\<close>, \<open>None\<close> extracts; the items it gets.\<close>

fun queue_run :: "'a policy \<Rightarrow> 'a option list \<Rightarrow> 'a list \<Rightarrow> 'a list \<times> 'a list" where
  "queue_run pol [] items = ([], items)"
| "queue_run pol (Some x # ops) items =
     (case queue_insert x items of Ret items' \<Rightarrow> queue_run pol ops items' | _ \<Rightarrow> queue_run pol ops items)"
| "queue_run pol (None # ops) items =
     (case queue_extract pol items of
        (OK y, rest) \<Rightarrow> (let (ys, rest') = queue_run pol ops rest in (y # ys, rest'))
      | (ERROR e, rest) \<Rightarrow> queue_run pol ops rest)"

definition inserted :: "'a option list \<Rightarrow> 'a list" where
  "inserted ops = concat (map (\<lambda>op. case op of Some x \<Rightarrow> [x] | None \<Rightarrow> []) ops)"

section \<open>What a policy promises\<close>

locale queue_policy =
  fixes pol :: "'a policy"
  assumes in_range: "items \<noteq> [] \<Longrightarrow> pol items < length items"
begin

lemma extract_nonempty:
  assumes "items \<noteq> []"
  shows "\<exists>x rest. queue_extract pol items = (OK x, rest) \<and> mset items = add_mset x (mset rest) \<and>
    length items = Suc (length rest)"
proof -
  let ?i = "pol items"
  have i: "?i < length items" using in_range [OF assms] .
  then have "items = take ?i items @ items ! ?i # drop (Suc ?i) items"
    by (simp add: id_take_nth_drop)
  then have "mset items = add_mset (items ! ?i) (mset (take ?i items @ drop (Suc ?i) items))"
    by (metis mset.simps(2) mset_append union_mset_add_mset_right)
  with i assms show ?thesis
    by (simp add: queue_extract_def Let_def)
qed

lemma extract_error_iff: "fst (queue_extract pol items) = ERROR e \<longleftrightarrow> items = [] \<and> e = Empty"
  using extract_nonempty [of items] by (cases "items = []") (auto simp: queue_extract_def)

lemma run_conserves:
  "int (length items) + int (length ops) \<le> int64_max \<Longrightarrow>
    mset (fst (queue_run pol ops items)) + mset (snd (queue_run pol ops items)) = mset items + mset (inserted ops)"
proof (induction ops arbitrary: items)
  case (Cons op ops)
  show ?case
  proof (cases op)
    case (Some x)
    then have "queue_insert x items = Ret (items @ [x])" using Cons.prems by (simp add: queue_insert_def)
    with Some Cons.prems Cons.IH [of "items @ [x]"] show ?thesis by (simp add: inserted_def)
  next
    case None
    show ?thesis
    proof (cases "items = []")
      case True
      with None Cons show ?thesis by (simp add: queue_extract_def inserted_def)
    next
      case False
      then obtain y rest where "queue_extract pol items = (OK y, rest)" "mset items = add_mset y (mset rest)"
          "length items = Suc (length rest)"
        using extract_nonempty by blast
      with None Cons.prems Cons.IH [of rest] show ?thesis by (simp add: split_beta inserted_def)
    qed
  qed
qed (simp add: inserted_def)

end

interpretation lifo: queue_policy LIFOPolicy_extract
  by unfold_locales (simp add: LIFOPolicy_extract_def)

interpretation fifo: queue_policy FIFOPolicy_extract
  by unfold_locales (simp add: FIFOPolicy_extract_def)

section \<open>Properties\<close>

text \<open>
  C38. Nothing is lost, duplicated or invented: after any sequence of insertions and extractions
  that stays within the capacity, under either policy, the items handed out and the items left
  are together exactly the initial items and those inserted.
\<close>

theorem queue_conserves_items:
  assumes "int (length items) + int (length ops) \<le> int64_max" "pol = LIFOPolicy_extract \<or> pol = FIFOPolicy_extract"
  shows "mset (fst (queue_run pol ops items)) + mset (snd (queue_run pol ops items)) = mset items + mset (inserted ops)"
  using assms lifo.run_conserves fifo.run_conserves by blast

theorem queue_conserves_items_witness:
  "mset (fst (queue_run FIFOPolicy_extract [Some 1, None, Some 2, None, None] [5 :: nat])) +
   mset (snd (queue_run FIFOPolicy_extract [Some 1, None, Some 2, None, None] [5])) = {#5, 1, 2#}"
  using queue_conserves_items [of "[5 :: nat]" "[Some 1, None, Some 2, None, None]" FIFOPolicy_extract]
  by (simp add: int64_max_def inserted_def)

lemma run_inserts:
  "int (length items) + int (length xs) \<le> int64_max \<Longrightarrow>
    queue_run pol (map Some xs @ ops) items = queue_run pol ops (items @ xs)"
  by (induction xs arbitrary: items) (simp_all add: queue_insert_def)

lemma lifo_drain: "fst (queue_run LIFOPolicy_extract (replicate (length xs) None) xs) = xs"
  by (induction xs) (simp_all add: queue_extract_def LIFOPolicy_extract_def split_beta)

lemma fifo_drain: "fst (queue_run FIFOPolicy_extract (replicate (length xs) None) xs) = rev xs"
proof (induction xs rule: rev_induct)
  case (snoc x xs)
  have "queue_extract FIFOPolicy_extract (xs @ [x]) = (OK x, xs)"
    by (simp add: queue_extract_def FIFOPolicy_extract_def)
  with snoc show ?case by (simp add: split_beta)
qed simp

text \<open>
  C39. The order of extraction: items come out in the order of their insertion under the policy
  called LIFO, and in the reverse order under the policy called FIFO.
\<close>

theorem policies_are_swapped:
  assumes "int (length xs) \<le> int64_max"
  shows "fst (queue_run LIFOPolicy_extract (map Some xs @ replicate (length xs) None) []) = xs \<and>
    fst (queue_run FIFOPolicy_extract (map Some xs @ replicate (length xs) None) []) = rev xs"
  using assms by (simp add: run_inserts lifo_drain fifo_drain)

theorem policies_are_swapped_witness:
  "fst (queue_run FIFOPolicy_extract [Some 1, Some 2, Some (3 :: nat), None, None, None] []) = [3, 2, 1]"
  using policies_are_swapped [of "[1, 2, 3 :: nat]"] by (simp add: int64_max_def numeral_eq_Suc)

lemma queue_mutate_stateless:
  "queue_mutate (\<lambda>s x. (p x, f x, s)) st xs = (map f (filter (\<lambda>x. \<not> p x) xs), st)"
  by (induction xs) simp_all

lemma queue_mutate_length: "length (fst (queue_mutate m st xs)) \<le> length xs"
proof (induction m st xs rule: queue_mutate.induct)
  case (2 m st x xs)
  then show ?case by (cases "m st x") (auto simp: split_beta Let_def intro: le_SucI)
qed simp

end
