(* ===== verification/Sharing_Queue.thy ===== *)
theory Sharing_Queue
  imports Policy_Queue
begin

text \<open>
  The shared queue (mt/sharing_queue.hpp, mt/sharing_queue.inl): the policy queue behind a mutex
  with two condition variables. Each section under the mutex is one step; the notification that
  follows it is a step of its own, so that other threads may run in between. A waiting thread is
  blocked on one of the variables, may wake up spuriously, and re-checks its condition after
  every wake-up. The lemmas say when a wake-up can be lost.
\<close>

section \<open>State and steps\<close>

text \<open>
  Where a thread is: outside the queue's methods, about to notify one of the variables, blocked
  in a wait, or woken up and about to re-check.
\<close>

datatype pc =
    Idle
  | NotifyNewWork
  | NotifyDispatched
  | BlockedWork
  | BlockedEmpty
  | WokenWork
  | WokenEmpty

record 'a SharedQueue =
  work :: "'a list"
  skip_waiting :: bool
  pcs :: "nat \<Rightarrow> pc"

definition SharedQueue_init :: "'a SharedQueue" where
  "SharedQueue_init = \<lparr>work = [], skip_waiting = False, pcs = (\<lambda>_. Idle)\<rparr>"

definition at :: "nat \<Rightarrow> pc \<Rightarrow> 'a SharedQueue \<Rightarrow> 'a SharedQueue" where
  "at t p s = s\<lparr>pcs := (pcs s)(t := p)\<rparr>"

definition try_extract :: "'a policy \<Rightarrow> nat \<Rightarrow> 'a SharedQueue \<Rightarrow> ('a, QueueError) Result \<times> 'a SharedQueue" where
  "try_extract policy t s =
     (let (result, w) = queue_extract policy (work s);
          s' = s\<lparr>work := w\<rparr>
      in (result, if queue_size w = 0 then at t NotifyDispatched s' else s'))"

definition shared_insert :: "'a \<Rightarrow> nat \<Rightarrow> 'a SharedQueue \<Rightarrow> 'a SharedQueue outcome" where
  "shared_insert x t s =
     obind (queue_insert x (work s)) (\<lambda>w. Ret (at t NotifyNewWork (s\<lparr>work := w\<rparr>)))"

definition shared_emplace :: "('b \<Rightarrow> 'a) \<Rightarrow> 'b \<Rightarrow> nat \<Rightarrow> 'a SharedQueue \<Rightarrow> 'a SharedQueue outcome" where
  "shared_emplace construct args t s =
     obind (queue_emplace construct args (work s)) (\<lambda>w. Ret (at t NotifyNewWork (s\<lparr>work := w\<rparr>)))"

definition force_wakeup :: "nat \<Rightarrow> 'a SharedQueue \<Rightarrow> 'a SharedQueue" where
  "force_wakeup t s = at t NotifyNewWork s"

definition wait_work :: "nat \<Rightarrow> 'a SharedQueue \<Rightarrow> 'a SharedQueue" where
  "wait_work t s =
     (if skip_waiting s \<or> queue_size (work s) \<noteq> 0 then at t Idle s else at t BlockedWork s)"

definition wait_empty :: "nat \<Rightarrow> 'a SharedQueue \<Rightarrow> 'a SharedQueue" where
  "wait_empty t s =
     (if skip_waiting s \<or> queue_size (work s) = 0 then at t Idle s else at t BlockedEmpty s)"

definition shared_mutate ::
  "('m \<Rightarrow> 'a \<Rightarrow> bool \<times> 'a \<times> 'm) \<Rightarrow> 'm \<Rightarrow> nat \<Rightarrow> 'a SharedQueue \<Rightarrow> 'a SharedQueue" where
  "shared_mutate mutation st t s =
     force_wakeup t (s\<lparr>work := fst (queue_mutate mutation st (work s))\<rparr>)"

definition begin_skip_waiting :: "nat \<Rightarrow> 'a SharedQueue \<Rightarrow> 'a SharedQueue" where
  "begin_skip_waiting t s = force_wakeup t (s\<lparr>skip_waiting := True\<rparr>)"

text \<open>\<open>notify_all\<close> wakes every thread blocked on the variable.\<close>

definition notify_new_work :: "nat \<Rightarrow> 'a SharedQueue \<Rightarrow> 'a SharedQueue" where
  "notify_new_work t s =
     s\<lparr>pcs := (\<lambda>u. if u = t then Idle else if pcs s u = BlockedWork then WokenWork else pcs s u)\<rparr>"

definition notify_dispatched :: "nat \<Rightarrow> 'a SharedQueue \<Rightarrow> 'a SharedQueue" where
  "notify_dispatched t s =
     s\<lparr>pcs := (\<lambda>u. if u = t then Idle else if pcs s u = BlockedEmpty then WokenEmpty else pcs s u)\<rparr>"

text \<open>Which operation a step belongs to.\<close>

datatype event = Extract | Insert | Mutate | Skip | Force | WaitWork | WaitEmpty | Notify | Wake | SpuriousWake

inductive queue_step :: "event \<Rightarrow> 'a SharedQueue \<Rightarrow> 'a SharedQueue \<Rightarrow> bool" where
  extraction: "pcs s t = Idle \<Longrightarrow> try_extract pol t s = (r, s') \<Longrightarrow> queue_step Extract s s'"
| insert: "pcs s t = Idle \<Longrightarrow> shared_insert x t s = Ret s' \<Longrightarrow> queue_step Insert s s'"
| emplace: "pcs s t = Idle \<Longrightarrow> shared_emplace f (b :: nat) t s = Ret s' \<Longrightarrow> queue_step Insert s s'"
| mutate: "pcs s t = Idle \<Longrightarrow> queue_step Mutate s (shared_mutate m (st :: nat) t s)"
| skip: "pcs s t = Idle \<Longrightarrow> queue_step Skip s (begin_skip_waiting t s)"
| force: "pcs s t = Idle \<Longrightarrow> queue_step Force s (force_wakeup t s)"
| wait_work: "pcs s t = Idle \<Longrightarrow> queue_step WaitWork s (wait_work t s)"
| wait_empty: "pcs s t = Idle \<Longrightarrow> queue_step WaitEmpty s (wait_empty t s)"
| notify_new: "pcs s t = NotifyNewWork \<Longrightarrow> queue_step Notify s (notify_new_work t s)"
| notify_disp: "pcs s t = NotifyDispatched \<Longrightarrow> queue_step Notify s (notify_dispatched t s)"
| recheck_work: "pcs s t = WokenWork \<Longrightarrow> queue_step Wake s (wait_work t s)"
| recheck_empty: "pcs s t = WokenEmpty \<Longrightarrow> queue_step Wake s (wait_empty t s)"
| spurious_work: "pcs s t = BlockedWork \<Longrightarrow> queue_step SpuriousWake s (at t WokenWork s)"
| spurious_empty: "pcs s t = BlockedEmpty \<Longrightarrow> queue_step SpuriousWake s (at t WokenEmpty s)"

inductive_cases queue_stepE: "queue_step e s s'"

text \<open>The states reached by steps of the allowed operations.\<close>

inductive reaches :: "event set \<Rightarrow> 'a SharedQueue \<Rightarrow> bool" for allowed where
  init: "reaches allowed SharedQueue_init"
| step: "reaches allowed s \<Longrightarrow> queue_step e s s' \<Longrightarrow> e \<in> allowed \<Longrightarrow> reaches allowed s'"

section \<open>Waiting for work\<close>

lemma queue_size_0 [simp]: "queue_size w = 0 \<longleftrightarrow> w = []"
  by (simp add: queue_size_def)

lemmas op_defs = try_extract_def shared_insert_def shared_emplace_def force_wakeup_def wait_work_def
  wait_empty_def shared_mutate_def begin_skip_waiting_def notify_new_work_def notify_dispatched_def at_def

text \<open>A thread blocked although its condition holds has a notification under way.\<close>

definition work_wakeup_inv :: "'a SharedQueue \<Rightarrow> bool" where
  "work_wakeup_inv s \<longleftrightarrow>
     (\<forall>t. pcs s t = BlockedWork \<and> (work s \<noteq> [] \<or> skip_waiting s) \<longrightarrow> (\<exists>u. pcs s u = NotifyNewWork))"

lemma extract_shrinks: "queue_extract p w = (r, w') \<Longrightarrow> w = [] \<Longrightarrow> w' = []"
  by (simp add: queue_extract_def)

lemma try_extract_state:
  assumes "try_extract pol t s = (r, s')"
  obtains w where "queue_extract pol (work s) = (r, w)"
    "s' = (if w = [] then at t NotifyDispatched (s\<lparr>work := w\<rparr>) else s\<lparr>work := w\<rparr>)"
  using assms that [of "snd (queue_extract pol (work s))"] by (auto simp: try_extract_def split_beta Let_def)

lemma at_simps [simp]:
  "work (at t p s) = work s" "skip_waiting (at t p s) = skip_waiting s" "pcs (at t p s) = (pcs s)(t := p)"
  by (simp_all add: at_def)

lemma work_inv_moved:
  assumes "work_wakeup_inv s" "pcs s t \<noteq> NotifyNewWork" "p = BlockedWork \<Longrightarrow> work s = [] \<and> \<not> skip_waiting s"
  shows "work_wakeup_inv (at t p s)"
  unfolding work_wakeup_inv_def
proof (intro allI impI)
  fix u assume u: "pcs (at t p s) u = BlockedWork \<and> (work (at t p s) \<noteq> [] \<or> skip_waiting (at t p s))"
  with assms(3) have "pcs s u = BlockedWork" by (cases "u = t") auto
  with u assms(1) obtain v where "pcs s v = NotifyNewWork" by (auto simp: work_wakeup_inv_def)
  then have "pcs (at t p s) v = NotifyNewWork" using assms(2) by (cases "v = t") auto
  then show "\<exists>v. pcs (at t p s) v = NotifyNewWork" ..
qed

lemma work_inv_pending: "work_wakeup_inv (at t NotifyNewWork s)"
  by (auto simp: work_wakeup_inv_def)

lemma work_inv_smaller:
  "work_wakeup_inv s \<Longrightarrow> (work s = [] \<longrightarrow> w = []) \<Longrightarrow> work_wakeup_inv (s\<lparr>work := w\<rparr>)"
  by (auto simp: work_wakeup_inv_def)

lemma work_inv_notified: "work_wakeup_inv (notify_new_work t s)"
  by (auto simp: work_wakeup_inv_def notify_new_work_def)

lemma work_inv_dispatched:
  assumes "work_wakeup_inv s" "pcs s t = NotifyDispatched"
  shows "work_wakeup_inv (notify_dispatched t s)"
  unfolding work_wakeup_inv_def
proof (intro allI impI)
  let ?s = "notify_dispatched t s"
  fix u assume u: "pcs ?s u = BlockedWork \<and> (work ?s \<noteq> [] \<or> skip_waiting ?s)"
  then have "pcs s u = BlockedWork" by (simp add: notify_dispatched_def split: if_splits)
  with u assms(1) obtain v where "pcs s v = NotifyNewWork"
    by (auto simp: work_wakeup_inv_def notify_dispatched_def)
  then have "pcs ?s v = NotifyNewWork" using assms(2) by (auto simp: notify_dispatched_def)
  then show "\<exists>v. pcs ?s v = NotifyNewWork" ..
qed

lemma work_wakeup_step:
  assumes "queue_step e s s'" "work_wakeup_inv s"
  shows "work_wakeup_inv s'"
  using assms
proof (cases rule: queue_step.cases)
  case (extraction t pol r)
  obtain w where w: "queue_extract pol (work s) = (r, w)"
      "s' = (if w = [] then at t NotifyDispatched (s\<lparr>work := w\<rparr>) else s\<lparr>work := w\<rparr>)"
    using extraction(3) by (rule try_extract_state)
  have "work_wakeup_inv (s\<lparr>work := w\<rparr>)"
    using assms(2) extract_shrinks [OF w(1)] by (intro work_inv_smaller) auto
  with extraction(2) w(2) show ?thesis by (auto intro: work_inv_moved)
next
  case (notify_disp t)
  with assms(2) show ?thesis by (simp add: work_inv_dispatched)
qed (use assms(2) in \<open>auto simp: shared_insert_def shared_emplace_def shared_mutate_def begin_skip_waiting_def
    force_wakeup_def wait_work_def wait_empty_def intro: work_inv_pending work_inv_notified work_inv_moved\<close>)

lemma reaches_work_wakeup: "reaches allowed s \<Longrightarrow> work_wakeup_inv s"
proof (induction rule: reaches.induct)
  case init
  then show ?case by (simp add: work_wakeup_inv_def SharedQueue_init_def)
next
  case (step s e s')
  then show ?case using work_wakeup_step by blast
qed

text \<open>
  C12. No wake-up is lost for \<open>wait_work\<close>: in every reachable state, under every interleaving,
  whenever a thread is blocked waiting for work although there is work or the queue is being shut
  down, some thread is about to notify it.
\<close>

theorem wait_work_never_lost:
  assumes "reaches UNIV s" "pcs s t = BlockedWork" "work s \<noteq> [] \<or> skip_waiting s"
  shows "\<exists>u. pcs s u = NotifyNewWork"
  using reaches_work_wakeup [OF assms(1)] assms(2,3) by (auto simp: work_wakeup_inv_def)

section \<open>Waiting for the queue to be empty\<close>

definition quiet :: "event set" where
  "quiet = {Extract, Insert, Force, WaitWork, WaitEmpty, Notify, Wake, SpuriousWake}"

definition empty_wakeup_inv :: "'a SharedQueue \<Rightarrow> bool" where
  "empty_wakeup_inv s \<longleftrightarrow> \<not> skip_waiting s \<and>
     (\<forall>t. pcs s t = BlockedEmpty \<and> work s = [] \<longrightarrow> (\<exists>u. pcs s u = NotifyDispatched))"

lemma empty_inv_moved:
  assumes "empty_wakeup_inv s" "pcs s t \<noteq> NotifyDispatched" "p = BlockedEmpty \<Longrightarrow> work s \<noteq> []"
  shows "empty_wakeup_inv (at t p s)"
  unfolding empty_wakeup_inv_def
proof (intro conjI allI impI)
  show "\<not> skip_waiting (at t p s)" using assms(1) by (simp add: empty_wakeup_inv_def)
  fix u assume u: "pcs (at t p s) u = BlockedEmpty \<and> work (at t p s) = []"
  with assms(3) have "pcs s u = BlockedEmpty" by (cases "u = t") auto
  with u assms(1) obtain v where "pcs s v = NotifyDispatched" by (auto simp: empty_wakeup_inv_def)
  then have "pcs (at t p s) v = NotifyDispatched" using assms(2) by (cases "v = t") auto
  then show "\<exists>v. pcs (at t p s) v = NotifyDispatched" ..
qed

lemma empty_inv_pending: "\<not> skip_waiting s \<Longrightarrow> empty_wakeup_inv (at t NotifyDispatched s)"
  by (auto simp: empty_wakeup_inv_def)

lemma empty_inv_nonempty: "\<not> skip_waiting s \<Longrightarrow> work s \<noteq> [] \<Longrightarrow> empty_wakeup_inv s"
  by (auto simp: empty_wakeup_inv_def)

lemma empty_inv_notified: "\<not> skip_waiting s \<Longrightarrow> empty_wakeup_inv (notify_dispatched t s)"
  by (auto simp: empty_wakeup_inv_def notify_dispatched_def)

lemma empty_inv_new_work:
  assumes "empty_wakeup_inv s" "pcs s t = NotifyNewWork"
  shows "empty_wakeup_inv (notify_new_work t s)"
  unfolding empty_wakeup_inv_def
proof (intro conjI allI impI)
  let ?s = "notify_new_work t s"
  show "\<not> skip_waiting ?s" using assms(1) by (simp add: empty_wakeup_inv_def notify_new_work_def)
  fix u assume u: "pcs ?s u = BlockedEmpty \<and> work ?s = []"
  then have "pcs s u = BlockedEmpty" by (simp add: notify_new_work_def split: if_splits)
  with u assms(1) obtain v where "pcs s v = NotifyDispatched"
    by (auto simp: empty_wakeup_inv_def notify_new_work_def)
  then have "pcs ?s v = NotifyDispatched" using assms(2) by (auto simp: notify_new_work_def)
  then show "\<exists>v. pcs ?s v = NotifyDispatched" ..
qed

lemma empty_wakeup_step:
  assumes "queue_step e s s'" "empty_wakeup_inv s" "e \<in> quiet"
  shows "empty_wakeup_inv s'"
proof -
  have no_skip: "\<not> skip_waiting s" using assms(2) by (simp add: empty_wakeup_inv_def)
  from assms(1) show ?thesis
  proof (cases rule: queue_step.cases)
    case (extraction t pol r)
    obtain w where "s' = (if w = [] then at t NotifyDispatched (s\<lparr>work := w\<rparr>) else s\<lparr>work := w\<rparr>)"
      using extraction(3) by (rule try_extract_state)
    with no_skip show ?thesis by (simp add: empty_inv_pending empty_inv_nonempty)
  next
    case (insert t x)
    with no_skip show ?thesis by (auto simp: shared_insert_def queue_insert_def intro!: empty_inv_nonempty)
  next
    case (emplace t f b)
    with no_skip show ?thesis by (auto simp: shared_emplace_def queue_emplace_def intro!: empty_inv_nonempty)
  next
    case (notify_new t)
    with assms(2) show ?thesis by (simp add: empty_inv_new_work)
  next
    case (notify_disp t)
    with no_skip show ?thesis by (simp add: empty_inv_notified)
  qed (use assms(2,3) in \<open>auto simp: quiet_def force_wakeup_def wait_work_def wait_empty_def intro: empty_inv_moved\<close>)
qed

lemma reaches_empty_wakeup: "reaches quiet s \<Longrightarrow> empty_wakeup_inv s"
proof (induction rule: reaches.induct)
  case init
  then show ?case by (simp add: empty_wakeup_inv_def SharedQueue_init_def)
next
  case (step s e s')
  then show ?case using empty_wakeup_step by blast
qed

text \<open>
  For \<open>wait_empty\<close> the same holds as long as nobody mutates the queue or begins to skip
  waiting: a thread blocked although the queue is empty has a notification under way.
\<close>

theorem wait_empty_not_lost_when_quiet:
  assumes "reaches quiet s" "pcs s t = BlockedEmpty" "work s = []"
  shows "\<exists>u. pcs s u = NotifyDispatched"
  using reaches_empty_wakeup [OF assms(1)] assms(2,3) by (auto simp: empty_wakeup_inv_def)

section \<open>Runs\<close>

text \<open>A waiter blocks and an item arrives: the waiter's wake-up is under way.\<close>

definition waiter_and_item :: "nat SharedQueue" where
  "waiter_and_item = \<lparr>work = [7], skip_waiting = False, pcs = (\<lambda>_. Idle)(1 := BlockedWork, 0 := NotifyNewWork)\<rparr>"

lemma reaches_waiter_and_item: "reaches UNIV waiter_and_item"
proof -
  let ?s = "wait_work 1 SharedQueue_init :: nat SharedQueue"
  have i: "pcs SharedQueue_init 1 = Idle" "pcs ?s 0 = Idle" by (simp_all add: wait_work_def SharedQueue_init_def)
  have "reaches UNIV ?s"
    by (rule reaches.step [OF reaches.init queue_step.wait_work [OF i(1)]]) simp
  moreover have "shared_insert 7 0 ?s = Ret waiter_and_item"
    by (simp add: shared_insert_def queue_insert_def wait_work_def SharedQueue_init_def int64_max_def
        waiter_and_item_def at_def)
  note queue_step.insert [OF i(2) this]
  ultimately show ?thesis by (rule reaches.step) simp
qed

theorem wait_work_never_lost_witness:
  "reaches UNIV waiter_and_item \<and> pcs waiter_and_item 1 = BlockedWork \<and> work waiter_and_item \<noteq> [] \<and>
   (\<exists>u. pcs waiter_and_item u = NotifyNewWork)"
  using wait_work_never_lost [OF reaches_waiter_and_item, of 1] reaches_waiter_and_item
  by (simp add: waiter_and_item_def)

text \<open>One item, a thread that waits for the queue to be empty, and nothing pending.\<close>

definition empty_waiter :: "nat SharedQueue" where
  "empty_waiter = \<lparr>work = [7], skip_waiting = False, pcs = (\<lambda>_. Idle)(1 := BlockedEmpty)\<rparr>"

lemma reaches_empty_waiter:
  assumes "quiet \<subseteq> allowed"
  shows "reaches allowed empty_waiter"
proof -
  let ?s1 = "\<lparr>work = [7], skip_waiting = False, pcs = (\<lambda>_. Idle)(0 := NotifyNewWork)\<rparr> :: nat SharedQueue"
  have e: "Insert \<in> allowed" "Notify \<in> allowed" "WaitEmpty \<in> allowed" using assms by (auto simp: quiet_def)
  have i: "pcs SharedQueue_init 0 = Idle" "pcs ?s1 0 = NotifyNewWork" "pcs (notify_new_work 0 ?s1) 1 = Idle"
    by (simp_all add: SharedQueue_init_def notify_new_work_def)
  have ins: "shared_insert 7 0 SharedQueue_init = Ret ?s1"
    by (simp add: shared_insert_def queue_insert_def SharedQueue_init_def int64_max_def at_def)
  note 1 = reaches.step [OF reaches.init queue_step.insert [OF i(1) ins] e(1)]
  note 2 = reaches.step [OF 1 queue_step.notify_new [OF i(2)] e(2)]
  note 3 = reaches.step [OF 2 queue_step.wait_empty [OF i(3)] e(3)]
  have "wait_empty 1 (notify_new_work 0 ?s1) = empty_waiter"
    by (auto simp: wait_empty_def notify_new_work_def empty_waiter_def at_def)
  with 3 show ?thesis by simp
qed

lemma empty_waiter_idle [simp]: "pcs empty_waiter 0 = Idle"
  by (simp add: empty_waiter_def)

theorem wait_empty_not_lost_when_quiet_witness:
  "\<exists>s :: nat SharedQueue. reaches quiet s \<and> pcs s 1 = BlockedEmpty \<and> work s = [] \<and> (\<exists>u. pcs s u = NotifyDispatched)"
proof -
  let ?s = "snd (try_extract LIFOPolicy_extract 0 empty_waiter)"
  have "queue_step Extract empty_waiter ?s"
    by (rule queue_step.extraction [of _ 0 LIFOPolicy_extract "fst (try_extract LIFOPolicy_extract 0 empty_waiter)"]) simp_all
  with reaches_empty_waiter [OF subset_refl] have "reaches quiet ?s"
    by (rule reaches.step) (simp add: quiet_def)
  moreover have "pcs ?s 1 = BlockedEmpty" "work ?s = []"
    by (simp_all add: try_extract_def queue_extract_def LIFOPolicy_extract_def empty_waiter_def)
  ultimately show ?thesis
    using wait_empty_not_lost_when_quiet [of ?s 1] by blast
qed

text \<open>
  C40. The wake-up of \<open>wait_empty\<close> is lost when the queue is emptied by \<open>mutate\<close> or the shutdown
  begins: both only notify the threads that wait for work. States are reachable in which a
  thread is blocked in \<open>wait_empty\<close> although its condition holds and no other thread is inside
  any operation of the queue.
\<close>

theorem wait_empty_wakeup_lost:
  "(\<exists>s :: nat SharedQueue. reaches UNIV s \<and> work s = [] \<and> pcs s = (\<lambda>_. Idle)(1 := BlockedEmpty)) \<and>
   (\<exists>s :: nat SharedQueue. reaches UNIV s \<and> skip_waiting s \<and> pcs s = (\<lambda>_. Idle)(1 := BlockedEmpty))"
proof -
  let ?m = "shared_mutate (\<lambda>st x. (True, x, st)) (0 :: nat) 0 empty_waiter"
  let ?k = "begin_skip_waiting 0 empty_waiter"
  note e = reaches_empty_waiter [OF subset_UNIV]
  note r = reaches.step [OF e queue_step.mutate [OF empty_waiter_idle] UNIV_I]
    reaches.step [OF e queue_step.skip [OF empty_waiter_idle] UNIV_I]
  have p: "pcs ?m 0 = NotifyNewWork" "pcs ?k 0 = NotifyNewWork"
    by (simp_all add: shared_mutate_def begin_skip_waiting_def force_wakeup_def)
  have m: "reaches UNIV (notify_new_work 0 ?m) \<and> work (notify_new_work 0 ?m) = [] \<and>
      pcs (notify_new_work 0 ?m) = (\<lambda>_. Idle)(1 := BlockedEmpty)"
    by (intro conjI reaches.step [OF r(1) queue_step.notify_new [OF p(1)] UNIV_I])
      (auto simp: notify_new_work_def shared_mutate_def force_wakeup_def empty_waiter_def)
  have k: "reaches UNIV (notify_new_work 0 ?k) \<and> skip_waiting (notify_new_work 0 ?k) \<and>
      pcs (notify_new_work 0 ?k) = (\<lambda>_. Idle)(1 := BlockedEmpty)"
    by (intro conjI reaches.step [OF r(2) queue_step.notify_new [OF p(2)] UNIV_I])
      (auto simp: notify_new_work_def begin_skip_waiting_def force_wakeup_def empty_waiter_def)
  show ?thesis by (intro conjI; rule exI, rule m k)
qed

end
