(* ===== verification/Effect.thy ===== *)
theory Effect
  imports Result_Type
begin

text \<open>
  Stateful code: a function from the state to an outcome and the new state. The state survives
  an exception, as it does in the source, where an exception leaves what was done before it.
\<close>

type_synonym ('s, 'a) eff = "'s \<Rightarrow> 'a outcome \<times> 's"

definition ret :: "'a \<Rightarrow> ('s, 'a) eff" where
  "ret x s = (Ret x, s)"

definition lift_outcome :: "'a outcome \<Rightarrow> ('s, 'a) eff" where
  "lift_outcome m s = (m, s)"

definition bind_eff :: "('s, 'a) eff \<Rightarrow> ('a \<Rightarrow> ('s, 'b) eff) \<Rightarrow> ('s, 'b) eff" where
  "bind_eff m f s = (case m s of (Ret x, s') \<Rightarrow> f x s' | (Throw e, s') \<Rightarrow> (Throw e, s') | (UB u, s') \<Rightarrow> (UB u, s'))"

lemma bind_eff_cong [fundef_cong]:
  assumes "m = m'" "s = s'" "\<And>x t. m' s' = (Ret x, t) \<Longrightarrow> f x t = f' x t"
  shows "bind_eff m f s = bind_eff m' f' s'"
  using assms by (auto simp: bind_eff_def split: prod.split outcome.split)

lemma ret_simp [simp]: "ret x s = (Ret x, s)"
  by (simp add: ret_def)

lemma lift_outcome_simp [simp]: "lift_outcome m s = (m, s)"
  by (simp add: lift_outcome_def)

lemma bind_eff_simps [simp]:
  "m s = (Ret x, s') \<Longrightarrow> bind_eff m f s = f x s'"
  "m s = (Throw e, s') \<Longrightarrow> bind_eff m f s = (Throw e, s')"
  "m s = (UB u, s') \<Longrightarrow> bind_eff m f s = (UB u, s')"
  by (simp_all add: bind_eff_def)

lemma bind_eff_ret [simp]: "bind_eff (ret x) f s = f x s"
  by simp

lemma bind_eff_assoc: "bind_eff (bind_eff m f) g s = bind_eff m (\<lambda>x. bind_eff (f x) g) s"
  by (simp add: bind_eff_def split: prod.split outcome.split)

text \<open>What holds of the state before a computation and of the state it leaves, whatever the outcome.\<close>

definition keeps :: "('s \<Rightarrow> bool) \<Rightarrow> ('s, 'a) eff \<Rightarrow> bool" where
  "keeps P m \<longleftrightarrow> (\<forall>s. P s \<longrightarrow> P (snd (m s)))"

lemma keeps_ret [intro, simp]: "keeps P (ret x)"
  by (simp add: keeps_def)

lemma keeps_lift [intro, simp]: "keeps P (lift_outcome m)"
  by (simp add: keeps_def)

lemma keeps_bind [intro]:
  assumes "keeps P m" "\<And>x. keeps P (f x)"
  shows "keeps P (bind_eff m f)"
  unfolding keeps_def
proof (intro allI impI)
  fix s assume "P s"
  obtain r s' where m: "m s = (r, s')" by (cases "m s")
  with assms(1) \<open>P s\<close> have "P s'" by (auto simp: keeps_def dest!: spec [of _ s])
  with m assms(2) show "P (snd (bind_eff m f s))"
    by (cases r) (auto simp: keeps_def)
qed

section \<open>Loops\<close>

text \<open>
  A loop that may run forever: \<open>x\<close> are the local variables, the body may leave the function
  with an error, throw, or be undefined; \<^term>\<open>None\<close> means that the loop does not return.
\<close>

partial_function (option) while_eff ::
  "('x \<Rightarrow> 's \<Rightarrow> bool) \<Rightarrow> ('x \<Rightarrow> ('s, ('x, 'e) Result) eff) \<Rightarrow> 'x \<Rightarrow> 's \<Rightarrow> (('x, 'e) Result outcome \<times> 's) option" where
  "while_eff c b x s =
     (if c x s then
        (case b x s of
           (Ret (OK x'), s') \<Rightarrow> while_eff c b x' s'
         | (r, s') \<Rightarrow> Some (r, s'))
      else Some (Ret (OK x), s))"

declare while_eff.simps [code]

lemma while_eff_done: "\<not> c x s \<Longrightarrow> while_eff c b x s = Some (Ret (OK x), s)"
  by (subst while_eff.simps) simp

lemma while_eff_step: "c x s \<Longrightarrow> b x s = (Ret (OK x'), s') \<Longrightarrow> while_eff c b x s = while_eff c b x' s'"
  by (subst while_eff.simps) simp

lemma while_eff_stop: "c x s \<Longrightarrow> b x s = (r, s') \<Longrightarrow> (\<And>x'. r \<noteq> Ret (OK x')) \<Longrightarrow> while_eff c b x s = Some (r, s')"
  by (subst while_eff.simps) (simp split: outcome.split Result.split)

text \<open>An invariant of the body holds when the loop ends; otherwise the body has left it.\<close>

lemma while_eff_invariant:
  assumes run: "while_eff c b x s = Some (r, s')" and init: "I x s"
    and keep: "\<And>x s y t. I x s \<Longrightarrow> c x s \<Longrightarrow> b x s = (Ret (OK y), t) \<Longrightarrow> I y t"
    and leave: "\<And>x s q t. I x s \<Longrightarrow> c x s \<Longrightarrow> b x s = (q, t) \<Longrightarrow> (\<And>y. q \<noteq> Ret (OK y)) \<Longrightarrow> Q q t"
  shows "(\<exists>y. r = Ret (OK y) \<and> I y s' \<and> \<not> c y s') \<or> ((\<forall>y. r \<noteq> Ret (OK y)) \<and> Q r s')"
proof -
  let ?G = "\<lambda>p. (\<exists>y. fst p = Ret (OK y) \<and> I y (snd p) \<and> \<not> c y (snd p)) \<or>
      ((\<forall>y. fst p \<noteq> Ret (OK y)) \<and> Q (fst p) (snd p))"
  have "c = c \<longrightarrow> b = b \<longrightarrow> I x s \<longrightarrow> ?G (r, s')"
  proof (rule while_eff.raw_induct [where xa = "(((c, b), x), s)" and y = "(r, s')" and
        P = "\<lambda>c' b' x s p. c' = c \<longrightarrow> b' = b \<longrightarrow> I x s \<longrightarrow> ?G p", unfolded prod.case, OF _ run], intro impI)
    fix loop c' b' x s p
    assume IH: "\<And>c' b' x s p. loop c' b' x s = Some p \<Longrightarrow> c' = c \<longrightarrow> b' = b \<longrightarrow> I x s \<longrightarrow> ?G p"
      and body: "(if c' x s then case b' x s of (Ret (OK y), t) \<Rightarrow> loop c' b' y t | (r, t) \<Rightarrow> Some (r, t)
          else Some (Ret (OK x), s)) = Some p"
      and eq: "c' = c" "b' = b" and i: "I x s"
    show "?G p"
    proof (cases "c x s")
      case True
      obtain q t where bxs: "b x s = (q, t)" by (cases "b x s")
      show ?thesis
      proof (cases "\<exists>y. q = Ret (OK y)")
        case ok: True
        then obtain y where "q = Ret (OK y)" by blast
        with body eq True bxs IH [of c b y t p] keep [OF i True, of y t] show ?thesis by simp
      next
        case False
        with body eq True bxs have "p = (q, t)" by (auto split: outcome.splits Result.splits)
        with False leave [OF i True bxs] show ?thesis by simp
      qed
    qed (use body eq i in auto)
  qed
  with init show ?thesis by simp
qed

lemma while_eff_invariant_Ret:
  assumes "while_eff c b x s = Some (Ret (OK y), s')" "I x s"
    and "\<And>x s y t. I x s \<Longrightarrow> c x s \<Longrightarrow> b x s = (Ret (OK y), t) \<Longrightarrow> I y t"
  shows "I y s'" and "\<not> c y s'"
  using while_eff_invariant [where I = I and Q = "\<lambda>_ _. True", OF assms] by auto

text \<open>A loop whose body makes a measure smaller returns.\<close>

lemma while_eff_returns:
  fixes m :: "'x \<Rightarrow> 's \<Rightarrow> nat"
  assumes "I x s"
    and "\<And>x s y t. I x s \<Longrightarrow> c x s \<Longrightarrow> b x s = (Ret (OK y), t) \<Longrightarrow> I y t \<and> m y t < m x s"
  shows "\<exists>r s'. while_eff c b x s = Some (r, s')"
  using assms(1)
proof (induction "m x s" arbitrary: x s rule: less_induct)
  case less
  show ?case
  proof (cases "c x s")
    case True
    obtain q t where b: "b x s = (q, t)" by (cases "b x s")
    show ?thesis
    proof (cases "\<exists>y. q = Ret (OK y)")
      case ok: True
      then obtain y where "q = Ret (OK y)" by blast
      with True b assms(2) [OF less.prems True, of y t] less.hyps [of y t] show ?thesis
        by (auto simp: while_eff_step)
    next
      case False
      with True b show ?thesis by (auto simp: while_eff_stop)
    qed
  qed (auto simp: while_eff_done)
qed

end
