(* ===== verification/Platform_IO.thy ===== *)
theory Platform_IO
  imports Effect Hash
begin

text \<open>
  The file operations (platform/io.hpp, platform/io.cpp) over a model of the file system: a map
  from paths to directories and regular files. The set \<open>denied\<close> holds the paths on which the
  operating system refuses to operate; it is how the error branches are reached. The components
  \<open>..\<close> of a path and symbolic links are not resolved.
\<close>

section \<open>The file system\<close>

type_synonym path = "string list"

datatype node = Dir | Regular bytes

record FS =
  nodes :: "path \<Rightarrow> node option"
  denied :: "path set"

fun path_parts :: "string \<Rightarrow> string list" where
  "path_parts [] = [[]]"
| "path_parts (c # cs) =
     (if c = CHR ''/'' then [] # path_parts cs
      else case path_parts cs of w # ws \<Rightarrow> (c # w) # ws | [] \<Rightarrow> [[c]])"

definition to_path :: "string \<Rightarrow> path" where
  "to_path s = (if take 1 s = ''/'' then [''/''] else [])
     @ filter (\<lambda>w. w \<noteq> [] \<and> w \<noteq> ''.'') (path_parts s)"

text \<open>The working directory and the root exist.\<close>

definition node_at :: "FS \<Rightarrow> path \<Rightarrow> node option" where
  "node_at fs p = (if p = [] \<or> p = [''/''] then Some Dir else nodes fs p)"

definition set_node :: "path \<Rightarrow> node option \<Rightarrow> FS \<Rightarrow> FS" where
  "set_node p n fs = fs\<lparr>nodes := (nodes fs)(p := n)\<rparr>"

datatype IOError =
    GenericIOError | CannotOpenFile | InvalidPath | PathDoesNotExists | FileAlreadyExists | DirectoryAlreadyExists

type_synonym 'a IOResult = "('a, IOError) Result"

text \<open>Opening for writing creates the file or cuts it to length zero; the parent has to be a directory.\<close>

definition open_out :: "path \<Rightarrow> (FS, bool) eff" where
  "open_out p fs =
     (if p \<notin> denied fs \<and> p \<noteq> [] \<and> node_at fs (butlast p) = Some Dir \<and> node_at fs p \<noteq> Some Dir
      then (Ret True, set_node p (Some (Regular [])) fs) else (Ret False, fs))"

text \<open>Writing at a position past the end leaves a gap of null bytes.\<close>

definition overwrite :: "bytes \<Rightarrow> nat \<Rightarrow> bytes \<Rightarrow> bytes" where
  "overwrite c off bs =
     (if bs = [] then c else take off (c @ replicate (off - length c) 0) @ bs @ drop (off + length bs) c)"

text \<open>The missing directories on the way to a path, outermost first.\<close>

definition ancestors :: "path \<Rightarrow> path list" where
  "ancestors p = tl (prefixes p)"

section \<open>Operations\<close>

definition exists_path :: "string \<Rightarrow> (FS, bool IOResult) eff" where
  "exists_path file_name fs =
     (if to_path file_name \<in> denied fs then (Ret (ERROR GenericIOError), fs)
      else (Ret (OK (node_at fs (to_path file_name) \<noteq> None)), fs))"

definition touch :: "string \<Rightarrow> int \<Rightarrow> (FS, unit IOResult) eff" where
  "touch file_name sz =
     bind_eff (exists_path file_name) (\<lambda>existence.
       case existence of
         ERROR e \<Rightarrow> ret (ERROR GenericIOError)
       | OK True \<Rightarrow> ret (ERROR FileAlreadyExists)
       | OK False \<Rightarrow>
           bind_eff (open_out (to_path file_name)) (\<lambda>good.
             if \<not> good then ret (ERROR GenericIOError)
             else if sz = 0 then lift_outcome (Throw invalid_argument)
             else bind_eff (lift_outcome (sub64 sz 1)) (\<lambda>pos.
               if pos < 0 then ret (ERROR GenericIOError)
               else (\<lambda>fs. (Ret (OK ()), set_node (to_path file_name)
                             (Some (Regular (overwrite [] (nat pos) [0x31]))) fs)))))"

definition remove :: "string \<Rightarrow> (FS, unit IOResult) eff" where
  "remove file_name fs =
     (let p = to_path file_name in
      if p \<in> denied fs then (Ret (ERROR GenericIOError), fs)
      else (Ret (OK ()), fs\<lparr>nodes := (\<lambda>q. if prefix p q then None else nodes fs q)\<rparr>))"

definition write_bytes :: "string \<Rightarrow> bytes \<Rightarrow> int \<Rightarrow> (FS, unit IOResult) eff" where
  "write_bytes file_name bs offset fs =
     (let p = to_path file_name in
      case (if p \<in> denied fs then None else node_at fs p) of
        Some (Regular c) \<Rightarrow>
          if int (length bs) > int64_max then (Throw invalid_argument, fs)
          else if offset < 0 then (Ret (ERROR GenericIOError), fs)
          else (Ret (OK ()), set_node p (Some (Regular (overwrite c (nat offset) bs))) fs)
      | _ \<Rightarrow> (Ret (ERROR GenericIOError), fs))"

definition strip_last :: "string \<Rightarrow> string option" where
  "strip_last path = (if CHR ''/'' \<in> set path
     then Some (rev (tl (dropWhile (\<lambda>c. c \<noteq> CHR ''/'') (rev path)))) else None)"

fun is_regular :: "node option \<Rightarrow> bool" where
  "is_regular (Some (Regular c)) \<longleftrightarrow> True"
| "is_regular _ \<longleftrightarrow> False"

definition make_dirs :: "path \<Rightarrow> FS \<Rightarrow> FS" where
  "make_dirs p fs = fold (\<lambda>q fs. if node_at fs q = None then set_node q (Some Dir) fs else fs) (ancestors p) fs"

definition create_directories :: "string \<Rightarrow> bool \<Rightarrow> (FS, string IOResult) eff" where
  "create_directories path skip_last fs =
     (case (if skip_last then strip_last path else Some path) of
        None \<Rightarrow> (Ret (ERROR InvalidPath), fs)
      | Some real_path \<Rightarrow>
          let p = to_path real_path in
          if real_path = '''' \<or> p \<in> denied fs \<or> (\<exists>q \<in> set (ancestors p). is_regular (node_at fs q))
          then (Ret (ERROR GenericIOError), fs)
          else (Ret (OK real_path), make_dirs p fs))"

definition load_file_text :: "string \<Rightarrow> (FS, string IOResult) eff" where
  "load_file_text file_name fs =
     (if to_path file_name \<in> denied fs then (Ret (ERROR CannotOpenFile), fs)
      else case node_at fs (to_path file_name) of
        None \<Rightarrow> (Ret (ERROR CannotOpenFile), fs)
      | Some Dir \<Rightarrow> (Ret (OK ''''), fs)
      | Some (Regular c) \<Rightarrow> (Ret (OK (map char_of_byte c)), fs))"

section \<open>What is on the disk\<close>

text \<open>The bytes of a regular file that can be opened.\<close>

definition file_at :: "FS \<Rightarrow> path \<Rightarrow> bytes option" where
  "file_at fs p = (if p \<in> denied fs then None
     else case node_at fs p of Some (Regular c) \<Rightarrow> Some c | _ \<Rightarrow> None)"

lemma node_at_set_node [simp]:
  "q \<noteq> [] \<Longrightarrow> q \<noteq> [''/''] \<Longrightarrow> node_at (set_node p n fs) q = (if q = p then n else node_at fs q)"
  "node_at (set_node p n fs) [] = Some Dir"
  "node_at (set_node p n fs) [''/''] = Some Dir"
  by (simp_all add: node_at_def set_node_def)

lemma node_at_set_other [simp]: "q \<noteq> p \<Longrightarrow> node_at (set_node p n fs) q = node_at fs q"
  by (simp add: node_at_def set_node_def)

lemma node_at_set_Dir [simp]: "node_at (set_node p (Some Dir) fs) p = Some Dir"
  by (simp add: node_at_def set_node_def)

lemma denied_set_node [simp]: "denied (set_node p n fs) = denied fs"
  by (simp add: set_node_def)

lemma file_at_Some_iff [simp]:
  "file_at fs p = Some c \<longleftrightarrow> p \<notin> denied fs \<and> nodes fs p = Some (Regular c) \<and> p \<noteq> [] \<and> p \<noteq> [''/'']"
  by (auto simp: file_at_def node_at_def split: option.splits node.splits if_splits)

lemma length_overwrite [simp]:
  "length (overwrite c off bs) = (if bs = [] then length c else max (length c) (off + length bs))"
  by (auto simp: overwrite_def)

lemma overwrite_inside:
  "off + length bs \<le> length c \<Longrightarrow> overwrite c off bs = take off c @ bs @ drop (off + length bs) c"
  by (auto simp: overwrite_def)

lemma overwrite_nth:
  assumes "i < length c" "off + length bs \<le> length c"
  shows "overwrite c off bs ! i = (if off \<le> i \<and> i < off + length bs then bs ! (i - off) else c ! i)"
  using assms by (auto simp: overwrite_inside nth_append)

lemma overwrite_all: "length bs = length c \<Longrightarrow> overwrite c 0 bs = bs"
  by (cases "bs = []") (simp_all add: overwrite_def)

section \<open>A disk of files as an interface\<close>

text \<open>
  What the code that saves pieces relies on: a write at an offset inside a file succeeds,
  replaces the bytes there, and leaves every other file alone.
\<close>

locale disk =
  fixes content :: "'d \<Rightarrow> 'k \<Rightarrow> bytes option"
    and key :: "'n \<Rightarrow> 'k"
    and wr :: "'n \<Rightarrow> bytes \<Rightarrow> int \<Rightarrow> 'd \<Rightarrow> (unit, 'e) Result outcome \<times> 'd"
  assumes wr_ok:
      "content d (key n) = Some c \<Longrightarrow> 0 \<le> off \<Longrightarrow> int (length bs) \<le> int64_max \<Longrightarrow>
         fst (wr n bs off d) = Ret (OK ())"
    and wr_content:
      "content d (key n) = Some c \<Longrightarrow> 0 \<le> off \<Longrightarrow> int (length bs) \<le> int64_max \<Longrightarrow>
         content (snd (wr n bs off d)) (key n) = Some (overwrite c (nat off) bs)"
    and wr_other: "k \<noteq> key n \<Longrightarrow> content (snd (wr n bs off d)) k = content d k"
begin

definition wr_all :: "'n \<Rightarrow> (int \<times> bytes) list \<Rightarrow> 'd \<Rightarrow> 'd" where
  "wr_all n ws d = fold (\<lambda>(off, bs) d. snd (wr n bs off d)) ws d"

text \<open>A list of chunks that lie inside a file, and all agree with one content, write that content where they lie.\<close>

lemma wr_all_agree:
  assumes "content d (key n) = Some c" "length c = length full" "int (length full) \<le> int64_max"
    and "\<forall>(off, bs) \<in> set ws. 0 \<le> off \<and> nat off + length bs \<le> length full \<and>
           bs = take (length bs) (drop (nat off) full)"
  shows "\<exists>c'. content (wr_all n ws d) (key n) = Some c' \<and> length c' = length full \<and>
     (\<forall>i < length full. c' ! i =
        (if \<exists>(off, bs) \<in> set ws. nat off \<le> i \<and> i < nat off + length bs then full ! i else c ! i))"
  using assms
proof (induction ws arbitrary: d c)
  case Nil
  then show ?case by (auto simp: wr_all_def)
next
  case (Cons w ws)
  obtain off bs where w: "w = (off, bs)" by (cases w)
  with Cons.prems have o: "0 \<le> off" "nat off + length bs \<le> length full"
    and bs: "bs = take (length bs) (drop (nat off) full)" by auto
  let ?c = "overwrite c (nat off) bs"
  have "int (length bs) \<le> int64_max" using o(2) Cons.prems(3) by linarith
  then have c: "content (snd (wr n bs off d)) (key n) = Some ?c"
    using Cons.prems(1) o(1) by (intro wr_content) auto
  have l: "length ?c = length full" using o Cons.prems(2) by auto
  have nth: "?c ! i = (if nat off \<le> i \<and> i < nat off + length bs then full ! i else c ! i)" if "i < length full" for i
  proof -
    have "bs ! (i - nat off) = full ! i" if "nat off \<le> i" "i < nat off + length bs"
      using that o by (subst bs) (simp add: nth_take)
    then show ?thesis using that o Cons.prems(2) by (simp add: overwrite_nth)
  qed
  from Cons.IH [OF c l Cons.prems(3)] Cons.prems(4) obtain c' where
    "content (wr_all n ws (snd (wr n bs off d))) (key n) = Some c'" "length c' = length full"
    "\<forall>i < length full. c' ! i =
       (if \<exists>(off, bs) \<in> set ws. nat off \<le> i \<and> i < nat off + length bs then full ! i else ?c ! i)"
    by auto
  then show ?case using nth by (auto simp: wr_all_def w)
qed

text \<open>Chunks that cover the file write the whole content, in whatever order they come.\<close>

lemma wr_all_complete:
  assumes "content d (key n) = Some c" "length c = length full" "int (length full) \<le> int64_max"
    and "\<forall>(off, bs) \<in> set ws. 0 \<le> off \<and> nat off + length bs \<le> length full \<and>
           bs = take (length bs) (drop (nat off) full)"
    and "\<forall>i < length full. \<exists>(off, bs) \<in> set ws. nat off \<le> i \<and> i < nat off + length bs"
  shows "content (wr_all n ws d) (key n) = Some full"
  using wr_all_agree [OF assms(1-4)] assms(5) by (auto intro!: nth_equalityI)

end

lemma write_bytes_Regular:
  assumes "file_at fs (to_path n) = Some c" "0 \<le> off" "int (length bs) \<le> int64_max"
  shows "write_bytes n bs off fs =
     (Ret (OK ()), set_node (to_path n) (Some (Regular (overwrite c (nat off) bs))) fs)"
  using assms by (simp add: write_bytes_def Let_def node_at_def)

lemma write_bytes_other:
  "k \<noteq> to_path n \<Longrightarrow> file_at (snd (write_bytes n bs off fs)) k = file_at fs k"
  by (auto simp: write_bytes_def Let_def file_at_def split: option.split node.split)

interpretation io_disk: disk file_at to_path write_bytes
proof
  fix d :: FS and n :: string and c bs :: bytes and off :: int
  assume a: "file_at d (to_path n) = Some c" "0 \<le> off" "int (length bs) \<le> int64_max"
  show "fst (write_bytes n bs off d) = Ret (OK ())"
    by (simp add: write_bytes_Regular [OF a])
  show "file_at (snd (write_bytes n bs off d)) (to_path n) = Some (overwrite c (nat off) bs)"
    unfolding write_bytes_Regular [OF a] using a(1) by (simp add: set_node_def)
qed (rule write_bytes_other)

section \<open>Creating directories and files\<close>

lemma ancestors_Nil [simp]: "ancestors [] = []"
  by (simp add: ancestors_def)

lemma prefixes_not_Nil [simp]: "prefixes p \<noteq> []"
  by (cases p) simp_all

lemma ancestors_snoc: "ancestors (p @ [c]) = ancestors p @ [p @ [c]]"
  by (simp add: ancestors_def prefixes_snoc tl_append2)

lemma set_ancestors: "set (ancestors p) = {q. prefix q p \<and> q \<noteq> []}"
  by (induction p rule: rev_induct) (auto simp: ancestors_snoc)

lemma make_dirs_snoc:
  "make_dirs (p @ [c]) fs = (let fs' = make_dirs p fs in
     if node_at fs' (p @ [c]) = None then set_node (p @ [c]) (Some Dir) fs' else fs')"
  by (simp add: make_dirs_def ancestors_snoc Let_def)

lemma make_dirs_node_at:
  "node_at (make_dirs p fs) q = (if q \<in> set (ancestors p) \<and> node_at fs q = None then Some Dir else node_at fs q)"
proof (induction p arbitrary: q rule: rev_induct)
  case Nil
  then show ?case by (simp add: make_dirs_def)
next
  case (snoc c p)
  have "p @ [c] \<notin> set (ancestors p)" by (auto simp: set_ancestors dest: prefix_length_le)
  then show ?case
    by (cases "q = p @ [c]") (auto simp: make_dirs_snoc Let_def snoc ancestors_snoc)
qed

lemma make_dirs_denied [simp]: "denied (make_dirs p fs) = denied fs"
proof (induction p rule: rev_induct)
  case (snoc c p)
  then show ?case by (simp add: make_dirs_snoc Let_def)
qed (simp add: make_dirs_def)

lemma make_dirs_file_at [simp]: "file_at (make_dirs p fs) q = file_at fs q"
  by (auto simp: file_at_def make_dirs_node_at split: option.split)

lemma create_directories_OK:
  assumes "create_directories d b fs = (Ret (OK r), fs')"
  shows "r = d \<or> b" and "fs' = make_dirs (to_path r) fs"
    and "node_at fs' (to_path r) = Some Dir" and "file_at fs' = file_at fs" and "denied fs' = denied fs"
proof -
  from assms have r: "(if b then strip_last d else Some d) = Some r"
    and fs: "fs' = make_dirs (to_path r) fs"
    and no: "\<not> (\<exists>q \<in> set (ancestors (to_path r)). is_regular (node_at fs q))"
    by (auto simp: create_directories_def Let_def split: option.splits if_splits)
  show "r = d \<or> b" using r by (simp split: if_splits)
  show "fs' = make_dirs (to_path r) fs" by (rule fs)
  show "file_at fs' = file_at fs" "denied fs' = denied fs" by (auto simp: fs)
  show "node_at fs' (to_path r) = Some Dir"
  proof (cases "to_path r = []")
    case False
    then have "to_path r \<in> set (ancestors (to_path r))" by (simp add: set_ancestors)
    with no show ?thesis
      by (cases "node_at fs (to_path r)" rule: is_regular.cases) (auto simp: fs make_dirs_node_at)
  qed (simp add: node_at_def)
qed

lemma create_directories_not_OK:
  assumes "create_directories d b fs = (r, fs')" "\<And>x. r \<noteq> Ret (OK x)"
  shows "fs' = fs"
  using assms by (auto simp: create_directories_def Let_def split: option.splits if_splits)

lemma touch_OK:
  assumes "touch n sz fs = (Ret (OK ()), fs')"
  shows "0 < sz" and "node_at fs (to_path n) = None"
    and "fs' = set_node (to_path n) (Some (Regular (replicate (nat (sz - 1)) 0 @ [0x31])))
                 (set_node (to_path n) (Some (Regular [])) fs)"
  using assms
  by (auto simp: touch_def exists_path_def open_out_def bind_eff_def overwrite_def sub64_def int64_check_def
      split: if_splits Result.splits bool.splits)

lemma touch_file_at:
  assumes "touch n sz fs = (Ret (OK ()), fs')"
  shows "\<exists>c. file_at fs' (to_path n) = Some c \<and> int (length c) = sz"
    and "k \<noteq> to_path n \<Longrightarrow> file_at fs' k = file_at fs k"
    and "file_at fs (to_path n) = None"
proof -
  note t = touch_OK [OF assms]
  have "to_path n \<notin> denied fs" using assms by (auto simp: touch_def exists_path_def bind_eff_def split: if_splits)
  then show "\<exists>c. file_at fs' (to_path n) = Some c \<and> int (length c) = sz"
    using t by (auto simp: set_node_def node_at_def split: if_splits)
  show "file_at fs (to_path n) = None" using t(2) by (simp add: file_at_def)
  show "k \<noteq> to_path n \<Longrightarrow> file_at fs' k = file_at fs k" by (simp add: t(3) file_at_def)
qed

lemma touch_zero_throws:
  assumes "to_path n \<notin> denied fs" "node_at fs (to_path n) = None" "node_at fs (butlast (to_path n)) = Some Dir"
  shows "touch n 0 fs = (Throw invalid_argument, set_node (to_path n) (Some (Regular [])) fs)"
  using assms by (auto simp: touch_def exists_path_def open_out_def bind_eff_def node_at_def)

lemma touch_only_here:
  assumes "k \<noteq> to_path n"
  shows "file_at (snd (touch n sz fs)) k = file_at fs k"
  using assms by (auto simp: touch_def exists_path_def open_out_def bind_eff_def file_at_def
      split: Result.split bool.split outcome.split)

lemma remove_file_at:
  "to_path n \<notin> denied fs \<Longrightarrow>
     remove n fs = (Ret (OK ()), snd (remove n fs)) \<and>
     file_at (snd (remove n fs)) q = (if prefix (to_path n) q then None else file_at fs q)"
  by (auto simp: remove_def Let_def file_at_def node_at_def)

text \<open>What was written is what a later load of the file returns.\<close>

lemma load_after_write:
  assumes "file_at fs (to_path n) = Some c" "0 \<le> off" "int (length bs) \<le> int64_max"
  shows "fst (load_file_text n (snd (write_bytes n bs off fs)))
           = Ret (OK (map char_of_byte (overwrite c (nat off) bs)))"
  unfolding write_bytes_Regular [OF assms] using assms(1)
  by (auto simp: load_file_text_def node_at_def set_node_def)

lemma write_bytes_OK:
  assumes "write_bytes n bs off fs = (Ret (OK ()), fs')"
  obtains c where "file_at fs (to_path n) = Some c" "0 \<le> off" "int (length bs) \<le> int64_max"
    "file_at fs' (to_path n) = Some (overwrite c (nat off) bs)"
proof -
  obtain c where c: "file_at fs (to_path n) = Some c" "0 \<le> off" "int (length bs) \<le> int64_max"
    using assms by (auto simp: write_bytes_def Let_def node_at_def split: if_splits option.splits node.splits)
  with io_disk.wr_content [OF c] assms that show thesis by simp
qed

declare file_at_Some_iff [simp del]

end
