(* ===== verification/Thread_Group.thy ===== *)
theory Thread_Group
  imports Effect
begin

text \<open>
  The thread group (mt/group.hpp, mt/group.inl, mt/group.cpp). A thread of the group is running,
  has left its function, or has been joined. Joining a running thread blocks: the operations that
  join return \<^term>\<open>None\<close> while a thread they wait for still runs. The number of hardware threads
  is what the platform reports, an argument of \<open>launch\<close>.
\<close>

section \<open>Definitions\<close>

datatype thread_status = Running | Finished | Joined

record 'st ThreadGroup =
  threads :: "(int \<times> thread_status) list"
  states :: "'st list"
  should_terminate :: bool

definition ThreadGroup_init :: "'st ThreadGroup" where
  "ThreadGroup_init = \<lparr>threads = [], states = [], should_terminate = False\<rparr>"

definition Runner_alive :: "'st ThreadGroup \<Rightarrow> bool" where
  "Runner_alive g \<longleftrightarrow> \<not> should_terminate g"

definition resize :: "'a \<Rightarrow> nat \<Rightarrow> 'a list \<Rightarrow> 'a list" where
  "resize x n xs = take n (xs @ replicate (n - length xs) x)"

definition launch_size :: "int \<Rightarrow> int \<Rightarrow> int" where
  "launch_size hardware_concurrency max_worker_threads =
     (if max_worker_threads \<noteq> 0 then min hardware_concurrency max_worker_threads else hardware_concurrency)"

definition launch :: "int \<Rightarrow> 'st \<Rightarrow> int \<Rightarrow> ('st ThreadGroup, unit) eff" where
  "launch hardware_concurrency default_state max_worker_threads g =
     (if max_worker_threads < 0 then (Throw invalid_argument, g)
      else let sz = launch_size hardware_concurrency max_worker_threads in
        (Ret (), g\<lparr>states := resize default_state (nat sz) (states g),
                   threads := threads g @ map (\<lambda>i. (i, Running)) [0..sz - 1]\<rparr>))"

text \<open>What a thread runs: the group's function on the thread's own state, found by its index.\<close>

definition group_thread_main :: "(bool \<Rightarrow> 'st \<Rightarrow> int \<Rightarrow> 'r) \<Rightarrow> int \<Rightarrow> 'st ThreadGroup \<Rightarrow> 'r outcome" where
  "group_thread_main thread_fn index g =
     (if 0 \<le> index \<and> index < int (length (states g))
      then Ret (thread_fn (Runner_alive g) (states g ! nat index) index) else Throw out_of_range)"

text \<open>A thread leaves its function.\<close>

definition thread_exits :: "nat \<Rightarrow> 'st ThreadGroup \<Rightarrow> 'st ThreadGroup" where
  "thread_exits k g = (if k < length (threads g) \<and> snd (threads g ! k) = Running
     then g\<lparr>threads := (threads g)[k := (fst (threads g ! k), Finished)]\<rparr> else g)"

fun join_all :: "(int \<times> thread_status) list \<Rightarrow> (unit outcome \<times> (int \<times> thread_status) list) option" where
  "join_all [] = Some (Ret (), [])"
| "join_all ((i, Running) # ts) = None"
| "join_all ((i, Joined) # ts) = Some (Throw system_error, (i, Joined) # ts)"
| "join_all ((i, Finished) # ts) =
     map_option (\<lambda>(r, ts'). (r, (i, Joined) # ts')) (join_all ts)"

text \<open>Under the mutex the flag is set; then the threads are joined in order.\<close>

definition set_terminate :: "'st ThreadGroup \<Rightarrow> 'st ThreadGroup" where
  "set_terminate g = g\<lparr>should_terminate := True\<rparr>"

definition terminate :: "'st ThreadGroup \<Rightarrow> (unit outcome \<times> 'st ThreadGroup) option" where
  "terminate g = map_option (\<lambda>(r, ts). (r, (set_terminate g)\<lparr>threads := ts\<rparr>)) (join_all (threads g))"

definition ThreadGroup_destroy :: "'st ThreadGroup \<Rightarrow> (unit outcome \<times> 'st ThreadGroup) option" where
  "ThreadGroup_destroy g = (if \<not> should_terminate g then terminate g else Some (Ret (), g))"

definition get_states :: "'st ThreadGroup \<Rightarrow> 'st list" where
  "get_states g = states g"

definition get_worker_count :: "'st ThreadGroup \<Rightarrow> int" where
  "get_worker_count g = int (length (states g))"

section \<open>Lemmas\<close>

lemma length_resize [simp]: "length (resize x n xs) = n"
  by (simp add: resize_def)

lemma join_all_Ret_iff:
  "join_all ts = Some (Ret (), ts') \<longleftrightarrow>
     (\<forall>t \<in> set ts. snd t = Finished) \<and> ts' = map (\<lambda>(i, s). (i, Joined)) ts"
  by (induction ts arbitrary: ts' rule: join_all.induct) auto

lemma join_all_Joined:
  "ts \<noteq> [] \<Longrightarrow> \<forall>t \<in> set ts. snd t = Joined \<Longrightarrow> join_all ts = Some (Throw system_error, ts)"
  by (cases ts rule: join_all.cases) auto

lemma launch_threads:
  assumes "launch hw d m g = (Ret (), g')"
  shows "threads g' = threads g @ map (\<lambda>i. (i, Running)) [0..launch_size hw m - 1]"
    and "length (states g') = nat (launch_size hw m)" and "should_terminate g' = should_terminate g"
  using assms by (auto simp: launch_def Let_def split: if_splits)

text \<open>Every thread of a group launched once finds its own state.\<close>

lemma launched_thread_has_state:
  assumes "launch hw d m ThreadGroup_init = (Ret (), g)" "(i, st) \<in> set (threads g)"
  shows "\<exists>r. group_thread_main f i g = Ret r"
  using launch_threads [OF assms(1)] assms(2)
  by (auto simp: ThreadGroup_init_def group_thread_main_def)

lemma terminate_joins:
  assumes "terminate g = Some (Ret (), g')"
  shows "\<forall>t \<in> set (threads g'). snd t = Joined" and "\<not> Runner_alive g'"
  using assms by (auto simp: terminate_def join_all_Ret_iff Runner_alive_def set_terminate_def)

text \<open>
  Terminating a second time joins threads that are no longer joinable and throws; the destructor
  avoids it by looking at the flag.
\<close>

lemma terminate_twice:
  assumes "terminate g = Some (Ret (), g')" "threads g \<noteq> []"
  shows "map_option fst (terminate g') = Some (Throw system_error)"
    and "ThreadGroup_destroy g' = Some (Ret (), g')"
proof -
  have "threads g' \<noteq> []" using assms by (auto simp: terminate_def join_all_Ret_iff)
  with terminate_joins(1) [OF assms(1)] show "map_option fst (terminate g') = Some (Throw system_error)"
    by (simp add: terminate_def join_all_Joined)
  show "ThreadGroup_destroy g' = Some (Ret (), g')"
    using terminate_joins(2) [OF assms(1)] by (simp add: ThreadGroup_destroy_def Runner_alive_def)
qed

end
