(* ===== verification/Socket.thy ===== *)
theory Socket
  imports Effect
begin

text \<open>
  The socket with timeouts (download/socket.hpp, download/socket.cpp). Asio is not part of the
  sources: its operations are the fields of a record \<open>'w asio\<close> that every definition takes as
  an argument, over a type \<open>'w\<close> of states of the engine and of the network behind it.
\<close>

section \<open>The parameter\<close>

datatype error_code = no_error | operation_aborted | other_error

text \<open>
  \<open>callback_ec\<close> is the code the completion handler of the last scheduled operation was called
  with, if it was called; \<open>received\<close> are the bytes that operation has put into its buffer.
  \<open>sock_shutdown\<close> and \<open>sock_close\<close> say whether they return normally or throw a \<open>system_error\<close>.
  \<open>now\<close> is the steady clock, in nanoseconds.
\<close>

record 'w asio =
  new_engine :: "'w \<Rightarrow> 'w"
  async_connect :: "32 word \<Rightarrow> 16 word \<Rightarrow> 'w \<Rightarrow> 'w"
  async_write :: "bytes \<Rightarrow> 'w \<Rightarrow> 'w"
  async_read :: "nat \<Rightarrow> 'w \<Rightarrow> 'w"
  ctx_restart :: "'w \<Rightarrow> 'w"
  ctx_run_for :: "int \<Rightarrow> 'w \<Rightarrow> 'w"
  ctx_run :: "'w \<Rightarrow> 'w"
  ctx_stopped :: "'w \<Rightarrow> bool"
  sock_shutdown :: "'w \<Rightarrow> bool \<times> 'w"
  sock_close :: "'w \<Rightarrow> bool \<times> 'w"
  sock_is_open :: "'w \<Rightarrow> bool"
  callback_ec :: "'w \<Rightarrow> error_code option"
  received :: "'w \<Rightarrow> bytes"
  now :: "'w \<Rightarrow> int"

section \<open>Definitions\<close>

datatype SocketError = Timeout | Other

definition seconds :: "int \<Rightarrow> int" where
  "seconds n = n * 1000000000"

definition milliseconds :: "int \<Rightarrow> int" where
  "milliseconds n = n * 1000000"

text \<open>
  \<open>run\<close>: after the time is over the socket is shut down and closed, whether or not that throws,
  and the cancelled operations run to their end.
\<close>

definition socket_run :: "'w asio \<Rightarrow> int \<Rightarrow> 'w \<Rightarrow> 'w" where
  "socket_run A timeout w =
     (let w1 = ctx_run_for A timeout (ctx_restart A w) in
      if \<not> ctx_stopped A w1 then
        let w2 = snd (sock_shutdown A w1); w3 = snd (sock_close A w2) in ctx_run A w3
      else w1)"

text \<open>The variable \<open>ec\<close> that the handler assigns; it keeps its initial value when the handler is not called.\<close>

definition handler_ec :: "'w asio \<Rightarrow> 'w \<Rightarrow> error_code" where
  "handler_ec A w = (case callback_ec A w of Some ec \<Rightarrow> ec | None \<Rightarrow> no_error)"

definition ec_result :: "error_code \<Rightarrow> 'a \<Rightarrow> ('a, SocketError) Result" where
  "ec_result ec x = (case ec of no_error \<Rightarrow> OK x | operation_aborted \<Rightarrow> ERROR Timeout | other_error \<Rightarrow> ERROR Other)"

definition socket_connect :: "'w asio \<Rightarrow> 32 word \<Rightarrow> 16 word \<Rightarrow> int \<Rightarrow> ('w, (unit, SocketError) Result) eff" where
  "socket_connect A ip port timeout w =
     (let w' = socket_run A timeout (async_connect A ip port w) in
      (Ret (ec_result (handler_ec A w') ()), w'))"

definition socket_is_open :: "'w asio \<Rightarrow> 'w \<Rightarrow> bool" where
  "socket_is_open A w = sock_is_open A w"

definition socket_write :: "'w asio \<Rightarrow> bytes \<Rightarrow> int \<Rightarrow> ('w, (unit, SocketError) Result) eff" where
  "socket_write A buf timeout w =
     (let w' = socket_run A timeout (async_write A buf w) in
      (Ret (ec_result (handler_ec A w') ()), w'))"

text \<open>The buffer handed to asio has \<open>n\<close> bytes, whatever is received.\<close>

definition fill_buffer :: "nat \<Rightarrow> bytes \<Rightarrow> bytes" where
  "fill_buffer n bs = take n (bs @ replicate n 0)"

definition socket_read :: "'w asio \<Rightarrow> int \<Rightarrow> int \<Rightarrow> ('w, (bytes, SocketError) Result) eff" where
  "socket_read A n timeout w =
     (if n < 0 then (Throw invalid_argument, w)
      else let w' = socket_run A timeout (async_read A (nat n) w) in
        (Ret (ec_result (handler_ec A w') (fill_buffer (nat n) (received A w'))), w'))"

definition socket_close :: "'w asio \<Rightarrow> ('w, (unit, SocketError) Result) eff" where
  "socket_close A w =
     (let w1 = snd (sock_shutdown A w); (closed, w2) = sock_close A w1 in
      if \<not> closed then (Ret (ERROR Other), w2) else (Ret (OK ()), ctx_run A w2))"

section \<open>Lemmas\<close>

lemma length_fill_buffer [simp]: "length (fill_buffer n bs) = n"
  by (simp add: fill_buffer_def)

lemma fill_buffer_full [simp]: "length bs = n \<Longrightarrow> fill_buffer n bs = bs"
  by (simp add: fill_buffer_def)

lemma ec_result_OK_iff [simp]: "ec_result ec x = OK y \<longleftrightarrow> ec = no_error \<and> y = x"
  by (auto simp: ec_result_def split: error_code.split)

text \<open>A read that succeeds returns exactly the number of bytes asked for; it never faults.\<close>

lemma socket_read_length:
  "socket_read A n timeout w = (Ret (OK bs), w') \<Longrightarrow> 0 \<le> n \<and> int (length bs) = n"
  by (auto simp: socket_read_def Let_def split: if_splits)

lemma socket_connect_Ret:
  "\<exists>r. socket_connect A ip port timeout w = (Ret r, snd (socket_connect A ip port timeout w))"
  by (simp add: socket_connect_def Let_def)

lemma socket_close_Ret: "\<exists>r. socket_close A w = (Ret r, snd (socket_close A w))"
  by (simp add: socket_close_def Let_def split_beta)

text \<open>
  When the time is over before the operation ended, the socket is closed and the error is a
  timeout, provided that closing cancels what is pending: what asio documents.
\<close>

definition close_cancels :: "'w asio \<Rightarrow> bool" where
  "close_cancels A \<longleftrightarrow>
     (\<forall>w. \<not> sock_is_open A (ctx_run A (snd (sock_close A w)))) \<and>
     (\<forall>w. \<not> ctx_stopped A w \<longrightarrow>
        callback_ec A (ctx_run A (snd (sock_close A (snd (sock_shutdown A w))))) = Some operation_aborted)"

lemma socket_run_timeout:
  assumes "close_cancels A" "\<not> ctx_stopped A (ctx_run_for A t (ctx_restart A w))"
  shows "handler_ec A (socket_run A t w) = operation_aborted" "\<not> sock_is_open A (socket_run A t w)"
  using assms by (simp_all add: socket_run_def Let_def handler_ec_def close_cancels_def)

section \<open>The interface the downloader uses\<close>

text \<open>
  What a client of a connection relies on, whatever the network does: a successful read has the
  length asked for and nothing but a negative length throws.
\<close>

locale connection =
  fixes rd :: "int \<Rightarrow> int \<Rightarrow> ('w, (bytes, 'e) Result) eff"
    and wr :: "bytes \<Rightarrow> int \<Rightarrow> ('w, (unit, 'e) Result) eff"
  assumes rd_length: "rd n t w = (Ret (OK bs), w') \<Longrightarrow> int (length bs) = n"
    and rd_Ret: "0 \<le> n \<Longrightarrow> \<exists>r w'. rd n t w = (Ret r, w')"
    and wr_Ret: "\<exists>r w'. wr buf t w = (Ret r, w')"
begin

lemma rd_cases:
  assumes "0 \<le> n"
  obtains (ok) bs w' where "rd n t w = (Ret (OK bs), w')" "int (length bs) = n"
    | (err) e w' where "rd n t w = (Ret (ERROR e), w')"
proof -
  obtain r w' where rd: "rd n t w = (Ret r, w')" using rd_Ret [OF assms] by blast
  then show ?thesis using ok err rd_length by (cases r) auto
qed

lemma wr_cases:
  obtains (ok) w' where "wr buf t w = (Ret (OK ()), w')"
    | (err) e w' where "wr buf t w = (Ret (ERROR e), w')"
proof -
  obtain r w' where wr: "wr buf t w = (Ret r, w')" using wr_Ret by blast
  then show ?thesis using ok err by (cases r) auto
qed

end

interpretation sock: connection "socket_read A" "socket_write A" for A :: "'w asio"
proof
  fix n t w w' and bs :: bytes
  assume "socket_read A n t w = (Ret (OK bs), w')"
  then show "int (length bs) = n" by (simp add: socket_read_length)
next
  fix n :: int and t w
  assume "0 \<le> n"
  then show "\<exists>r w'. socket_read A n t w = (Ret r, w')" by (simp add: socket_read_def Let_def)
next
  fix buf t w
  show "\<exists>r w'. socket_write A buf t w = (Ret r, w')" by (simp add: socket_write_def Let_def)
qed

end
