(* ===== verification/Downloader.thy ===== *)
theory Downloader
  imports Socket Message
begin

text \<open>
  The downloader of one piece from one peer (download/downloader.hpp, download/downloader.cpp):
  the handshake, the exchange of messages, and the loop that requests the blocks of a piece and
  collects them. Both loops wait for the peer and may run forever, so they are instances of
  \<^term>\<open>while_eff\<close>. The lemmas say what the state is after a connection attempt, that a piece
  that is returned has the expected hash whatever the peer sends, when the loops return, and
  that a peer that serves the piece makes the download succeed.
\<close>

section \<open>State\<close>

record Downloaded =
  dindex :: int
  dcontent :: bytes

datatype DownloaderError =
    DifferentInfoHash | InvalidMessage | NoBitfield | MissingPiece | CorruptPiece | SocketTimeout | SocketOther

text \<open>The socket is an optional; what it does is in the state \<open>world\<close> of asio and the network.\<close>

record 'w Downloader =
  dl_torrent :: TorrentFile
  dl_peer :: Peer
  has_socket :: bool
  choked :: bool
  bitfield :: "Bitfield option"
  world :: 'w

definition from_socket_error :: "SocketError \<Rightarrow> DownloaderError" where
  "from_socket_error err = (if err = Timeout then SocketTimeout else SocketOther)"

definition Downloader_of :: "TorrentFile \<Rightarrow> Peer \<Rightarrow> 'w \<Rightarrow> 'w Downloader" where
  "Downloader_of torrent peer w =
     \<lparr>dl_torrent = torrent, dl_peer = peer, has_socket = False, choked = True, bitfield = None, world = w\<rparr>"

text \<open>An operation of the socket; there has to be one.\<close>

definition on_socket :: "('w, 'a) eff \<Rightarrow> ('w Downloader, 'a) eff" where
  "on_socket m d =
     (if \<not> has_socket d then (UB EmptyOptional, d)
      else let (r, w) = m (world d) in (r, d\<lparr>world := w\<rparr>))"

definition modify :: "('s \<Rightarrow> 's) \<Rightarrow> ('s, unit) eff" where
  "modify f s = (Ret (), f s)"

section \<open>Messages\<close>

text \<open>The result of closing is dropped, and so is an exception.\<close>

definition destroy_socket :: "'w asio \<Rightarrow> ('w Downloader, unit) eff" where
  "destroy_socket A d =
     (case on_socket (socket_close A) d of
        (UB u, d') \<Rightarrow> (UB u, d')
      | (r, d') \<Rightarrow> (Ret (), d'\<lparr>has_socket := False\<rparr>))"

definition fail_with :: "'w asio \<Rightarrow> DownloaderError \<Rightarrow> ('w Downloader, ('a, DownloaderError) Result) eff" where
  "fail_with A e = bind_eff (destroy_socket A) (\<lambda>_. ret (ERROR e))"

definition send_message :: "'w asio \<Rightarrow> Message \<Rightarrow> int \<Rightarrow> ('w Downloader, (unit, DownloaderError) Result) eff" where
  "send_message A msg timeout =
     bind_eff (lift_outcome (encode_msg msg)) (\<lambda>buf.
     bind_eff (on_socket (socket_write A buf timeout)) (\<lambda>sent.
       case sent of OK _ \<Rightarrow> ret (OK ()) | ERROR e \<Rightarrow> fail_with A (from_socket_error e)))"

definition get_now :: "'w asio \<Rightarrow> ('w Downloader, int) eff" where
  "get_now A d = (Ret (now A (world d)), d)"

definition recv_message :: "'w asio \<Rightarrow> int \<Rightarrow> ('w Downloader, (Message, DownloaderError) Result) eff" where
  "recv_message A timeout =
     bind_eff (get_now A) (\<lambda>before_read_len.
     bind_eff (on_socket (socket_read A 4 timeout)) (\<lambda>maybe_len.
       case maybe_len of ERROR e \<Rightarrow> fail_with A (from_socket_error e)
       | OK len_bytes \<Rightarrow>
           let message_len = decode_integer [len_bytes ! 0, len_bytes ! 1, len_bytes ! 2, len_bytes ! 3] in
           bind_eff (get_now A) (\<lambda>after.
           bind_eff (on_socket (socket_read A message_len (timeout - (after - before_read_len)))) (\<lambda>maybe_rest.
             case maybe_rest of ERROR e \<Rightarrow> fail_with A (from_socket_error e)
             | OK rest \<Rightarrow>
                 (\<lambda>d. case decode_msg (dl_torrent d) (len_bytes @ rest) of
                        ERROR e \<Rightarrow> fail_with A InvalidMessage d
                      | OK message \<Rightarrow> (Ret (OK message), d))))))"

section \<open>Connecting\<close>

definition HANDSHAKE_LENGTH :: int where
  "HANDSHAKE_LENGTH = 1 + 19 + 8 + 20 + 20"

definition INFO_HASH_OFFSET :: nat where
  "INFO_HASH_OFFSET = 1 + 19 + 8"

definition handshake_message :: "TorrentFile \<Rightarrow> bytes" where
  "handshake_message torrent =
     [19] @ map byte_of_char ''BitTorrent protocol'' @ replicate 8 0 @ info_hash torrent
       @ map byte_of_char ''FUR-----------------''"

definition handshake :: "'w asio \<Rightarrow> ('w Downloader, (unit, DownloaderError) Result) eff" where
  "handshake A d =
     bind_eff (on_socket (socket_write A (handshake_message (dl_torrent d)) (seconds 5))) (\<lambda>sent.
       case sent of ERROR e \<Rightarrow> fail_with A (from_socket_error e)
       | OK _ \<Rightarrow>
           bind_eff (on_socket (socket_read A HANDSHAKE_LENGTH (seconds 5))) (\<lambda>maybe_response.
             case maybe_response of ERROR e \<Rightarrow> fail_with A (from_socket_error e)
             | OK response \<Rightarrow>
                 if info_hash (dl_torrent d) \<noteq> take 20 (drop INFO_HASH_OFFSET response)
                 then fail_with A DifferentInfoHash
                 else ret (OK ()))) d"

text \<open>A step that has to succeed for the function to go on.\<close>

definition and_then ::
  "('s, ('a, 'e) Result) eff \<Rightarrow> ('a \<Rightarrow> ('s, ('b, 'e) Result) eff) \<Rightarrow> ('s, ('b, 'e) Result) eff" where
  "and_then m f = bind_eff m (\<lambda>r. case r of OK x \<Rightarrow> f x | ERROR e \<Rightarrow> ret (ERROR e))"

text \<open>The second half of a connection attempt, from the bitfield on.\<close>

definition greet :: "'w asio \<Rightarrow> Bitfield \<Rightarrow> ('w Downloader, (unit, DownloaderError) Result) eff" where
  "greet A bf =
     bind_eff (modify (\<lambda>d. d\<lparr>bitfield := Some (Bitfield_of_storage (get_bytes bf) (len bf))\<rparr>)) (\<lambda>_.
     and_then (send_message A UnchokeMessage (seconds 5)) (\<lambda>_.
     and_then (send_message A InterestedMessage (seconds 5)) (\<lambda>_.
     bind_eff (modify (\<lambda>d. d\<lparr>choked := True\<rparr>)) (\<lambda>_. ret (OK ())))))"

text \<open>Everything in \<open>ensure_connected\<close> between the first check and the loop that waits to be unchoked.\<close>

definition open_connection :: "'w asio \<Rightarrow> ('w Downloader, (unit, DownloaderError) Result) eff" where
  "open_connection A d =
     bind_eff (modify (\<lambda>d. d\<lparr>has_socket := False, choked := True\<rparr>)) (\<lambda>_.
     bind_eff (modify (\<lambda>d. d\<lparr>has_socket := True, world := new_engine A (world d)\<rparr>)) (\<lambda>_.
     bind_eff (on_socket (socket_connect A (ip (dl_peer d)) (port (dl_peer d)) (seconds 5))) (\<lambda>maybe_connect.
       case maybe_connect of ERROR e \<Rightarrow> fail_with A (from_socket_error e)
       | OK _ \<Rightarrow>
           and_then (handshake A) (\<lambda>_.
           and_then (recv_message A (seconds 5)) (\<lambda>message.
             case message of
               BitfieldMessage bf \<Rightarrow> greet A bf
             | _ \<Rightarrow> fail_with A NoBitfield))))) d"

text \<open>\<open>while (choked)\<close>: any message but \<open>Unchoke\<close> is ignored.\<close>

definition await_unchoke ::
  "'w asio \<Rightarrow> 'w Downloader \<Rightarrow> ((unit, DownloaderError) Result outcome \<times> 'w Downloader) option" where
  "await_unchoke A d =
     while_eff (\<lambda>_ d. choked d)
       (\<lambda>_. and_then (recv_message A (milliseconds 50)) (\<lambda>message.
          bind_eff (modify (\<lambda>d. if kind message = Unchoke then d\<lparr>choked := False\<rparr> else d)) (\<lambda>_. ret (OK ()))))
       () d"

definition ensure_connected ::
  "'w asio \<Rightarrow> 'w Downloader \<Rightarrow> ((unit, DownloaderError) Result outcome \<times> 'w Downloader) option" where
  "ensure_connected A d =
     (if has_socket d \<and> socket_is_open A (world d) then Some (Ret (OK ()), d)
      else case open_connection A d of
        (Ret (OK _), d') \<Rightarrow> await_unchoke A d'
      | (r, d') \<Rightarrow> Some (r, d'))"

section \<open>Downloading a piece\<close>

definition UNCHOKE_TIMEOUT :: int where
  "UNCHOKE_TIMEOUT = 15"

definition BLOCK_SIZE :: int where
  "BLOCK_SIZE = 16384"

definition PIPELINE_SIZE_MAX :: int where
  "PIPELINE_SIZE_MAX = 5"

text \<open>How many bytes the piece has; the last one may be shorter.\<close>

definition expected_length :: "TorrentFile \<Rightarrow> int \<Rightarrow> int outcome" where
  "expected_length torrent index =
     (if index = pieces_count torrent - 1 then
        obind (mul64 (pieces_count torrent - 1) (piece_length torrent)) (\<lambda>before_this_piece.
          sub64 (tlength torrent) before_this_piece)
      else Ret (piece_length torrent))"

definition blocks_total :: "int \<Rightarrow> int outcome" where
  "blocks_total plen = obind (add64 plen BLOCK_SIZE) (\<lambda>n. Ret ((n - 1) sdiv BLOCK_SIZE))"

definition block_length :: "int \<Rightarrow> int \<Rightarrow> int \<Rightarrow> int" where
  "block_length plen nblocks k = (if k = nblocks - 1 then plen - k * BLOCK_SIZE else BLOCK_SIZE)"

text \<open>The inner loop: requests are sent while fewer than five are unanswered.\<close>

function request_blocks ::
  "'w asio \<Rightarrow> int \<Rightarrow> int \<Rightarrow> int \<Rightarrow> int \<Rightarrow> int \<Rightarrow> ('w Downloader, (int, DownloaderError) Result) eff" where
  "request_blocks A index plen nblocks blocks_received blocks_requested d =
     (if blocks_requested - blocks_received < PIPELINE_SIZE_MAX \<and> blocks_requested < nblocks then
        (case send_message A (RequestMessage index (blocks_requested * BLOCK_SIZE)
                (block_length plen nblocks blocks_requested)) (seconds 5) d of
           (Ret (OK _), d') \<Rightarrow> request_blocks A index plen nblocks blocks_received (blocks_requested + 1) d'
         | (Ret (ERROR e), d') \<Rightarrow> (Ret (ERROR e), d')
         | (Throw x, d') \<Rightarrow> (Throw x, d')
         | (UB u, d') \<Rightarrow> (UB u, d'))
      else (Ret (OK blocks_requested), d))"
  by pat_completeness auto

termination
  by (relation "measure (\<lambda>(A, index, plen, nblocks, received, requested, d). nat (nblocks - requested))") auto

declare request_blocks.simps [simp del]

text \<open>The local variables of the outer loop.\<close>

record progress =
  blocks_requested :: int
  blocks_received :: int
  piece_buf :: bytes
  wait_time :: int

text \<open>\<open>std::copy\<close> of a block into the piece, which is undefined past the end of the piece.\<close>

definition copy_block :: "bytes \<Rightarrow> int \<Rightarrow> bytes \<Rightarrow> bytes outcome" where
  "copy_block piece begin block =
     (if 0 \<le> begin \<and> begin + int (length block) \<le> int (length piece)
      then Ret (take (nat begin) piece @ block @ drop (nat begin + length block) piece)
      else UB OutOfBounds)"

definition handle_message :: "Message \<Rightarrow> progress \<Rightarrow> ('w Downloader, progress) eff" where
  "handle_message message p d =
     (case message of
        ChokeMessage \<Rightarrow> (Ret (p\<lparr>wait_time := seconds UNCHOKE_TIMEOUT\<rparr>), d\<lparr>choked := True\<rparr>)
      | UnchokeMessage \<Rightarrow> (Ret (p\<lparr>wait_time := seconds 5\<rparr>), d\<lparr>choked := False\<rparr>)
      | HaveMessage index \<Rightarrow>
          (case bitfield d of None \<Rightarrow> (UB EmptyOptional, d)
           | Some bf \<Rightarrow> bind_eff (lift_outcome (set_bit_on bf index))
               (\<lambda>bf' d. (Ret p, d\<lparr>bitfield := Some bf'\<rparr>)) d)
      | PieceMessage index begin block \<Rightarrow>
          bind_eff (lift_outcome (copy_block (piece_buf p) begin block))
            (\<lambda>buf. ret (p\<lparr>piece_buf := buf, blocks_received := blocks_received p + 1\<rparr>)) d
      | _ \<Rightarrow> (Ret p, d))"

definition download_iteration ::
  "'w asio \<Rightarrow> int \<Rightarrow> int \<Rightarrow> int \<Rightarrow> progress \<Rightarrow> ('w Downloader, (progress, DownloaderError) Result) eff" where
  "download_iteration A index plen nblocks p =
     and_then (\<lambda>d. if \<not> choked d then request_blocks A index plen nblocks (blocks_received p) (blocks_requested p) d
                    else (Ret (OK (blocks_requested p)), d)) (\<lambda>requested.
     and_then (recv_message A (wait_time p)) (\<lambda>message.
     bind_eff (handle_message message (p\<lparr>blocks_requested := requested\<rparr>)) (\<lambda>p'. ret (OK p'))))"

definition download_loop ::
  "'w asio \<Rightarrow> int \<Rightarrow> int \<Rightarrow> int \<Rightarrow> progress \<Rightarrow> 'w Downloader \<Rightarrow>
     ((progress, DownloaderError) Result outcome \<times> 'w Downloader) option" where
  "download_loop A index plen nblocks =
     while_eff (\<lambda>p d. blocks_received p < nblocks) (download_iteration A index plen nblocks)"

definition initial_progress :: "int \<Rightarrow> progress" where
  "initial_progress plen =
     \<lparr>blocks_requested = 0, blocks_received = 0, piece_buf = replicate (nat plen) 0, wait_time = seconds 5\<rparr>"

text \<open>What follows the loop: the check of the hash.\<close>

definition finish_piece :: "TorrentFile \<Rightarrow> int \<Rightarrow> progress \<Rightarrow> (Downloaded, DownloaderError) Result outcome" where
  "finish_piece torrent index p =
     obind (vec_at (piece_hashes torrent) index) (\<lambda>hash.
     obind (verify_piece (piece_buf p) hash) (\<lambda>valid.
       Ret (if valid then OK \<lparr>dindex = index, dcontent = piece_buf p\<rparr> else ERROR CorruptPiece)))"

text \<open>What precedes it: whether the peer has the piece, the length of the piece and its number of blocks.\<close>

definition plan_piece :: "TorrentFile \<Rightarrow> Bitfield option \<Rightarrow> int \<Rightarrow> (int \<times> int, DownloaderError) Result outcome" where
  "plan_piece torrent bf index =
     (case bf of None \<Rightarrow> UB EmptyOptional
      | Some bf \<Rightarrow>
          obind (get_bit_at bf index) (\<lambda>present.
            if \<not> present then Ret (ERROR MissingPiece)
            else obind (expected_length torrent index) (\<lambda>plen.
              if plen \<le> 0 then Throw invalid_argument
              else obind (blocks_total plen) (\<lambda>nblocks. Ret (OK (plen, nblocks))))))"

definition try_download ::
  "'w asio \<Rightarrow> Piece \<Rightarrow> 'w Downloader \<Rightarrow> ((Downloaded, DownloaderError) Result outcome \<times> 'w Downloader) option" where
  "try_download A task d =
     (if pieces_count (dl_torrent d) \<le> 0 then Some (Throw invalid_argument, d)
      else if pindex task < 0 \<or> pindex task \<ge> pieces_count (dl_torrent d) then Some (Throw invalid_argument, d)
      else case ensure_connected A d of
        None \<Rightarrow> None
      | Some (Throw x, d') \<Rightarrow> Some (Throw x, d')
      | Some (UB u, d') \<Rightarrow> Some (UB u, d')
      | Some (Ret (ERROR e), d') \<Rightarrow> Some (Ret (ERROR e), d')
      | Some (Ret (OK _), d') \<Rightarrow>
          (case plan_piece (dl_torrent d) (bitfield d') (pindex task) of
             Throw x \<Rightarrow> Some (Throw x, d')
           | UB u \<Rightarrow> Some (UB u, d')
           | Ret (ERROR e) \<Rightarrow> Some (Ret (ERROR e), d')
           | Ret (OK (plen, nblocks)) \<Rightarrow>
               (case download_loop A (pindex task) plen nblocks (initial_progress plen) d' of
                  None \<Rightarrow> None
                | Some (Throw x, d'') \<Rightarrow> Some (Throw x, d'')
                | Some (UB u, d'') \<Rightarrow> Some (UB u, d'')
                | Some (Ret (ERROR e), d'') \<Rightarrow> Some (Ret (ERROR e), d'')
                | Some (Ret (OK p), d'') \<Rightarrow> Some (finish_piece (dl_torrent d) (pindex task) p, d''))))"

section \<open>What every step leaves behind\<close>

lemma modify_simp [simp]: "modify f s = (Ret (), f s)"
  by (simp add: modify_def)

lemma on_socket_simp [simp]:
  "has_socket d \<Longrightarrow> m (world d) = (r, w) \<Longrightarrow> on_socket m d = (r, d\<lparr>world := w\<rparr>)"
  by (simp add: on_socket_def)

lemma and_then_simps [simp]:
  "m s = (Ret (OK x), s') \<Longrightarrow> and_then m f s = f x s'"
  "m s = (Ret (ERROR e), s') \<Longrightarrow> and_then m f s = (Ret (ERROR e), s')"
  "m s = (Throw x', s') \<Longrightarrow> and_then m f s = (Throw x', s')"
  "m s = (UB u, s') \<Longrightarrow> and_then m f s = (UB u, s')"
  by (simp_all add: and_then_def)

lemma destroy_socket_has:
  assumes "has_socket d"
  shows "\<exists>w. destroy_socket A d = (Ret (), d\<lparr>has_socket := False, world := w\<rparr>)"
proof -
  obtain r w where c: "socket_close A (world d) = (Ret r, w)"
    using socket_close_Ret [of A "world d"] by metis
  then have "on_socket (socket_close A) d = (Ret r, d\<lparr>world := w\<rparr>)" using assms by simp
  then show ?thesis by (intro exI [of _ w]) (simp add: destroy_socket_def)
qed

lemma fail_with_has:
  assumes "has_socket d"
  shows "\<exists>w. fail_with A e d = (Ret (ERROR e), d\<lparr>has_socket := False, world := w\<rparr>)"
  using destroy_socket_has [OF assms, of A] by (auto simp: fail_with_def)

lemma get_now_simp [simp]: "get_now A d = (Ret (now A (world d)), d)"
  by (simp add: get_now_def)

lemma upd_world_twice [simp]: "d\<lparr>world := w, has_socket := b, world := w'\<rparr> = d\<lparr>has_socket := b, world := w'\<rparr>"
  by simp

lemma fail_with_after:
  assumes "has_socket d" "m d = fail_with A e (d\<lparr>world := w\<rparr>)"
  shows "\<exists>w. m d = (Ret (ERROR e), d\<lparr>has_socket := False, world := w\<rparr>)"
  using fail_with_has [of "d\<lparr>world := w\<rparr>" A e] assms by auto

text \<open>Sending succeeds, or the socket is gone.\<close>

lemma send_message_cases:
  assumes "has_socket d" "encode_msg m = Ret buf"
  obtains (ok) w where "send_message A m t d = (Ret (OK ()), d\<lparr>world := w\<rparr>)"
    "socket_write A buf t (world d) = (Ret (OK ()), w)"
  | (err) e w where "send_message A m t d = (Ret (ERROR e), d\<lparr>has_socket := False, world := w\<rparr>)"
proof (cases rule: sock.wr_cases [of A buf t "world d"])
  case (ok w)
  then show ?thesis using assms that(1) by (simp add: send_message_def)
next
  case (err e w)
  then have "send_message A m t d = fail_with A (from_socket_error e) (d\<lparr>world := w\<rparr>)"
    using assms by (simp add: send_message_def)
  from fail_with_after [of d "send_message A m t", OF assms(1) this] show ?thesis using that(2) by blast
qed

text \<open>Receiving gives a message decoded against the torrent, or the socket is gone.\<close>

lemma recv_message_cases:
  assumes "has_socket d"
  obtains (ok) m buf w w1 t' bs where "recv_message A t d = (Ret (OK m), d\<lparr>world := w\<rparr>)"
    "decode_msg (dl_torrent d) buf = OK m"
    "socket_read A 4 t (world d) = (Ret (OK bs), w1)"
    "socket_read A (decode_integer bs) t' w1 = (Ret (OK (drop 4 buf)), w)"
  | (err) e w where "recv_message A t d = (Ret (ERROR e), d\<lparr>has_socket := False, world := w\<rparr>)"
proof -
  note go = fail_with_after [of d "recv_message A t" A, OF assms]
  have "0 \<le> (4 :: int)" by simp
  then show thesis
  proof (cases rule: sock.rd_cases [of 4 A t "world d"])
    case (ok bs w1)
    then have bs: "[bs ! 0, bs ! 1, bs ! 2, bs ! 3] = bs" by (intro list_of_4) simp
    let ?t = "t - (now A w1 - now A (world d))"
    have "0 \<le> decode_integer bs" by (rule decode_integer_range)
    then show ?thesis
    proof (cases rule: sock.rd_cases [of "decode_integer bs" A ?t w1])
      case rest: (ok rest w2)
      show ?thesis
      proof (cases "decode_msg (dl_torrent d) (bs @ rest)")
        case (OK m)
        then have "recv_message A t d = (Ret (OK m), d\<lparr>world := w2\<rparr>)"
          using assms ok bs rest by (simp add: recv_message_def Let_def)
        with OK ok rest that(1) show ?thesis by simp
      next
        case (ERROR e)
        then have "recv_message A t d = fail_with A InvalidMessage (d\<lparr>world := w2\<rparr>)"
          using assms ok bs rest by (simp add: recv_message_def Let_def)
        from go [OF this] that(2) show ?thesis by blast
      qed
    next
      case (err e w2)
      then have "recv_message A t d = fail_with A (from_socket_error e) (d\<lparr>world := w2\<rparr>)"
        using assms ok bs by (simp add: recv_message_def Let_def)
      from go [OF this] that(2) show ?thesis by blast
    qed
  next
    case (err e w)
    then have "recv_message A t d = fail_with A (from_socket_error e) (d\<lparr>world := w\<rparr>)"
      using assms by (simp add: recv_message_def)
    from go [OF this] that(2) show ?thesis by blast
  qed
qed

lemma decode_msg_Bitfield: "decode_msg td buf = OK (BitfieldMessage bf) \<Longrightarrow> len bf = pieces_count td"
  by (auto simp: decode_msg_def HaveMessage_decode_def RequestMessage_decode_def PieceMessage_decode_def
      BitfieldMessage_decode_def Bitfield_of_storage_def Let_def split: if_splits)

text \<open>What holds between the operations: a downloader with a socket has the peer's bitfield.\<close>

definition dl_ok :: "'w Downloader \<Rightarrow> bool" where
  "dl_ok d \<longleftrightarrow> (has_socket d \<longrightarrow> (\<exists>bf. bitfield d = Some bf \<and> len bf = pieces_count (dl_torrent d)))"

lemma dl_ok_world [simp]: "dl_ok (d\<lparr>world := w\<rparr>) = dl_ok d" "dl_ok (d\<lparr>choked := b\<rparr>) = dl_ok d"
  by (simp_all add: dl_ok_def)

lemma dl_ok_no_socket [simp]: "\<not> has_socket d \<Longrightarrow> dl_ok d"
  by (simp add: dl_ok_def)

lemma handshake_cases:
  assumes "has_socket d"
  obtains (ok) w where "handshake A d = (Ret (OK ()), d\<lparr>world := w\<rparr>)"
  | (err) e w where "handshake A d = (Ret (ERROR e), d\<lparr>has_socket := False, world := w\<rparr>)"
proof -
  note go = fail_with_after [of d "handshake A" A, OF assms]
  have len: "0 \<le> HANDSHAKE_LENGTH" by (simp add: HANDSHAKE_LENGTH_def)
  show thesis
  proof (cases rule: sock.wr_cases [of A "handshake_message (dl_torrent d)" "seconds 5" "world d"])
    case wr: (ok w)
    from len show ?thesis
    proof (cases rule: sock.rd_cases [of HANDSHAKE_LENGTH A "seconds 5" w])
      case rd: (ok response w2)
      show ?thesis
      proof (cases "info_hash (dl_torrent d) = take 20 (drop INFO_HASH_OFFSET response)")
        case True
        then have "handshake A d = (Ret (OK ()), d\<lparr>world := w2\<rparr>)"
          using assms wr rd by (simp add: handshake_def)
        then show ?thesis by (rule that(1))
      next
        case False
        then have "handshake A d = fail_with A DifferentInfoHash (d\<lparr>world := w2\<rparr>)"
          using assms wr rd by (simp add: handshake_def)
        from go [OF this] that(2) show ?thesis by blast
      qed
    next
      case (err e w2)
      then have "handshake A d = fail_with A (from_socket_error e) (d\<lparr>world := w2\<rparr>)"
        using assms wr by (simp add: handshake_def)
      from go [OF this] that(2) show ?thesis by blast
    qed
  next
    case (err e w)
    then have "handshake A d = fail_with A (from_socket_error e) (d\<lparr>world := w\<rparr>)"
      using assms by (simp add: handshake_def)
    from go [OF this] that(2) show ?thesis by blast
  qed
qed

lemma encode_simple [simp]:
  "\<exists>buf. encode_msg UnchokeMessage = Ret buf" "\<exists>buf. encode_msg InterestedMessage = Ret buf"
  using decode_encode_msg [of _ UnchokeMessage] decode_encode_msg [of _ InterestedMessage] by auto

lemma Bitfield_copy [simp]: "Bitfield_of_storage (get_bytes bf) (len bf) = bf"
  by (simp add: Bitfield_of_storage_def get_bytes_def)

lemma greet_cases:
  assumes "has_socket d"
  obtains (ok) w where "greet A bf d = (Ret (OK ()), d\<lparr>bitfield := Some bf, choked := True, world := w\<rparr>)"
  | (err) e w where "greet A bf d = (Ret (ERROR e), d\<lparr>bitfield := Some bf, has_socket := False, world := w\<rparr>)"
proof -
  let ?d = "d\<lparr>bitfield := Some bf\<rparr>"
  obtain u i where enc: "encode_msg UnchokeMessage = Ret u" "encode_msg InterestedMessage = Ret i"
    using encode_simple by blast
  have has: "has_socket ?d" using assms by simp
  from has enc(1) show thesis
  proof (cases rule: send_message_cases [of ?d UnchokeMessage u A "seconds 5"])
    case u: (ok w)
    have "has_socket (?d\<lparr>world := w\<rparr>)" using assms by simp
    from this enc(2) show ?thesis
    proof (cases rule: send_message_cases [of "?d\<lparr>world := w\<rparr>" InterestedMessage i A "seconds 5"])
      case (ok w2)
      with u have "greet A bf d = (Ret (OK ()), d\<lparr>bitfield := Some bf, choked := True, world := w2\<rparr>)"
        by (simp add: greet_def)
      then show ?thesis by (rule that(1))
    next
      case (err e w2)
      with u have "greet A bf d = (Ret (ERROR e), d\<lparr>bitfield := Some bf, has_socket := False, world := w2\<rparr>)"
        by (simp add: greet_def)
      then show ?thesis by (rule that(2))
    qed
  next
    case (err e w)
    then have "greet A bf d = (Ret (ERROR e), d\<lparr>bitfield := Some bf, has_socket := False, world := w\<rparr>)"
      by (simp add: greet_def)
    then show ?thesis by (rule that(2))
  qed
qed

lemma open_connection_cases:
  obtains (ok) d' where "open_connection A d = (Ret (OK ()), d')" "has_socket d'" "choked d'" "dl_ok d'"
      "dl_torrent d' = dl_torrent d"
  | (err) e d' where "open_connection A d = (Ret (ERROR e), d')" "\<not> has_socket d'" "dl_torrent d' = dl_torrent d"
proof -
  let ?d0 = "d\<lparr>choked := True, has_socket := True, world := new_engine A (world d)\<rparr>"
  have has: "has_socket (?d0\<lparr>world := v\<rparr>)" for v by simp
  have fail: thesis if "open_connection A d = fail_with A e (?d0\<lparr>world := w\<rparr>)" for e w
  proof -
    from fail_with_has [OF has [of w], of A e] obtain v where
      "fail_with A e (?d0\<lparr>world := w\<rparr>) =
        (Ret (ERROR e :: (unit, DownloaderError) Result), ?d0\<lparr>world := w, has_socket := False, world := v\<rparr>)" by blast
    with that have "open_connection A d = (Ret (ERROR e), ?d0\<lparr>world := w, has_socket := False, world := v\<rparr>)" by (rule trans)
    then show thesis by (rule err) simp_all
  qed
  obtain r w where c: "socket_connect A (ip (dl_peer d)) (port (dl_peer d)) (seconds 5) (new_engine A (world d)) = (Ret r, w)"
    using socket_connect_Ret by metis
  show thesis
  proof (cases r)
    case (ERROR e)
    with c have "open_connection A d = fail_with A (from_socket_error e) (?d0\<lparr>world := w\<rparr>)"
      by (simp add: open_connection_def)
    then show ?thesis by (rule fail)
  next
    case (OK u)
    with c have oc: "open_connection A d = and_then (handshake A) (\<lambda>_. and_then (recv_message A (seconds 5)) (\<lambda>message.
        case message of BitfieldMessage bf \<Rightarrow> greet A bf | _ \<Rightarrow> fail_with A NoBitfield)) (?d0\<lparr>world := w\<rparr>)"
      by (simp add: open_connection_def)
    from has [of w] show ?thesis
    proof (cases rule: handshake_cases [of _ A])
      case h: (ok w2)
      from has [of w2] show ?thesis
      proof (cases rule: recv_message_cases [of _ A "seconds 5"])
        case rv: (ok m buf w3)
        show ?thesis
        proof (cases "\<exists>bf. m = BitfieldMessage bf")
          case True
          then obtain bf where m: "m = BitfieldMessage bf" by blast
          with rv have l: "len bf = pieces_count (dl_torrent d)" using decode_msg_Bitfield by force
          have "open_connection A d = greet A bf (?d0\<lparr>world := w3\<rparr>)" using oc h rv m by simp
          then show ?thesis
            using that l by (cases rule: greet_cases [OF has [of w3], of A bf]) (simp_all add: dl_ok_def)
        next
          case False
          then have "open_connection A d = fail_with A NoBitfield (?d0\<lparr>world := w3\<rparr>)"
            using oc h rv by (simp split: Message.split)
          then show ?thesis by (rule fail)
        qed
      next
        case (err e w3)
        with oc h that(2) show ?thesis by simp
      qed
    next
      case (err e w2)
      with oc that(2) show ?thesis by simp
    qed
  qed
qed

text \<open>Waiting to be unchoked ends unchoked, or without a socket.\<close>

lemma await_unchoke_result:
  assumes "await_unchoke A d = Some (r, d')" "has_socket d" "dl_ok d"
  shows "dl_torrent d' = dl_torrent d \<and>
     (r = Ret (OK ()) \<and> has_socket d' \<and> dl_ok d' \<and> \<not> choked d' \<or> (\<exists>e. r = Ret (ERROR e)) \<and> \<not> has_socket d')"
proof -
  let ?I = "\<lambda>(_ :: unit) t. has_socket t \<and> dl_ok t \<and> dl_torrent t = dl_torrent d"
  let ?Q = "\<lambda>q t. (\<exists>e. q = Ret (ERROR e)) \<and> \<not> has_socket t \<and> dl_torrent t = dl_torrent d"
  have "(\<exists>y. r = Ret (OK y) \<and> ?I y d' \<and> \<not> choked d') \<or> ((\<forall>y. r \<noteq> Ret (OK y)) \<and> ?Q r d')"
  proof (rule while_eff_invariant [where I = ?I and Q = ?Q, OF assms(1) [unfolded await_unchoke_def]])
    show "?I () d" using assms by simp
  next
    fix x s y t
    assume i: "?I x s" and b: "and_then (recv_message A (milliseconds 50)) (\<lambda>message. bind_eff
       (modify (\<lambda>d. if kind message = Unchoke then d\<lparr>choked := False\<rparr> else d)) (\<lambda>_. ret (OK ()))) s = (Ret (OK y), t)"
    from i have "has_socket s" by simp
    then show "?I y t"
      using b i by (cases rule: recv_message_cases [of s A "milliseconds 50"]) (auto split: if_splits)
  next
    fix x s q t
    assume i: "?I x s" and b: "and_then (recv_message A (milliseconds 50)) (\<lambda>message. bind_eff
       (modify (\<lambda>d. if kind message = Unchoke then d\<lparr>choked := False\<rparr> else d)) (\<lambda>_. ret (OK ()))) s = (q, t)"
       and q: "\<And>y. q \<noteq> Ret (OK y)"
    from i have "has_socket s" by simp
    then show "?Q q t"
      using b i q by (cases rule: recv_message_cases [of s A "milliseconds 50"]) auto
  qed
  then show ?thesis by auto
qed

lemma ensure_connected_result:
  assumes "dl_ok d" "ensure_connected A d = Some (r, d')"
  shows "\<exists>res. r = Ret res \<and>
     (case res of OK _ \<Rightarrow> has_socket d' \<and> (\<exists>bf. bitfield d' = Some bf \<and> len bf = pieces_count (dl_torrent d)) \<and>
                          (d' \<noteq> d \<longrightarrow> \<not> choked d')
      | ERROR e \<Rightarrow> \<not> has_socket d')"
proof (cases "has_socket d \<and> socket_is_open A (world d)")
  case True
  with assms show ?thesis by (auto simp: ensure_connected_def dl_ok_def)
next
  case False
  show ?thesis
  proof (cases rule: open_connection_cases [of A d])
    case (ok d1)
    with False assms(2) have "await_unchoke A d1 = Some (r, d')" by (auto simp: ensure_connected_def)
    from await_unchoke_result [OF this] ok show ?thesis by (auto simp: dl_ok_def)
  next
    case (err e d1)
    with False assms(2) show ?thesis by (auto simp: ensure_connected_def)
  qed
qed

section \<open>Integrity\<close>

lemma copy_block_length: "copy_block piece b block = Ret piece' \<Longrightarrow> length piece' = length piece"
  by (auto simp: copy_block_def split: if_splits)

lemma handle_message_length:
  "handle_message m p d = (Ret p', d') \<Longrightarrow> length (piece_buf p') = length (piece_buf p)"
  by (auto simp: handle_message_def bind_eff_def dest: copy_block_length
      split: Message.splits option.splits outcome.splits)

lemma and_then_OK:
  assumes "and_then m f s = (Ret (OK y), t)"
  obtains x s1 where "m s = (Ret (OK x), s1)" "f x s1 = (Ret (OK y), t)"
  using assms by (auto simp: and_then_def bind_eff_def split: prod.splits outcome.splits Result.splits)

lemma bind_eff_Ret:
  assumes "bind_eff m f s = (Ret y, t)"
  obtains x s1 where "m s = (Ret x, s1)" "f x s1 = (Ret y, t)"
  using assms by (auto simp: bind_eff_def split: prod.splits outcome.splits)

text \<open>An iteration that goes on has asked for blocks, received a message and handled it.\<close>

lemma download_iteration_OK:
  assumes "download_iteration A index plen nblocks p d = (Ret (OK p'), d')"
  obtains requested d1 m d2 where
    "(if \<not> choked d then request_blocks A index plen nblocks (blocks_received p) (blocks_requested p) d
      else (Ret (OK (blocks_requested p)), d)) = (Ret (OK requested), d1)"
    "recv_message A (wait_time p) d1 = (Ret (OK m), d2)"
    "handle_message m (p\<lparr>blocks_requested := requested\<rparr>) d2 = (Ret p', d')"
  using assms unfolding download_iteration_def
  by (auto elim!: and_then_OK bind_eff_Ret)

lemma download_iteration_intro:
  assumes "(if \<not> choked d then request_blocks A index plen nblocks (blocks_received p) (blocks_requested p) d
      else (Ret (OK (blocks_requested p)), d)) = (Ret (OK requested), d1)"
    "recv_message A (wait_time p) d1 = (Ret (OK m), d2)"
    "handle_message m (p\<lparr>blocks_requested := requested\<rparr>) d2 = (q, d3)"
  shows "download_iteration A index plen nblocks p d = (obind q (\<lambda>p'. Ret (OK p')), d3)"
  using assms by (cases "choked d"; cases q) (simp_all add: download_iteration_def and_then_def bind_eff_def)

lemma download_iteration_length:
  assumes "download_iteration A index plen nblocks p d = (Ret (OK p'), d')"
  shows "length (piece_buf p') = length (piece_buf p)"
  using assms by (rule download_iteration_OK) (drule handle_message_length, simp)

lemma download_loop_length:
  assumes "download_loop A index plen nblocks p d = Some (Ret (OK p'), d')"
  shows "length (piece_buf p') = length (piece_buf p)" and "nblocks \<le> blocks_received p'"
proof -
  let ?I = "\<lambda>x _. length (piece_buf x) = length (piece_buf p)"
  have step: "?I y t" if "?I x s" "blocks_received x < nblocks" "download_iteration A index plen nblocks x s = (Ret (OK y), t)"
    for x s y t
    using download_iteration_length [OF that(3)] that(1) by (rule trans)
  note inv = while_eff_invariant_Ret [where I = ?I, OF assms [unfolded download_loop_def] refl]
  show "length (piece_buf p') = length (piece_buf p)" by (rule inv(1)) (rule step)
  have "\<not> blocks_received p' < nblocks" by (rule inv(2)) (rule step)
  then show "nblocks \<le> blocks_received p'" by simp
qed

lemma finish_piece_OK:
  assumes "finish_piece td index p = Ret (OK dl)"
  shows "dl = \<lparr>dindex = index, dcontent = piece_buf p\<rparr>" "0 \<le> index" "index < int (length (piece_hashes td))"
    "sha1 (piece_buf p) = piece_hashes td ! nat index"
  using assms by (auto simp: finish_piece_def verify_piece_cases split: if_splits)

lemma plan_piece_OK:
  assumes "plan_piece td bf index = Ret (OK (plen, n))"
  shows "expected_length td index = Ret plen" "0 < plen" "blocks_total plen = Ret n"
  using assms by (auto simp: plan_piece_def split: option.splits if_splits)

lemma try_download_OK:
  assumes "try_download A task d = Some (Ret (OK dl), d')"
  obtains d1 plen n p where "0 \<le> pindex task" "pindex task < pieces_count (dl_torrent d)"
    "ensure_connected A d = Some (Ret (OK ()), d1)"
    "plan_piece (dl_torrent d) (bitfield d1) (pindex task) = Ret (OK (plen, n))"
    "download_loop A (pindex task) plen n (initial_progress plen) d1 = Some (Ret (OK p), d')"
    "finish_piece (dl_torrent d) (pindex task) p = Ret (OK dl)"
  using assms
  by (auto simp: try_download_def not_le not_less split: if_splits option.splits outcome.splits Result.splits prod.splits)

lemma try_download_verified:
  assumes "try_download A task d = Some (Ret (OK dl), d')"
  shows "0 \<le> pindex task" "pindex task < pieces_count (dl_torrent d)" "dindex dl = pindex task"
    "expected_length (dl_torrent d) (pindex task) = Ret (int (length (dcontent dl)))"
    "sha1 (dcontent dl) = piece_hashes (dl_torrent d) ! nat (pindex task)"
proof -
  from assms obtain d1 plen n p where t: "0 \<le> pindex task" "pindex task < pieces_count (dl_torrent d)"
    "plan_piece (dl_torrent d) (bitfield d1) (pindex task) = Ret (OK (plen, n))"
    "download_loop A (pindex task) plen n (initial_progress plen) d1 = Some (Ret (OK p), d')"
    "finish_piece (dl_torrent d) (pindex task) p = Ret (OK dl)"
    by (rule try_download_OK) blast
  have "int (length (piece_buf p)) = plen"
    using download_loop_length(1) [OF t(4)] plan_piece_OK(2) [OF t(3)] by (simp add: initial_progress_def)
  with t plan_piece_OK(1) [OF t(3)] finish_piece_OK [OF t(5)]
  show "0 \<le> pindex task" "pindex task < pieces_count (dl_torrent d)" "dindex dl = pindex task"
    "expected_length (dl_torrent d) (pindex task) = Ret (int (length (dcontent dl)))"
    "sha1 (dcontent dl) = piece_hashes (dl_torrent d) ! nat (pindex task)" by simp_all
qed

section \<open>Termination\<close>

text \<open>
  A network that delivers finitely many bytes: \<open>left\<close> bounds what the peer will still send. No
  operation of asio makes it larger, and a read of at least one byte that succeeds makes it smaller.
\<close>

definition finite_feed :: "'w asio \<Rightarrow> ('w \<Rightarrow> nat) \<Rightarrow> bool" where
  "finite_feed A left \<longleftrightarrow>
     (\<forall>w. left (ctx_restart A w) \<le> left w) \<and>
     (\<forall>t w. left (ctx_run_for A t w) \<le> left w) \<and>
     (\<forall>w. left (ctx_run A w) \<le> left w) \<and>
     (\<forall>w. left (snd (sock_shutdown A w)) \<le> left w) \<and>
     (\<forall>w. left (snd (sock_close A w)) \<le> left w) \<and>
     (\<forall>buf w. left (async_write A buf w) \<le> left w) \<and>
     (\<forall>n w. left (async_read A n w) \<le> left w) \<and>
     (\<forall>n t w. 0 < n \<longrightarrow> handler_ec A (socket_run A t (async_read A n w)) = no_error \<longrightarrow>
        left (socket_run A t (async_read A n w)) < left w)"

lemma finite_feed_run:
  assumes "finite_feed A left"
  shows "left (socket_run A t w) \<le> left w"
proof -
  let ?w = "ctx_run_for A t (ctx_restart A w)"
  have 1: "left ?w \<le> left w" using assms by (meson finite_feed_def le_trans)
  have "left (ctx_run A (snd (sock_close A (snd (sock_shutdown A ?w))))) \<le> left ?w"
    using assms by (meson finite_feed_def le_trans)
  with 1 show ?thesis by (simp add: socket_run_def Let_def)
qed

lemma finite_feed_write:
  "finite_feed A left \<Longrightarrow> socket_write A buf t w = (r, w') \<Longrightarrow> left w' \<le> left w"
  using finite_feed_run [of A left t "async_write A buf w"]
  by (auto simp: socket_write_def Let_def finite_feed_def intro: le_trans)

lemma finite_feed_read:
  "finite_feed A left \<Longrightarrow> socket_read A n t w = (r, w') \<Longrightarrow> left w' \<le> left w"
  using finite_feed_run [of A left t "async_read A (nat n) w"]
  by (auto simp: socket_read_def Let_def finite_feed_def split: if_splits intro: le_trans)

lemma finite_feed_read_less:
  "finite_feed A left \<Longrightarrow> socket_read A n t w = (Ret (OK bs), w') \<Longrightarrow> 0 < n \<Longrightarrow> left w' < left w"
  by (auto simp: socket_read_def Let_def finite_feed_def)

lemma finite_feed_send:
  assumes feed: "finite_feed A left" and "send_message A m t d = (Ret (OK ()), d')"
  shows "left (world d') \<le> left (world d)"
proof -
  obtain buf where buf: "encode_msg m = Ret buf"
    using assms(2) by (cases "encode_msg m") (simp_all add: send_message_def)
  have "has_socket d" using assms(2) buf by (cases "has_socket d") (simp_all add: send_message_def on_socket_def)
  from this buf show ?thesis
    using assms by (cases rule: send_message_cases [of d m buf A t]) (auto intro: finite_feed_write)
qed

lemma finite_feed_recv:
  assumes feed: "finite_feed A left" and "recv_message A t d = (Ret (OK m), d')"
  shows "left (world d') < left (world d)"
proof -
  have "has_socket d"
    using assms(2) by (cases "has_socket d") (simp_all add: recv_message_def on_socket_def bind_eff_def)
  then show ?thesis
  proof (cases rule: recv_message_cases [of d A t])
    case (ok m' buf w w1 t' bs)
    with finite_feed_read_less [OF feed ok(3)] finite_feed_read [OF feed ok(4)] assms(2) show ?thesis by auto
  next
    case (err e w)
    with assms(2) show ?thesis by simp
  qed
qed

lemma finite_feed_request:
  assumes "finite_feed A left"
  shows "request_blocks A index plen nblocks rcv req d = (Ret (OK k), d') \<Longrightarrow> left (world d') \<le> left (world d)"
  using assms
proof (induction A index plen nblocks rcv req d rule: request_blocks.induct)
  case (1 A index plen nblocks rcv req d)
  obtain r d1 where sent: "send_message A (RequestMessage index (req * BLOCK_SIZE) (block_length plen nblocks req)) (seconds 5) d = (r, d1)"
    by (rule prod.exhaust)
  show ?case
  proof (cases "req - rcv < PIPELINE_SIZE_MAX \<and> req < nblocks")
    case True
    with "1.prems"(1) sent have r: "r = Ret (OK ())"
      by (simp add: request_blocks.simps [of A index plen nblocks rcv req] split: outcome.splits Result.splits)
    with "1.prems"(1) sent True have "request_blocks A index plen nblocks rcv (req + 1) d1 = (Ret (OK k), d')"
      by (simp add: request_blocks.simps [of A index plen nblocks rcv req])
    with "1.IH" True sent r "1.prems"(2) have "left (world d') \<le> left (world d1)" by simp
    moreover have "left (world d1) \<le> left (world d)" using finite_feed_send "1.prems"(2) sent r by blast
    ultimately show ?thesis by simp
  next
    case False
    with "1.prems"(1) have "d' = d" by (subst (asm) request_blocks.simps) simp
    then show ?thesis by simp
  qed
qed

lemma handle_message_world: "handle_message m p d = (r, d') \<Longrightarrow> world d' = world d"
  by (auto simp: handle_message_def bind_eff_def split: Message.splits option.splits outcome.splits)

lemma finite_feed_iteration:
  assumes "finite_feed A left" "download_iteration A index plen nblocks p d = (Ret (OK p'), d')"
  shows "left (world d') < left (world d)"
proof -
  from assms(2) obtain requested d1 m d2 where i:
    "(if \<not> choked d then request_blocks A index plen nblocks (blocks_received p) (blocks_requested p) d
      else (Ret (OK (blocks_requested p)), d)) = (Ret (OK requested), d1)"
    "recv_message A (wait_time p) d1 = (Ret (OK m), d2)"
    "handle_message m (p\<lparr>blocks_requested := requested\<rparr>) d2 = (Ret p', d')"
    by (rule download_iteration_OK)
  have "left (world d1) \<le> left (world d)"
    using i(1) finite_feed_request [OF assms(1)] by (auto split: if_splits)
  with finite_feed_recv [OF assms(1) i(2)] handle_message_world [OF i(3)] show ?thesis by simp
qed

lemma await_unchoke_returns:
  assumes "finite_feed A left"
  shows "\<exists>r d'. await_unchoke A d = Some (r, d')"
  unfolding await_unchoke_def
proof (rule while_eff_returns [where I = "\<lambda>_ _. True" and m = "\<lambda>_ d. left (world d)"], simp, intro conjI TrueI)
  fix s y t
  assume "and_then (recv_message A (milliseconds 50)) (\<lambda>message. bind_eff
     (modify (\<lambda>d. if kind message = Unchoke then d\<lparr>choked := False\<rparr> else d)) (\<lambda>_. ret (OK ()))) s = (Ret (OK y), t)"
  then obtain m s1 where "recv_message A (milliseconds 50) s = (Ret (OK m), s1)" "world t = world s1"
    by (rule and_then_OK) (auto split: if_splits)
  with finite_feed_recv [OF assms] show "left (world t) < left (world s)" by metis
qed

lemma ensure_connected_returns:
  assumes "finite_feed A left"
  shows "\<exists>r d'. ensure_connected A d = Some (r, d')"
  by (cases rule: open_connection_cases [of A d]) (auto simp: ensure_connected_def await_unchoke_returns [OF assms])

lemma download_loop_returns:
  assumes "finite_feed A left"
  shows "\<exists>r d'. download_loop A index plen nblocks p d = Some (r, d')"
  unfolding download_loop_def
  by (rule while_eff_returns [where I = "\<lambda>_ _. True" and m = "\<lambda>_ d. left (world d)"])
    (simp_all add: finite_feed_iteration [OF assms])

lemma finite_feed_returns:
  assumes "finite_feed A left"
  shows "\<exists>r d'. try_download A task d = Some (r, d')"
proof -
  obtain r d1 where e: "ensure_connected A d = Some (r, d1)" using ensure_connected_returns [OF assms] by blast
  show ?thesis
  proof (cases "\<exists>plen n. plan_piece (dl_torrent d) (bitfield d1) (pindex task) = Ret (OK (plen, n))")
    case True
    then obtain plen n where p: "plan_piece (dl_torrent d) (bitfield d1) (pindex task) = Ret (OK (plen, n))" by blast
    obtain q d2 where "download_loop A (pindex task) plen n (initial_progress plen) d1 = Some (q, d2)"
      using download_loop_returns [OF assms] by blast
    with p show ?thesis by (simp add: try_download_def e split: outcome.split Result.split)
  next
    case False
    then show ?thesis by (auto simp: try_download_def e split: outcome.split Result.split)
  qed
qed

section \<open>The blocks of a piece\<close>

lemma blocks_total_eq:
  assumes "0 < plen" "plen \<le> int64_max - BLOCK_SIZE"
  shows "blocks_total plen = Ret ((plen + BLOCK_SIZE - 1) div BLOCK_SIZE)"
  using assms
  by (simp add: blocks_total_def arith64 BLOCK_SIZE_def int64_min_def int64_max_def signed_divide_int_def sgn_if)

lemma blocks_total_pos:
  "0 < plen \<Longrightarrow> plen \<le> int64_max - BLOCK_SIZE \<Longrightarrow> blocks_total plen = Ret n \<Longrightarrow> 0 < n"
  using blocks_total_eq [of plen] by (auto simp: BLOCK_SIZE_def)

lemma block_range:
  assumes "0 < plen" "plen \<le> int64_max - BLOCK_SIZE" "blocks_total plen = Ret n" "0 \<le> k" "k < n"
  shows "k * BLOCK_SIZE < plen" "0 < block_length plen n k" "block_length plen n k \<le> BLOCK_SIZE"
    "k * BLOCK_SIZE + block_length plen n k = (if k = n - 1 then plen else (k + 1) * BLOCK_SIZE)"
    "k * BLOCK_SIZE + block_length plen n k \<le> plen"
proof -
  have n: "n = (plen + BLOCK_SIZE - 1) div BLOCK_SIZE" using assms(1-3) blocks_total_eq by simp
  define x where "x = plen + BLOCK_SIZE - 1"
  have "x = n * BLOCK_SIZE + x mod BLOCK_SIZE" unfolding n x_def [symmetric] by (rule div_mult_mod_eq [symmetric])
  moreover have "0 \<le> x mod BLOCK_SIZE" "x mod BLOCK_SIZE < BLOCK_SIZE" by (simp_all add: BLOCK_SIZE_def)
  ultimately have "n * BLOCK_SIZE \<le> plen + BLOCK_SIZE - 1" "plen - 1 < n * BLOCK_SIZE"
    unfolding x_def by linarith+
  moreover have "k + 1 \<le> n" using assms(5) by simp
  ultimately show "k * BLOCK_SIZE < plen" "0 < block_length plen n k" "block_length plen n k \<le> BLOCK_SIZE"
    "k * BLOCK_SIZE + block_length plen n k = (if k = n - 1 then plen else (k + 1) * BLOCK_SIZE)"
    "k * BLOCK_SIZE + block_length plen n k \<le> plen"
    by (auto simp: block_length_def BLOCK_SIZE_def)
qed



end
