(* ===== verification/Scripted_Peer.thy ===== *)
theory Scripted_Peer
  imports Downloader
begin

text \<open>
  A concrete instance of the network parameter: a peer whose bytes are fixed in advance. It
  accepts the connection and every write, and a read takes the next bytes or ends with an error.
  On it the downloader is run from end to end: a peer that serves correct blocks in any order
  makes the download succeed, and a block outside the piece is a write out of bounds.
\<close>

section \<open>The network\<close>

record script =
  incoming :: bytes
  outgoing :: "bytes list"
  opened :: bool
  ec :: "error_code option"
  got :: bytes

definition script_of :: "bytes \<Rightarrow> script" where
  "script_of bs = \<lparr>incoming = bs, outgoing = [], opened = False, ec = None, got = []\<rparr>"

definition script_asio :: "script asio" where
  "script_asio = \<lparr>
     new_engine = (\<lambda>w. w\<lparr>opened := False, ec := None\<rparr>),
     async_connect = (\<lambda>ip port w. w\<lparr>opened := True, ec := Some no_error\<rparr>),
     async_write = (\<lambda>buf w. w\<lparr>outgoing := outgoing w @ [buf], ec := Some no_error\<rparr>),
     async_read = (\<lambda>n w. if n \<le> length (incoming w)
        then w\<lparr>got := take n (incoming w), incoming := drop n (incoming w), ec := Some no_error\<rparr>
        else w\<lparr>ec := Some other_error\<rparr>),
     ctx_restart = (\<lambda>w. w),
     ctx_run_for = (\<lambda>t w. w),
     ctx_run = (\<lambda>w. w),
     ctx_stopped = (\<lambda>w. True),
     sock_shutdown = (\<lambda>w. (True, w)),
     sock_close = (\<lambda>w. (True, w\<lparr>opened := False\<rparr>)),
     sock_is_open = opened,
     callback_ec = ec,
     received = got,
     now = (\<lambda>w. 0)\<rparr>"

lemma script_run [simp]: "socket_run script_asio t w = w"
  by (simp add: socket_run_def script_asio_def Let_def)

lemma script_finite: "finite_feed script_asio (\<lambda>w. length (incoming w))"
  by (simp add: finite_feed_def) (auto simp add: script_asio_def handler_ec_def)

lemma script_write:
  "socket_write script_asio buf t w = (Ret (OK ()), w\<lparr>outgoing := outgoing w @ [buf], ec := Some no_error\<rparr>)"
  by (simp add: socket_write_def Let_def) (simp add: script_asio_def handler_ec_def ec_result_def)

lemma script_connect [simp]:
  "socket_connect script_asio i p t w = (Ret (OK ()), w\<lparr>opened := True, ec := Some no_error\<rparr>)"
  by (simp add: socket_connect_def Let_def) (simp add: script_asio_def handler_ec_def ec_result_def)

lemma script_new_engine [simp]: "new_engine script_asio w = w\<lparr>opened := False, ec := None\<rparr>"
  by (simp add: script_asio_def)

lemma script_read:
  assumes "incoming w = bs @ rest" "int (length bs) = n"
  shows "socket_read script_asio n t w = (Ret (OK bs), w\<lparr>got := bs, incoming := rest, ec := Some no_error\<rparr>)"
  using assms by (simp add: socket_read_def Let_def) (auto simp add: script_asio_def handler_ec_def ec_result_def)

section \<open>Messages on the wire\<close>

lemma encode_msg_frame:
  assumes "msg_ok td m" "encode_msg m = Ret f"
  shows "\<exists>a b c d rest. f = a # b # c # d # rest \<and> decode_integer [a, b, c, d] = int (length rest)"
proof (cases "m = KeepAliveMessage")
  case True
  moreover have "decode_integer [0, 0, 0, 0] = 0" by code_simp
  ultimately show ?thesis using assms(2) by (auto simp: encode_msg_def)
next
  case False
  then obtain payload where p: "encode_payload m = Ret payload" "int (length payload) < 2 ^ 32 - 1"
    using payload_roundtrip [OF assms(1)] by blast
  have "encode_msg m = encode_framed m" using False by (cases m) (simp_all add: encode_msg_def)
  with assms(2) p show ?thesis by (metis encode_framed_frame length_Cons of_nat_Suc outcome.inject(1))
qed

text \<open>The bytes of a sequence of messages.\<close>

definition frame :: "Message \<Rightarrow> bytes" where
  "frame m = (case encode_msg m of Ret f \<Rightarrow> f | _ \<Rightarrow> [])"

definition wire :: "Message list \<Rightarrow> bytes" where
  "wire ms = concat (map frame ms)"

lemma wire_simps [simp]: "wire [] = []" "wire (m # ms) = frame m @ wire ms"
  by (simp_all add: wire_def)

lemma recv_script:
  assumes "has_socket d" "incoming (world d) = frame m @ rest" "msg_ok (dl_torrent d) m"
  shows "\<exists>w. recv_message script_asio t d = (Ret (OK m), d\<lparr>world := w\<rparr>) \<and> incoming w = rest"
proof -
  obtain f where f: "encode_msg m = Ret f" "decode_msg (dl_torrent d) f = OK m"
    using decode_encode_msg [OF assms(3)] by blast
  obtain a b c e p where fr: "f = a # b # c # e # p" "decode_integer [a, b, c, e] = int (length p)"
    using encode_msg_frame [OF assms(3) f(1)] by blast
  have inc: "incoming (world d) = [a, b, c, e] @ p @ rest" using assms(2) f(1) fr(1) by (simp add: frame_def)
  let ?w = "world d\<lparr>got := [a, b, c, e], incoming := p @ rest, ec := Some no_error\<rparr>"
  have r1: "socket_read script_asio 4 t (world d) = (Ret (OK [a, b, c, e]), ?w)"
    using script_read [OF inc, of 4 t] by simp
  have r2: "socket_read script_asio (int (length p)) t' ?w =
      (Ret (OK p), ?w\<lparr>got := p, incoming := rest, ec := Some no_error\<rparr>)" for t'
    by (rule script_read) simp_all
  have "recv_message script_asio t d = (Ret (OK m), d\<lparr>world := ?w\<lparr>got := p, incoming := rest, ec := Some no_error\<rparr>\<rparr>)"
    using assms(1) r1 r2 fr f(2) by (simp add: recv_message_def Let_def)
  then show ?thesis by auto
qed

lemma send_script:
  assumes "has_socket d" "encode_msg m = Ret buf"
  shows "\<exists>w. send_message script_asio m t d = (Ret (OK ()), d\<lparr>world := w\<rparr>) \<and>
     incoming w = incoming (world d) \<and> outgoing w = outgoing (world d) @ [buf]"
  using assms by (auto simp: send_message_def script_write)

section \<open>Connecting\<close>

text \<open>A peer's half of the handshake: any 68 bytes with the info hash in its place.\<close>

definition greets :: "TorrentFile \<Rightarrow> bytes \<Rightarrow> bool" where
  "greets td hello \<longleftrightarrow> int (length hello) = HANDSHAKE_LENGTH \<and> take 20 (drop INFO_HASH_OFFSET hello) = info_hash td"

lemma handshake_script:
  assumes "has_socket d" "incoming (world d) = hello @ rest" "greets (dl_torrent d) hello"
  shows "\<exists>w. handshake script_asio d = (Ret (OK ()), d\<lparr>world := w\<rparr>) \<and> incoming w = rest"
proof -
  let ?w = "world d\<lparr>outgoing := outgoing (world d) @ [handshake_message (dl_torrent d)], ec := Some no_error\<rparr>"
  have "socket_read script_asio HANDSHAKE_LENGTH (seconds 5) ?w =
      (Ret (OK hello), ?w\<lparr>got := hello, incoming := rest, ec := Some no_error\<rparr>)"
    by (rule script_read) (use assms in \<open>simp_all add: greets_def\<close>)
  with assms(1,3) have "handshake script_asio d = (Ret (OK ()), d\<lparr>world := ?w\<lparr>got := hello, incoming := rest, ec := Some no_error\<rparr>\<rparr>)"
    by (simp add: handshake_def script_write greets_def)
  then show ?thesis by auto
qed

lemma greet_script:
  assumes "has_socket d"
  shows "\<exists>w. greet script_asio bf d = (Ret (OK ()), d\<lparr>bitfield := Some bf, choked := True, world := w\<rparr>) \<and>
     incoming w = incoming (world d)"
proof -
  obtain u i where enc: "encode_msg UnchokeMessage = Ret u" "encode_msg InterestedMessage = Ret i"
    using encode_simple by blast
  let ?d = "d\<lparr>bitfield := Some bf\<rparr>"
  obtain w where u: "send_message script_asio UnchokeMessage (seconds 5) ?d = (Ret (OK ()), ?d\<lparr>world := w\<rparr>)"
      "incoming w = incoming (world d)"
    using send_script [of ?d, OF _ enc(1), of "seconds 5"] assms by auto
  obtain w2 where "send_message script_asio InterestedMessage (seconds 5) (?d\<lparr>world := w\<rparr>) = (Ret (OK ()), ?d\<lparr>world := w2\<rparr>)"
      "incoming w2 = incoming (world d)"
    using send_script [of "?d\<lparr>world := w\<rparr>", OF _ enc(2), of "seconds 5"] assms u(2) by auto
  with u show ?thesis
    by (intro exI [of _ w2]) (simp add: greet_def)
qed

text \<open>A peer that greets, sends its bitfield and unchokes us is connected to.\<close>

lemma ensure_connected_script:
  assumes "incoming w = hello @ wire (BitfieldMessage bf # UnchokeMessage # ms) @ rest"
    and "greets td hello" and "msg_ok td (BitfieldMessage bf)"
  shows "\<exists>d. ensure_connected script_asio (Downloader_of td peer w) = Some (Ret (OK ()), d) \<and>
     has_socket d \<and> \<not> choked d \<and> bitfield d = Some bf \<and> dl_torrent d = td \<and> incoming (world d) = wire ms @ rest"
proof -
  define d0 where "d0 = (Downloader_of td peer w)\<lparr>choked := True, has_socket := True, world := w\<lparr>opened := True, ec := Some no_error\<rparr>\<rparr>"
  have d0: "has_socket d0" "dl_torrent d0 = td" "incoming (world d0) = hello @ wire (BitfieldMessage bf # UnchokeMessage # ms) @ rest"
    using assms(1) by (simp_all add: d0_def Downloader_of_def)
  obtain w1 where h: "handshake script_asio d0 = (Ret (OK ()), d0\<lparr>world := w1\<rparr>)"
      "incoming w1 = frame (BitfieldMessage bf) @ wire (UnchokeMessage # ms) @ rest"
    using handshake_script [OF d0(1,3)] assms(2) d0(2) by auto
  obtain w2 where b: "recv_message script_asio (seconds 5) (d0\<lparr>world := w1\<rparr>) = (Ret (OK (BitfieldMessage bf)), d0\<lparr>world := w2\<rparr>)"
      "incoming w2 = wire (UnchokeMessage # ms) @ rest"
    using recv_script [of "d0\<lparr>world := w1\<rparr>" "BitfieldMessage bf"] h(2) d0 assms(3) by auto
  obtain w3 where g: "greet script_asio bf (d0\<lparr>world := w2\<rparr>) = (Ret (OK ()), d0\<lparr>bitfield := Some bf, choked := True, world := w3\<rparr>)"
      "incoming w3 = wire (UnchokeMessage # ms) @ rest"
    using greet_script [of "d0\<lparr>world := w2\<rparr>" bf] d0(1) b(2) by auto
  let ?d3 = "d0\<lparr>bitfield := Some bf, choked := True, world := w3\<rparr>"
  have "open_connection script_asio (Downloader_of td peer w) =
      and_then (handshake script_asio) (\<lambda>_. and_then (recv_message script_asio (seconds 5)) (\<lambda>message.
        case message of BitfieldMessage bf \<Rightarrow> greet script_asio bf | _ \<Rightarrow> fail_with script_asio NoBitfield)) d0"
    by (simp add: open_connection_def d0_def Downloader_of_def script_connect)
  then have oc: "open_connection script_asio (Downloader_of td peer w) = (Ret (OK ()), ?d3)"
    using h b g by simp
  obtain w4 where u: "recv_message script_asio (milliseconds 50) ?d3 = (Ret (OK UnchokeMessage), ?d3\<lparr>world := w4\<rparr>)"
      "incoming w4 = wire ms @ rest"
    using recv_script [of ?d3 UnchokeMessage] g(2) d0 by auto
  let ?d4 = "?d3\<lparr>world := w4, choked := False\<rparr>"
  have "await_unchoke script_asio ?d3 = Some (Ret (OK ()), ?d4)"
    unfolding await_unchoke_def
    by (subst while_eff_step [where x' = "()" and s' = ?d4]) (simp_all add: u(1) while_eff_done)
  then have "ensure_connected script_asio (Downloader_of td peer w) = Some (Ret (OK ()), ?d4)"
    using oc by (simp add: ensure_connected_def Downloader_of_def)
  with u(2) d0 show ?thesis by simp
qed

section \<open>The download\<close>

definition requestable :: "int \<Rightarrow> int \<Rightarrow> int \<Rightarrow> bool" where
  "requestable index plen n \<longleftrightarrow> fits_u32 index \<and>
     (\<forall>k. 0 \<le> k \<and> k < n \<longrightarrow> fits_u32 (k * BLOCK_SIZE) \<and> fits_u32 (block_length plen n k))"

lemma requestable_small:
  assumes "fits_u32 index" "0 < plen" "plen < 2 ^ 32" "blocks_total plen = Ret n"
  shows "requestable index plen n"
  unfolding requestable_def
proof (intro conjI allI impI assms(1))
  fix k
  assume "0 \<le> k \<and> k < n"
  moreover have "plen \<le> int64_max - BLOCK_SIZE" using assms(3) by (simp add: int64_max_def BLOCK_SIZE_def)
  ultimately have r: "k * BLOCK_SIZE < plen" "0 < block_length plen n k" "k * BLOCK_SIZE + block_length plen n k \<le> plen" "0 \<le> k * BLOCK_SIZE"
    using block_range [OF assms(2) _ assms(4)] by (simp_all add: BLOCK_SIZE_def)
  then show "fits_u32 (k * BLOCK_SIZE)" "fits_u32 (block_length plen n k)"
    using assms(3) by (simp_all add: fits_u32_def)
qed

lemma request_script:
  assumes "requestable index plen n" "0 \<le> req" "has_socket d"
  shows "\<exists>k w. request_blocks script_asio index plen n rcv req d = (Ret (OK k), d\<lparr>world := w\<rparr>) \<and>
     incoming w = incoming (world d) \<and> 0 \<le> k"
  using assms(2,3)
proof (induction "nat (n - req)" arbitrary: req d rule: less_induct)
  case less
  show ?case
  proof (cases "req - rcv < PIPELINE_SIZE_MAX \<and> req < n")
    case True
    let ?m = "RequestMessage index (req * BLOCK_SIZE) (block_length plen n req)"
    have "msg_ok example_desc ?m" using assms(1) True less.prems by (simp add: requestable_def)
    then obtain buf where "encode_msg ?m = Ret buf" using decode_encode_msg by blast
    from send_script [OF less.prems(2) this, of "seconds 5"] obtain w where
      s: "send_message script_asio ?m (seconds 5) d = (Ret (OK ()), d\<lparr>world := w\<rparr>)" "incoming w = incoming (world d)" by auto
    obtain k w' where "request_blocks script_asio index plen n rcv (req + 1) (d\<lparr>world := w\<rparr>) = (Ret (OK k), d\<lparr>world := w'\<rparr>)"
        "incoming w' = incoming w" "0 \<le> k"
      using less.hyps [of "req + 1" "d\<lparr>world := w\<rparr>"] True less.prems by auto
    with True s show ?thesis
      by (intro exI [of _ k] exI [of _ w'])
        (simp add: request_blocks.simps [of script_asio index plen n rcv req])
  next
    case False
    then show ?thesis
      using less.prems by (intro exI [of _ req] exI [of _ "world d"]) (auto simp: request_blocks.simps [of script_asio index plen n rcv req])
  qed
qed

text \<open>
  A message that does no harm while the piece \<open>content\<close> is downloaded: a block has to be a slice
  of the content, and everything else except an announcement of a new piece is allowed.
\<close>

fun serves :: "bytes \<Rightarrow> Message \<Rightarrow> bool" where
  "serves content (PieceMessage i b block) \<longleftrightarrow>
     nat b + length block \<le> length content \<and> block = take (length block) (drop (nat b) content)"
| "serves content (HaveMessage i) \<longleftrightarrow> False"
| "serves content _ \<longleftrightarrow> True"

fun covers :: "Message \<Rightarrow> nat \<Rightarrow> bool" where
  "covers (PieceMessage i b block) j \<longleftrightarrow> nat b \<le> j \<and> j < nat b + length block"
| "covers _ j \<longleftrightarrow> False"

definition pieces_in :: "Message list \<Rightarrow> int" where
  "pieces_in ms = int (length (filter (\<lambda>m. kind m = PieceKind) ms))"

lemma covers_PieceKind: "covers m j \<Longrightarrow> kind m = PieceKind"
  by (cases m) simp_all

text \<open>One message: the buffer gets closer to the content.\<close>

lemma handle_message_serves:
  assumes "serves content m" "msg_ok td m" "length (piece_buf p) = length content"
    and "\<forall>j < length content. piece_buf p ! j = content ! j \<or> covers m j \<or> R j"
  shows "\<exists>p' d'. handle_message m p d = (Ret p', d') \<and> length (piece_buf p') = length content \<and>
     has_socket d' = has_socket d \<and> dl_torrent d' = dl_torrent d \<and> world d' = world d \<and>
     blocks_requested p' = blocks_requested p \<and>
     blocks_received p' = blocks_received p + (if kind m = PieceKind then 1 else 0) \<and>
     (\<forall>j < length content. piece_buf p' ! j = content ! j \<or> R j)"
proof (cases m)
  case (PieceMessage i b block)
  with assms have b: "0 \<le> b" "nat b + length block \<le> length content" "block = take (length block) (drop (nat b) content)"
    by (simp_all add: fits_u32_def)
  let ?buf = "take (nat b) (piece_buf p) @ block @ drop (nat b + length block) (piece_buf p)"
  have c: "copy_block (piece_buf p) b block = Ret ?buf" using b assms(3) by (simp add: copy_block_def)
  have "?buf ! j = content ! j \<or> R j" if "j < length content" for j
  proof -
    have "block ! (j - nat b) = content ! j" if "nat b \<le> j" "j < nat b + length block"
      using that b(2) by (subst b(3)) (simp add: nth_take)
    then show ?thesis using assms(3,4) that b(2) PieceMessage by (auto simp: nth_append)
  qed
  with c b assms(3) PieceMessage show ?thesis by (simp add: handle_message_def)
qed (use assms in \<open>simp_all add: handle_message_def\<close>)

text \<open>The loop on a peer that serves the content: it ends with the content in the buffer.\<close>

lemma download_loop_serves:
  assumes req: "requestable index plen n"
  shows "has_socket d \<Longrightarrow> incoming (world d) = wire ms @ rest \<Longrightarrow>
    \<forall>m \<in> set ms. msg_ok (dl_torrent d) m \<and> serves content m \<Longrightarrow>
    blocks_received p + pieces_in ms = n \<Longrightarrow> 0 \<le> blocks_requested p \<Longrightarrow> length (piece_buf p) = length content \<Longrightarrow>
    \<forall>j < length content. piece_buf p ! j = content ! j \<or> (\<exists>m \<in> set ms. covers m j) \<Longrightarrow>
    \<exists>p' d'. download_loop script_asio index plen n p d = Some (Ret (OK p'), d') \<and> piece_buf p' = content"
proof (induction ms arbitrary: p d)
  case Nil
  then have "piece_buf p = content" by (auto intro: nth_equalityI)
  with Nil show ?case by (simp add: download_loop_def while_eff_done pieces_in_def)
next
  case (Cons m ms)
  show ?case
  proof (cases "blocks_received p < n")
    case False
    moreover have "0 \<le> pieces_in (m # ms)" unfolding pieces_in_def by (rule of_nat_0_le_iff)
    ultimately have "pieces_in (m # ms) = 0" using Cons.prems(4) by linarith
    then have "\<forall>x \<in> set (m # ms). kind x \<noteq> PieceKind" by (simp add: pieces_in_def filter_empty_conv del: filter.simps)
    with Cons.prems(7) have "\<forall>j < length content. piece_buf p ! j = content ! j" using covers_PieceKind by blast
    with Cons.prems(6) have "piece_buf p = content" by (auto intro: nth_equalityI)
    with False show ?thesis by (simp add: download_loop_def while_eff_done)
  next
    case True
    obtain k w where rq: "(if \<not> choked d then request_blocks script_asio index plen n (blocks_received p) (blocks_requested p) d
        else (Ret (OK (blocks_requested p)), d)) = (Ret (OK k), d\<lparr>world := w\<rparr>)" "incoming w = incoming (world d)" "0 \<le> k"
      using request_script [OF req Cons.prems(5,1), of "blocks_received p"] Cons.prems(5)
      by (cases "choked d") (auto intro: that [of "blocks_requested p" "world d"])
    obtain w2 where rv: "recv_message script_asio (wait_time p) (d\<lparr>world := w\<rparr>) = (Ret (OK m), d\<lparr>world := w2\<rparr>)"
        "incoming w2 = wire ms @ rest"
      using recv_script [of "d\<lparr>world := w\<rparr>" m "wire ms @ rest" "wait_time p"] Cons.prems(1,2,3) rq(2) by auto
    have "\<forall>j < length content. piece_buf (p\<lparr>blocks_requested := k\<rparr>) ! j = content ! j \<or> covers m j \<or> (\<exists>m \<in> set ms. covers m j)"
      using Cons.prems(7) by auto
    from handle_message_serves [OF _ _ _ this, of "dl_torrent d" "d\<lparr>world := w2\<rparr>"] Cons.prems(3,6)
    obtain p' d' where hm: "handle_message m (p\<lparr>blocks_requested := k\<rparr>) (d\<lparr>world := w2\<rparr>) = (Ret p', d')"
        "length (piece_buf p') = length content" "has_socket d' = has_socket d" "dl_torrent d' = dl_torrent d" "world d' = w2"
        "blocks_requested p' = k" "blocks_received p' = blocks_received p + (if kind m = PieceKind then 1 else 0)"
        "\<forall>j < length content. piece_buf p' ! j = content ! j \<or> (\<exists>m \<in> set ms. covers m j)"
      by auto
    have "download_iteration script_asio index plen n p d = (Ret (OK p'), d')"
      using download_iteration_intro [OF rq(1) rv(1) hm(1)] by simp
    then have "download_loop script_asio index plen n p d = download_loop script_asio index plen n p' d'"
      using True by (simp add: download_loop_def while_eff_step)
    moreover have "\<exists>q d''. download_loop script_asio index plen n p' d' = Some (Ret (OK q), d'') \<and> piece_buf q = content"
      by (rule Cons.IH) (use Cons.prems hm rv(2) rq(3) in \<open>auto simp: pieces_in_def\<close>)
    ultimately show ?thesis by simp
  qed
qed

text \<open>What the descriptor says about a piece, and a peer that serves it.\<close>

definition piece_content :: "TorrentFile \<Rightarrow> int \<Rightarrow> bytes \<Rightarrow> bool" where
  "piece_content td index content \<longleftrightarrow> 0 \<le> index \<and> index < pieces_count td \<and> index < int (length (piece_hashes td)) \<and>
     expected_length td index = Ret (int (length content)) \<and> content \<noteq> [] \<and> length content < 2 ^ 29 \<and>
     piece_hashes td ! nat index = sha1 content"

definition honest :: "TorrentFile \<Rightarrow> int \<Rightarrow> bytes \<Rightarrow> bytes \<Rightarrow> Bitfield \<Rightarrow> Message list \<Rightarrow> bool" where
  "honest td index content hello bf ms \<longleftrightarrow>
     greets td hello \<and> msg_ok td (BitfieldMessage bf) \<and> get_bit_at bf index = Ret True \<and>
     (\<forall>m \<in> set ms. msg_ok td m \<and> serves content m) \<and>
     Ret (pieces_in ms) = blocks_total (int (length content)) \<and>
     (\<forall>j < length content. \<exists>m \<in> set ms. covers m j)"

lemma honest_download:
  assumes "piece_content td (pindex task) content" "fits_u32 (pindex task)"
    and "honest td (pindex task) content hello bf ms"
  shows "\<exists>d. try_download script_asio task
       (Downloader_of td peer (script_of (hello @ wire (BitfieldMessage bf # UnchokeMessage # ms))))
     = Some (Ret (OK \<lparr>dindex = pindex task, dcontent = content\<rparr>), d)"
proof -
  let ?i = "pindex task" and ?plen = "int (length content)"
  let ?w = "script_of (hello @ wire (BitfieldMessage bf # UnchokeMessage # ms))"
  note pc = assms(1) [unfolded piece_content_def] and h = assms(3) [unfolded honest_def]
  obtain d where d: "ensure_connected script_asio (Downloader_of td peer ?w) = Some (Ret (OK ()), d)"
      "has_socket d" "bitfield d = Some bf" "dl_torrent d = td" "incoming (world d) = wire ms @ []"
    using ensure_connected_script [of ?w hello bf ms "[]" td peer] h by (auto simp: script_of_def)
  have n: "blocks_total ?plen = Ret (pieces_in ms)" using h by simp
  have small: "?plen < 2 ^ 32" using pc by simp
  have "requestable ?i ?plen (pieces_in ms)" by (rule requestable_small [OF assms(2) _ small n]) (use pc in simp)
  from download_loop_serves [OF this d(2,5), of content "initial_progress ?plen"] h d(4)
  obtain p d' where l: "download_loop script_asio ?i ?plen (pieces_in ms) (initial_progress ?plen) d = Some (Ret (OK p), d')"
      "piece_buf p = content"
    by (auto simp: initial_progress_def)
  have "plan_piece td (Some bf) ?i = Ret (OK (?plen, pieces_in ms))"
    using h n pc by (simp add: plan_piece_def)
  moreover have "finish_piece td ?i p = Ret (OK \<lparr>dindex = ?i, dcontent = content\<rparr>)"
    using pc l(2) by (auto simp: finish_piece_def verify_piece_cases vec_at_def)
  ultimately show ?thesis using pc d(1,3) l(1) by (simp add: try_download_def Downloader_of_def)
qed

text \<open>A small torrent of one piece and a peer that has it.\<close>

definition demo_td :: TorrentFile where
  "demo_td = example_desc\<lparr>info_hash := replicate 20 7, piece_hashes := [sha1 [1, 2, 3]], piece_length := 4,
     tlength := 3, pieces_count := 1\<rparr>"

definition demo_task :: Piece where
  "demo_task = \<lparr>pindex = 0, subpieces = []\<rparr>"

definition demo_hello :: bytes where
  "demo_hello = replicate 28 0 @ replicate 20 7 @ replicate 20 0"

definition demo_bf :: Bitfield where
  "demo_bf = \<lparr>len = 1, storage = [0x80]\<rparr>"

definition demo_ms :: "Message list" where
  "demo_ms = [KeepAliveMessage, PieceMessage 0 0 [1, 2, 3]]"

definition demo_peer :: "bytes \<Rightarrow> script Downloader" where
  "demo_peer bs = Downloader_of demo_td Peer_empty (script_of bs)"

lemma demo_content: "piece_content demo_td (pindex demo_task) [1, 2, 3]"
  by (simp add: piece_content_def demo_td_def demo_task_def expected_length_def arith64 int64_min_def int64_max_def)

lemma demo_greets: "greets demo_td demo_hello" "msg_ok demo_td (BitfieldMessage demo_bf)" "get_bit_at demo_bf 0 = Ret True"
proof -
  show "greets demo_td demo_hello"
    by (simp add: greets_def demo_td_def demo_hello_def HANDSHAKE_LENGTH_def INFO_HASH_OFFSET_def)
  show "msg_ok demo_td (BitfieldMessage demo_bf)" by (simp add: demo_bf_def demo_td_def)
  show "get_bit_at demo_bf 0 = Ret True" by code_simp
qed

lemma demo_honest: "honest demo_td (pindex demo_task) [1, 2, 3] demo_hello demo_bf demo_ms"
  using demo_greets
  by (simp add: honest_def demo_ms_def demo_task_def pieces_in_def fits_u32_def blocks_total_eq BLOCK_SIZE_def int64_max_def)

lemma demo_run:
  "\<exists>d. try_download script_asio demo_task
       (demo_peer (demo_hello @ wire (BitfieldMessage demo_bf # UnchokeMessage # demo_ms)))
     = Some (Ret (OK \<lparr>dindex = pindex demo_task, dcontent = [1, 2, 3]\<rparr>), d)"
proof -
  have "fits_u32 (pindex demo_task)" by (simp add: demo_task_def fits_u32_def)
  from honest_download [OF demo_content this demo_honest, of Peer_empty] show ?thesis by (simp add: demo_peer_def)
qed

text \<open>
  C8. A peer that serves a piece gets it downloaded: it shakes hands, says that it has the piece,
  unchokes us and then sends as many blocks as are requested, in any order and of any sizes, each
  a slice of the piece and together all of it, between whatever other messages. The attempt
  returns exactly the piece.
\<close>

theorem honest_peer_download_succeeds:
  assumes "piece_content td (pindex task) content" "fits_u32 (pindex task)"
    and "honest td (pindex task) content hello bf ms"
  shows "\<exists>d. try_download script_asio task
       (Downloader_of td peer (script_of (hello @ wire (BitfieldMessage bf # UnchokeMessage # ms))))
     = Some (Ret (OK \<lparr>dindex = pindex task, dcontent = content\<rparr>), d)"
  using assms by (rule honest_download)

theorem honest_peer_download_succeeds_witness:
  "piece_content demo_td (pindex demo_task) [1, 2, 3] \<and> fits_u32 (pindex demo_task) \<and>
   honest demo_td (pindex demo_task) [1, 2, 3] demo_hello demo_bf demo_ms \<and>
   (\<exists>d. try_download script_asio demo_task
       (Downloader_of demo_td Peer_empty (script_of (demo_hello @ wire (BitfieldMessage demo_bf # UnchokeMessage # demo_ms))))
     = Some (Ret (OK \<lparr>dindex = pindex demo_task, dcontent = [1, 2, 3]\<rparr>), d))"
proof -
  have "fits_u32 (pindex demo_task)" by (simp add: demo_task_def fits_u32_def)
  with honest_peer_download_succeeds [OF demo_content this demo_honest, of Peer_empty] demo_content demo_honest
  show ?thesis by simp
qed

section \<open>Every attempt\<close>



text \<open>
  C2. Integrity: whatever the peer and the network do, a piece that a download attempt returns is
  the one asked for, has the length the torrent gives it, and its SHA-1 digest is the hash the
  torrent lists for it.
\<close>

theorem try_download_integrity:
  assumes "try_download A task d = Some (Ret (OK dl), d')"
  shows "dindex dl = pindex task \<and> 0 \<le> pindex task \<and> pindex task < pieces_count (dl_torrent d) \<and>
     expected_length (dl_torrent d) (pindex task) = Ret (int (length (dcontent dl))) \<and>
     sha1 (dcontent dl) = piece_hashes (dl_torrent d) ! nat (pindex task)"
  using try_download_verified [OF assms] by simp

theorem try_download_integrity_witness:
  "\<exists>dl d'. try_download script_asio demo_task
       (demo_peer (demo_hello @ wire (BitfieldMessage demo_bf # UnchokeMessage # demo_ms))) = Some (Ret (OK dl), d') \<and>
     sha1 (dcontent dl) = sha1 [1, 2, 3]"
proof -
  obtain d' where t: "try_download script_asio demo_task
       (demo_peer (demo_hello @ wire (BitfieldMessage demo_bf # UnchokeMessage # demo_ms))) =
       Some (Ret (OK \<lparr>dindex = pindex demo_task, dcontent = [1, 2, 3]\<rparr>), d')"
    using demo_run by blast
  from try_download_integrity [OF t] t show ?thesis by auto
qed

text \<open>
  C9. Termination: from a peer that sends finitely many bytes, whatever they are, a download
  attempt returns, with a piece, an error, an exception or a fault.
\<close>

theorem try_download_returns:
  assumes "finite_feed A left"
  shows "\<exists>r d'. try_download A task d = Some (r, d')"
  using assms by (rule finite_feed_returns)

theorem try_download_returns_witness:
  "finite_feed script_asio (\<lambda>w. length (incoming w)) \<and>
   (\<exists>r d'. try_download script_asio demo_task (demo_peer [0, 0, 0]) = Some (r, d'))"
  using try_download_returns [OF script_finite] script_finite by simp

text \<open>
  C34. The offset and the length of a block come from the peer and are not checked: a first block
  that reaches past the end of the piece makes the download write out of bounds.
\<close>

theorem block_past_the_piece_overflows:
  assumes "piece_content td (pindex task) content" "fits_u32 (pindex task)"
    and "greets td hello" "msg_ok td (BitfieldMessage bf)" "get_bit_at bf (pindex task) = Ret True"
    and "msg_ok td (PieceMessage i b block)" "b + int (length block) > int (length content)"
  shows "\<exists>d. try_download script_asio task
       (Downloader_of td peer (script_of (hello @ wire [BitfieldMessage bf, UnchokeMessage, PieceMessage i b block])))
     = Some (UB OutOfBounds, d)"
proof -
  let ?i = "pindex task" and ?plen = "int (length content)"
  let ?p = "initial_progress ?plen"
  let ?w = "script_of (hello @ wire [BitfieldMessage bf, UnchokeMessage, PieceMessage i b block])"
  note pc = assms(1) [unfolded piece_content_def]
  obtain d where d: "ensure_connected script_asio (Downloader_of td peer ?w) = Some (Ret (OK ()), d)"
      "has_socket d" "\<not> choked d" "bitfield d = Some bf" "dl_torrent d = td" "incoming (world d) = frame (PieceMessage i b block)"
    using ensure_connected_script [of ?w hello bf "[PieceMessage i b block]" "[]" td peer] assms(3,4)
    by (auto simp: script_of_def)
  have fits: "?plen \<le> int64_max - BLOCK_SIZE" using pc by (simp add: int64_max_def BLOCK_SIZE_def)
  with pc have n: "blocks_total ?plen = Ret ((?plen + BLOCK_SIZE - 1) div BLOCK_SIZE)" (is "_ = Ret ?n")
    by (intro blocks_total_eq) simp_all
  have "0 < ?n" by (rule blocks_total_pos [OF _ fits n]) (use pc in simp)
  have "requestable ?i ?plen ?n" by (rule requestable_small [OF assms(2) _ _ n]) (use pc in simp_all)
  from request_script [OF this, of "blocks_requested ?p" d "blocks_received ?p"] d(2,3)
  obtain k w where rq: "(if \<not> choked d then request_blocks script_asio ?i ?plen ?n (blocks_received ?p) (blocks_requested ?p) d
      else (Ret (OK (blocks_requested ?p)), d)) = (Ret (OK k), d\<lparr>world := w\<rparr>)" "incoming w = incoming (world d)"
    by (auto simp: initial_progress_def)
  obtain w2 where rv: "recv_message script_asio (wait_time ?p) (d\<lparr>world := w\<rparr>) = (Ret (OK (PieceMessage i b block)), d\<lparr>world := w2\<rparr>)"
    using recv_script [of "d\<lparr>world := w\<rparr>" "PieceMessage i b block" "[]" "wait_time ?p"] d assms(6) rq(2) by auto
  have "handle_message (PieceMessage i b block) (?p\<lparr>blocks_requested := k\<rparr>) (d\<lparr>world := w2\<rparr>) = (UB OutOfBounds, d\<lparr>world := w2\<rparr>)"
    using assms(7) by (simp add: handle_message_def copy_block_def initial_progress_def)
  from download_iteration_intro [OF rq(1) rv this]
  have "download_loop script_asio ?i ?plen ?n ?p d = Some (UB OutOfBounds, d\<lparr>world := w2\<rparr>)"
    using \<open>0 < ?n\<close> by (simp add: download_loop_def while_eff_stop initial_progress_def)
  moreover have "plan_piece td (Some bf) ?i = Ret (OK (?plen, ?n))"
    using assms(5) n pc by (simp add: plan_piece_def)
  ultimately show ?thesis using pc d(1,4) by (simp add: try_download_def Downloader_of_def)
qed

theorem block_past_the_piece_overflows_witness:
  "\<exists>d. try_download script_asio demo_task
       (Downloader_of demo_td Peer_empty
          (script_of (demo_hello @ wire [BitfieldMessage demo_bf, UnchokeMessage, PieceMessage 0 1000 [1]])))
     = Some (UB OutOfBounds, d)"
proof -
  have "msg_ok demo_td (PieceMessage 0 1000 [1])" "fits_u32 (pindex demo_task)" "pindex demo_task = 0"
    by (simp_all add: fits_u32_def demo_task_def)
  with block_past_the_piece_overflows [OF demo_content _ demo_greets(1,2), of 0 1000 "[1]" Peer_empty] demo_greets(3)
  show ?thesis by simp
qed

end
