(* ===== verification/Piece_Task.thy ===== *)
theory Piece_Task
  imports Scripted_Peer Platform_IO
begin

text \<open>
  The task of one piece (class \<open>PieceTask\<close> in furrent.hpp and furrent.cpp): download the piece
  from a peer with a fresh \<open>Downloader\<close>, then write it to the files. The lemmas say what a
  completed task has put on the disk when the piece lies in one file, and what happens when it
  does not.
\<close>

section \<open>Definitions\<close>

record PieceTask =
  pt_data :: "Downloaded option"
  pt_tid :: TorrentID
  pt_piece :: Piece
  pt_descriptor :: TorrentFile

definition PieceTask_empty :: PieceTask where
  "PieceTask_empty = \<lparr>pt_data = None, pt_tid = 0, pt_piece = \<lparr>pindex = 0, subpieces = []\<rparr>, pt_descriptor = empty_TorrentFile\<rparr>"

definition PieceTask_of :: "TorrentID \<times> Piece \<times> TorrentFile \<Rightarrow> PieceTask" where
  "PieceTask_of = (\<lambda>(i, p, td). \<lparr>pt_data = None, pt_tid = i, pt_piece = p, pt_descriptor = td\<rparr>)"

text \<open>The state of the network is that of the moment; it is not kept between calls.\<close>

definition keep_download :: "PieceTask \<Rightarrow> (Downloaded, DownloaderError) Result outcome \<Rightarrow> bool outcome \<times> PieceTask" where
  "keep_download task r =
     (case r of
        Ret (OK dl) \<Rightarrow> (Ret True, task\<lparr>pt_data := Some dl\<rparr>)
      | Ret (ERROR e) \<Rightarrow> (Ret False, task)
      | Throw x \<Rightarrow> (Throw x, task)
      | UB u \<Rightarrow> (UB u, task))"

definition task_download :: "'w asio \<Rightarrow> 'w \<Rightarrow> Peer \<Rightarrow> PieceTask \<Rightarrow> (bool outcome \<times> PieceTask) option" where
  "task_download A w peer task =
     (case try_download A (pt_piece task) (Downloader_of (pt_descriptor task) peer w) of
        None \<Rightarrow> None
      | Some (r, d) \<Rightarrow> Some (keep_download task r))"

definition save_path :: "TorrentFile \<Rightarrow> Subpiece \<Rightarrow> string" where
  "save_path td sp = folder_name td @ ''/'' @ sp_filepath sp"

text \<open>\<open>_data.value()\<close> throws when there is no data.\<close>

primrec save_loop :: "TorrentFile \<Rightarrow> Downloaded option \<Rightarrow> Subpiece list \<Rightarrow> (FS, bool) eff" where
  "save_loop td data [] = ret True"
| "save_loop td data (sp # sps) =
     (case data of None \<Rightarrow> lift_outcome (Throw bad_optional_access)
      | Some dl \<Rightarrow>
          bind_eff (write_bytes (save_path td sp) (dcontent dl) (file_offset sp)) (\<lambda>maybe_write.
            case maybe_write of ERROR e \<Rightarrow> ret False | OK _ \<Rightarrow> save_loop td data sps))"

text \<open>After the loop the path of the first subpiece is logged; there has to be one.\<close>

definition task_save :: "PieceTask \<Rightarrow> (FS, bool) eff" where
  "task_save task =
     bind_eff (save_loop (pt_descriptor task) (pt_data task) (subpieces (pt_piece task))) (\<lambda>saved.
       if saved \<and> subpieces (pt_piece task) = [] then lift_outcome (UB OutOfBounds) else ret saved)"

record PieceTaskStats =
  completed :: bool

definition task_process :: "'w asio \<Rightarrow> 'w \<Rightarrow> Peer \<Rightarrow> PieceTask \<Rightarrow> FS \<Rightarrow> (PieceTaskStats outcome \<times> PieceTask \<times> FS) option" where
  "task_process A w peer task fs =
     (case task_download A w peer task of
        None \<Rightarrow> None
      | Some (Ret True, task') \<Rightarrow>
          (case task_save task' fs of
             (Ret saved, fs') \<Rightarrow> Some (Ret \<lparr>completed = saved\<rparr>, task', fs')
           | (Throw x, fs') \<Rightarrow> Some (Throw x, task', fs')
           | (UB u, fs') \<Rightarrow> Some (UB u, task', fs'))
      | Some (Ret False, task') \<Rightarrow> Some (Ret \<lparr>completed = False\<rparr>, task', fs)
      | Some (Throw x, task') \<Rightarrow> Some (Throw x, task', fs)
      | Some (UB u, task') \<Rightarrow> Some (UB u, task', fs))"

section \<open>A piece in one file\<close>

text \<open>What is on the disk where the piece belongs has the hash of the piece.\<close>

definition verified_on_disk :: "TorrentFile \<Rightarrow> FS \<Rightarrow> string \<Rightarrow> int \<Rightarrow> int \<Rightarrow> bool" where
  "verified_on_disk td fs name off i \<longleftrightarrow>
     (\<exists>c n. file_at fs (to_path name) = Some c \<and> expected_length td i = Ret n \<and> 0 \<le> off \<and> 0 \<le> n \<and>
        nat off + nat n \<le> length c \<and>
        sha1 (take (nat n) (drop (nat off) c)) = piece_hashes td ! nat i)"

lemma task_process_completed:
  assumes "task_process A w peer task fs = Some (Ret \<lparr>completed = True\<rparr>, task', fs')"
  obtains dl where "task' = task\<lparr>pt_data := Some dl\<rparr>"
    "expected_length (pt_descriptor task) (pindex (pt_piece task)) = Ret (int (length (dcontent dl)))"
    "sha1 (dcontent dl) = piece_hashes (pt_descriptor task) ! nat (pindex (pt_piece task))"
    "save_loop (pt_descriptor task) (Some dl) (subpieces (pt_piece task)) fs = (Ret True, fs')"
proof -
  obtain t' where td: "task_download A w peer task = Some (Ret True, t')" and sv: "task_save t' fs = (Ret True, fs')" and t': "task' = t'"
    using assms by (auto simp: task_process_def split: option.splits prod.splits outcome.splits bool.splits)
  from td obtain r d where r: "try_download A (pt_piece task) (Downloader_of (pt_descriptor task) peer w) = Some (r, d)"
      "keep_download task r = (Ret True, t')"
    by (auto simp: task_download_def split: option.splits)
  then obtain dl where dl: "try_download A (pt_piece task) (Downloader_of (pt_descriptor task) peer w) = Some (Ret (OK dl), d)"
      "t' = task\<lparr>pt_data := Some dl\<rparr>"
    by (auto simp: keep_download_def split: outcome.splits Result.splits)
  have "save_loop (pt_descriptor task) (Some dl) (subpieces (pt_piece task)) fs = (Ret True, fs')"
    using sv dl(2) by (auto simp: task_save_def bind_eff_def split: prod.splits outcome.splits if_splits)
  with dl t' try_download_verified(4,5) [OF dl(1)] that [of dl] show thesis
    by (simp add: Downloader_of_def)
qed

text \<open>The attempt leaves every file of another name alone.\<close>

lemma save_loop_other:
  "\<forall>sp \<in> set sps. to_path (save_path td sp) \<noteq> k \<Longrightarrow>
     file_at (snd (save_loop td data sps fs)) k = file_at fs k"
proof (induction sps arbitrary: fs)
  case (Cons sp sps)
  show ?case
  proof (cases data)
    case (Some dl)
    obtain r fs1 where w: "write_bytes (save_path td sp) (dcontent dl) (file_offset sp) fs = (r, fs1)"
      by (rule prod.exhaust)
    have "k \<noteq> to_path (save_path td sp)" using Cons.prems by auto
    from write_bytes_other [OF this, of "dcontent dl" "file_offset sp" fs] w have "file_at fs1 k = file_at fs k" by simp
    moreover have "file_at (snd (save_loop td data sps fs1)) k = file_at fs1 k" using Cons by simp
    ultimately show ?thesis using Some w by (auto simp: bind_eff_def split: outcome.split Result.split)
  qed simp
qed simp

lemma task_process_other:
  assumes "task_process A w peer task fs = Some (r, task', fs')"
    and "\<forall>sp \<in> set (subpieces (pt_piece task)). to_path (save_path (pt_descriptor task) sp) \<noteq> k"
  shows "file_at fs' k = file_at fs k"
proof -
  have "file_at (snd (task_save t fs)) k = file_at fs k" if "pt_piece t = pt_piece task" "pt_descriptor t = pt_descriptor task" for t
    using save_loop_other [of "subpieces (pt_piece t)" "pt_descriptor t" k "pt_data t" fs] assms(2) that
    by (auto simp: task_save_def bind_eff_def split: prod.split outcome.split)
  moreover have "pt_piece t = pt_piece task \<and> pt_descriptor t = pt_descriptor task"
    if "task_download A w peer task = Some (q, t)" for q t
    using that by (auto simp: task_download_def keep_download_def split: option.splits outcome.splits Result.splits)
  ultimately show ?thesis
    using assms(1) by (fastforce simp: task_process_def split: option.splits prod.splits outcome.splits bool.splits)
qed
section \<open>What is written\<close>

lemma save_loop_writes:
  "save_loop td (Some dl) sps fs = (Ret True, fs') \<Longrightarrow>
    distinct (map (\<lambda>sp. to_path (save_path td sp)) sps) \<Longrightarrow> sp \<in> set sps \<Longrightarrow>
    \<exists>c. file_at fs (to_path (save_path td sp)) = Some c \<and> 0 \<le> file_offset sp \<and>
      file_at fs' (to_path (save_path td sp)) = Some (overwrite c (nat (file_offset sp)) (dcontent dl))"
proof (induction sps arbitrary: fs)
  case (Cons x sps)
  obtain fs1 where w: "write_bytes (save_path td x) (dcontent dl) (file_offset x) fs = (Ret (OK ()), fs1)"
      and rest: "save_loop td (Some dl) sps fs1 = (Ret True, fs')"
    using Cons.prems(1) by (auto simp: bind_eff_def split: prod.splits outcome.splits Result.splits)
  from w obtain c where c: "file_at fs (to_path (save_path td x)) = Some c" "0 \<le> file_offset x"
      "file_at fs1 (to_path (save_path td x)) = Some (overwrite c (nat (file_offset x)) (dcontent dl))"
    by (rule write_bytes_OK)
  show ?case
  proof (cases "sp = x")
    case True
    have "\<forall>y \<in> set sps. to_path (save_path td y) \<noteq> to_path (save_path td x)"
      using Cons.prems(2) by (auto simp: image_iff)
    from save_loop_other [OF this, of "Some dl" fs1] rest c True show ?thesis by auto
  next
    case False
    then have "sp \<in> set sps" using Cons.prems(3) by simp
    moreover have "to_path (save_path td sp) \<noteq> to_path (save_path td x)" using Cons.prems(2) \<open>sp \<in> set sps\<close> by (auto simp: image_iff)
    from write_bytes_other [OF this, of "dcontent dl" "file_offset x" fs] w
    have "file_at fs1 (to_path (save_path td sp)) = file_at fs (to_path (save_path td sp))" by simp
    ultimately show ?thesis using Cons.IH [OF rest] Cons.prems(2) by simp
  qed
qed simp

text \<open>A piece in one file is on the disk and verified once its task is completed.\<close>

lemma task_process_single:
  assumes "task_process A w peer task fs = Some (Ret \<lparr>completed = True\<rparr>, task', fs')"
    and "subpieces (pt_piece task) = [sp]" and "name = save_path (pt_descriptor task) sp"
  obtains c and dl :: Downloaded where "file_at fs (to_path name) = Some c" "0 \<le> file_offset sp"
    "file_at fs' (to_path name) = Some (overwrite c (nat (file_offset sp)) (dcontent dl))"
    "expected_length (pt_descriptor task) (pindex (pt_piece task)) = Ret (int (length (dcontent dl)))"
    "sha1 (dcontent dl) = piece_hashes (pt_descriptor task) ! nat (pindex (pt_piece task))"
proof -
  from assms(1) obtain dl where dl:
    "expected_length (pt_descriptor task) (pindex (pt_piece task)) = Ret (int (length (dcontent dl)))"
    "sha1 (dcontent dl) = piece_hashes (pt_descriptor task) ! nat (pindex (pt_piece task))"
    "save_loop (pt_descriptor task) (Some dl) (subpieces (pt_piece task)) fs = (Ret True, fs')"
    by (rule task_process_completed)
  from save_loop_writes [OF dl(3), of sp] assms(2,3) obtain c where "file_at fs (to_path name) = Some c" "0 \<le> file_offset sp"
    "file_at fs' (to_path name) = Some (overwrite c (nat (file_offset sp)) (dcontent dl))" by auto
  then show thesis using dl(1,2) by (rule that)
qed

text \<open>
  C35. Saving a piece that spans several files: every section receives the whole piece, not its own
  part of it. After a successful save, each of the files holds the complete content of the piece
  at the offset of its section, whatever the length of the section.
\<close>

theorem save_writes_whole_piece_everywhere:
  assumes "save_loop td (Some dl) sps fs = (Ret True, fs')"
    and "distinct (map (\<lambda>sp. to_path (save_path td sp)) sps)" "sp \<in> set sps"
  shows "\<exists>c. file_at fs (to_path (save_path td sp)) = Some c \<and>
      file_at fs' (to_path (save_path td sp)) = Some (overwrite c (nat (file_offset sp)) (dcontent dl))"
  using save_loop_writes [OF assms] by auto

definition two_files :: FS where
  "two_files = \<lparr>nodes = [[''o''] \<mapsto> Dir, [''o'', ''a''] \<mapsto> Regular [0], [''o'', ''b''] \<mapsto> Regular [0, 0]], denied = {}\<rparr>"

definition two_sections :: "Subpiece list" where
  "two_sections = [\<lparr>sp_filepath = ''a'', file_offset = 0, sp_len = 1\<rparr>, \<lparr>sp_filepath = ''b'', file_offset = 0, sp_len = 1\<rparr>]"

theorem save_writes_whole_piece_everywhere_witness:
  "let td = example_desc\<lparr>folder_name := ''o''\<rparr>; dl = \<lparr>dindex = 0, dcontent = [1, 2]\<rparr>;
       fs' = snd (save_loop td (Some dl) two_sections two_files)
   in fst (save_loop td (Some dl) two_sections two_files) = Ret True \<and>
      file_at fs' [''o'', ''a''] = Some [1, 2] \<and> file_at fs' [''o'', ''b''] = Some [1, 2]"
proof -
  let ?td = "example_desc\<lparr>folder_name := ''o''\<rparr>" and ?dl = "\<lparr>dindex = 0, dcontent = [1, 2]\<rparr>"
  let ?r = "save_loop ?td (Some ?dl) two_sections two_files"
  have paths: "map (\<lambda>sp. to_path (save_path ?td sp)) two_sections = [[''o'', ''a''], [''o'', ''b'']]"
    "map (\<lambda>p. file_at two_files p) [[''o'', ''a''], [''o'', ''b'']] = [Some [0], Some [0, 0]]"
    "overwrite [0] 0 [1, 2] = [1, 2]" "overwrite [0, 0] 0 [1, 2] = [1, 2]"
    by code_simp+
  have "fst ?r = Ret True" by code_simp
  then have run: "?r = (Ret True, snd ?r)" by (metis prod.collapse)
  from paths(1) have p: "distinct (map (\<lambda>sp. to_path (save_path ?td sp)) two_sections)" by simp
  note whole = save_writes_whole_piece_everywhere [OF run p]
  show ?thesis
    using whole [of "two_sections ! 0"] whole [of "two_sections ! 1"] paths \<open>fst ?r = Ret True\<close>
    by (auto simp: two_sections_def Let_def)
qed

end
