(* ===== verification/Furrent.thy ===== *)
theory Furrent
  imports Piece_Task Sharing_Queue Thread_Group Bencode
begin

text \<open>
  The client (class \<open>Furrent\<close> in furrent.hpp and furrent.cpp): the table of torrents, the shared
  queue of piece tasks, the worker threads and the files. The operations of the user interface
  are functions on the state; the main function of the workers is cut at the points where
  another thread can act and becomes a step relation, so that the invariants hold for every
  interleaving, every peer and every network.
\<close>

section \<open>State\<close>

record TorrentGuiData =
  gd_tid :: TorrentID
  gd_state :: TorrentState
  gd_filename :: string
  gd_processed :: int
  gd_count :: int

datatype FurrentError = GenericError | LoadingTorrentFailed

text \<open>
  Where a worker is in \<open>thread_main\<close>: at the head of the outer loop, about to wait for work,
  holding an extracted task, in the inner loop with the peers and the weights it has copied, past
  a successful \<open>process\<close> with the index of the peer it used, past the increment of the counter of
  the torrent with the value it has read, or returned.
\<close>

datatype worker =
    W_Loop
  | W_Wait
  | W_Got PieceTask
  | W_Retry PieceTask "Peer list" "int list"
  | W_Processed PieceTask int
  | W_Counted TorrentID int
  | W_Exit

text \<open>
  Where the main thread is: outside the client, in \<open>remove_torrent\<close> before and after it has read
  the state of the torrent, or in the destructor before the flag is set, while joining, and after.
\<close>

datatype main_pc =
    M_Idle
  | M_Mutated TorrentID
  | M_Loaded TorrentID
  | M_Skipping
  | M_Joining
  | M_Done

record Furrent =
  workers :: "int ThreadGroup"
  tasks :: "PieceTask SharedQueue"
  torrents :: "TorrentID \<rightharpoonup> Torrent"
  next_uid :: TorrentID
  download_folder :: string
  disk_fs :: FS
  wpc :: "nat \<Rightarrow> worker"
  mpc :: main_pc

text \<open>\<open>operator[]\<close> of the table of torrents: an unknown key is inserted with a default torrent.\<close>

definition torrent_at :: "TorrentID \<Rightarrow> Furrent \<Rightarrow> Torrent \<times> Furrent" where
  "torrent_at i s =
     (case torrents s i of
        Some t \<Rightarrow> (t, s)
      | None \<Rightarrow> (Torrent_empty, s\<lparr>torrents := (torrents s)(i \<mapsto> Torrent_empty)\<rparr>))"

definition set_torrent :: "TorrentID \<Rightarrow> Torrent \<Rightarrow> Furrent \<Rightarrow> Furrent" where
  "set_torrent i t s = s\<lparr>torrents := (torrents s)(i \<mapsto> t)\<rparr>"

definition on_disk :: "(FS, 'a) eff \<Rightarrow> (Furrent, 'a) eff" where
  "on_disk m s = (let (r, fs) = m (disk_fs s) in (r, s\<lparr>disk_fs := fs\<rparr>))"

text \<open>The thread of the user interface comes after the workers.\<close>

definition main_thread :: "Furrent \<Rightarrow> nat" where
  "main_thread s = length (threads (workers s))"

text \<open>An operation of the main thread on the queue: the section under the mutex and the notification after it.\<close>

definition emplace_task :: "nat \<Rightarrow> TorrentID \<times> Piece \<times> TorrentFile \<Rightarrow> PieceTask SharedQueue \<Rightarrow> PieceTask SharedQueue outcome" where
  "emplace_task t args q = obind (shared_emplace PieceTask_of args t q) (\<lambda>q'. Ret (notify_new_work t q'))"

section \<open>Construction and destruction\<close>

definition threads_cnt :: "int \<Rightarrow> int" where
  "threads_cnt concurrency = (if concurrency > 1 then concurrency - 1 else 1)"

definition Furrent_init :: "int \<Rightarrow> FS \<Rightarrow> Furrent" where
  "Furrent_init hardware_concurrency fs =
     \<lparr>workers = snd (launch hardware_concurrency 0 (threads_cnt hardware_concurrency) ThreadGroup_init),
      tasks = SharedQueue_init, torrents = Map.empty, next_uid = 0, download_folder = ''.'', disk_fs = fs,
      wpc = (\<lambda>_. W_Loop), mpc = M_Idle\<rparr>"

text \<open>
  The destructor: the queue stops blocking its waiters, the flag of the group is set, and the
  workers are joined, which blocks (\<^term>\<open>None\<close>) while one of them runs.
\<close>

definition shutdown_skip :: "Furrent \<Rightarrow> Furrent" where
  "shutdown_skip s = s\<lparr>tasks := begin_skip_waiting (main_thread s) (tasks s), mpc := M_Skipping\<rparr>"

definition shutdown_signal :: "Furrent \<Rightarrow> Furrent" where
  "shutdown_signal s = s\<lparr>workers := set_terminate (workers s), mpc := M_Joining\<rparr>"

definition shutdown_join :: "Furrent \<Rightarrow> Furrent outcome option" where
  "shutdown_join s =
     map_option (\<lambda>(r, g). obind r (\<lambda>_. Ret (s\<lparr>workers := g, mpc := M_Done\<rparr>))) (terminate (workers s))"

section \<open>Operations of the user interface\<close>

definition set_download_folder :: "string \<Rightarrow> (Furrent, (unit, FurrentError) Result) eff" where
  "set_download_folder folder =
     bind_eff (on_disk (exists_path folder)) (\<lambda>existence.
       case existence of ERROR e \<Rightarrow> ret (ERROR GenericError)
       | OK present \<Rightarrow>
           bind_eff (if \<not> present then on_disk (create_directories folder False) else ret (OK folder)) (\<lambda>creation.
             case creation of ERROR e \<Rightarrow> ret (ERROR GenericError)
             | OK _ \<Rightarrow> (\<lambda>s. (Ret (OK ()), s\<lparr>download_folder := folder\<rparr>))))"

definition MAX_COPY_ATTEMPTS :: nat where
  "MAX_COPY_ATTEMPTS = 10"

text \<open>
  \<open>while (attempts < MAX_COPY_ATTEMPTS && ...)\<close>: the first argument is how many attempts are left;
  the result is the path and the number of attempts made.
\<close>

fun copy_path :: "nat \<Rightarrow> nat \<Rightarrow> string \<Rightarrow> FS \<Rightarrow> string \<times> nat" where
  "copy_path 0 attempts base fs = (base, attempts)"
| "copy_path (Suc n) attempts base fs =
     (if fst (exists_path base fs) = Ret (OK True) then copy_path n (attempts + 1) (base @ '' COPY'') fs
      else (base, attempts))"

text \<open>One file of the torrent; the result says whether the clean-up is needed.\<close>

definition create_file :: "string \<Rightarrow> File \<Rightarrow> (FS, bool) eff" where
  "create_file folder f =
     bind_eff (lift_outcome (filename f)) (\<lambda>name.
     bind_eff (create_directories (folder @ ''/'' @ name) True) (\<lambda>file_dirpath.
       case file_dirpath of ERROR e \<Rightarrow> ret False
       | OK dir \<Rightarrow>
           bind_eff (lift_outcome (vec_at (filepath f) (int (length (filepath f)) - 1))) (\<lambda>back.
           bind_eff (touch (dir @ ''/'' @ back) (flength f)) (\<lambda>creation.
             case creation of ERROR e \<Rightarrow> ret False | OK _ \<Rightarrow> ret True))))"

primrec create_files :: "string \<Rightarrow> File list \<Rightarrow> (FS, bool) eff" where
  "create_files folder [] = ret True"
| "create_files folder (f # fs) =
     bind_eff (create_file folder f) (\<lambda>created. if created then create_files folder fs else ret False)"

definition prepare_torrent_files :: "string \<Rightarrow> TorrentFile \<Rightarrow> (FS, bool \<times> TorrentFile) eff" where
  "prepare_torrent_files folder td fs =
     (let (base, attempts) = copy_path MAX_COPY_ATTEMPTS 0 (folder @ ''/'' @ tname td) fs in
      if attempts > MAX_COPY_ATTEMPTS then (Ret (False, td), fs)
      else bind_eff (create_directories base False) (\<lambda>torrent_dirpath.
        case torrent_dirpath of ERROR e \<Rightarrow> ret (False, td)
        | OK dir \<Rightarrow>
            bind_eff (create_files dir (files td)) (\<lambda>created.
              if created then ret (True, td\<lparr>folder_name := dir\<rparr>)
              else bind_eff (remove dir) (\<lambda>_. ret (False, td\<lparr>folder_name := dir\<rparr>)))) fs)"

text \<open>The part of \<open>add_torrent\<close> that reads and parses the file and prepares the output.\<close>

definition load_torrent :: "string \<Rightarrow> (Furrent, (TorrentFile, FurrentError) Result) eff" where
  "load_torrent file_name =
     bind_eff (on_disk (load_file_text file_name)) (\<lambda>reading.
       case reading of ERROR e \<Rightarrow> ret (ERROR LoadingTorrentFailed)
       | OK text \<Rightarrow>
           bind_eff (lift_outcome (decode text)) (\<lambda>btree.
             case btree of ERROR e \<Rightarrow> ret (ERROR LoadingTorrentFailed)
             | OK tree \<Rightarrow>
                 bind_eff (lift_outcome (TorrentFile_of tree)) (\<lambda>td.
                 bind_eff (\<lambda>s. on_disk (prepare_torrent_files (download_folder s) td) s) (\<lambda>(prepared, td').
                   ret (if prepared then OK td' else ERROR LoadingTorrentFailed)))))"

fun emplace_all :: "nat \<Rightarrow> TorrentID \<Rightarrow> TorrentFile \<Rightarrow> Piece list \<Rightarrow> PieceTask SharedQueue \<Rightarrow> PieceTask SharedQueue outcome" where
  "emplace_all t i td [] q = Ret q"
| "emplace_all t i td (p # ps) q = obind (emplace_task t (i, p, td) q) (\<lambda>q'. emplace_all t i td ps q')"

text \<open>
  The part under the exclusive lock: the torrent is created and announced, its tasks are queued.
  \<open>try_emplace\<close> leaves an entry that is already there.
\<close>

definition start_torrent :: "http \<Rightarrow> int option \<Rightarrow> TorrentID \<Rightarrow> TorrentFile \<Rightarrow> (Furrent, (TorrentID, FurrentError) Result) eff" where
  "start_torrent get past i td s =
     bind_eff (lift_outcome (case torrents s i of Some t \<Rightarrow> Ret t | None \<Rightarrow> Torrent_of get i td)) (\<lambda>t s.
       if peers t = [] then (Ret (ERROR GenericError), set_torrent i (t\<lparr>tstate := Error\<rparr>) s)
       else bind_eff (lift_outcome (pieces past t)) (\<lambda>ps s.
         bind_eff (lift_outcome (emplace_all (main_thread s) i (descriptor t) ps (tasks s))) (\<lambda>q s.
           (Ret (OK i), (set_torrent i (t\<lparr>tstate := Downloading\<rparr>) s)
              \<lparr>tasks := notify_new_work (main_thread s) (force_wakeup (main_thread s) q)\<rparr>)) s)
         (set_torrent i t s)) s"

definition add_torrent :: "http \<Rightarrow> int option \<Rightarrow> string \<Rightarrow> (Furrent, (TorrentID, FurrentError) Result) eff" where
  "add_torrent get past file_name s =
     (let i = next_uid s in
      bind_eff (lift_outcome (add64 i 1)) (\<lambda>n s.
      bind_eff (load_torrent file_name) (\<lambda>loaded.
        case loaded of ERROR e \<Rightarrow> ret (ERROR e)
        | OK td \<Rightarrow> start_torrent get past i td) (s\<lparr>next_uid := n\<rparr>)) s)"

text \<open>
  \<open>remove_torrent\<close> in its three parts, between which the workers go on: the queued tasks are
  dropped, the state is read, and the state is replaced.
\<close>

definition remove_tasks :: "TorrentID \<Rightarrow> Furrent \<Rightarrow> Furrent" where
  "remove_tasks i s =
     s\<lparr>tasks := shared_mutate (\<lambda>(_ :: nat) task. (pt_tid task = i, task, 0)) 0 (main_thread s) (tasks s),
       mpc := M_Mutated i\<rparr>"

definition remove_load :: "TorrentID \<Rightarrow> Furrent \<Rightarrow> Furrent" where
  "remove_load i s =
     (let (t, s') = torrent_at i s in
      s'\<lparr>mpc := if tstate t \<noteq> Completed \<and> tstate t \<noteq> Error then M_Loaded i else M_Idle\<rparr>)"

definition remove_store :: "TorrentID \<Rightarrow> Furrent \<Rightarrow> Furrent" where
  "remove_store i s = (let (t, s') = torrent_at i s in (set_torrent i (t\<lparr>tstate := Stopped\<rparr>) s')\<lparr>mpc := M_Idle\<rparr>)"

text \<open>The whole call, when no worker acts in between.\<close>

definition remove_torrent :: "TorrentID \<Rightarrow> Furrent \<Rightarrow> Furrent" where
  "remove_torrent i s =
     (let s1 = remove_tasks i s;
          s2 = remove_load i (s1\<lparr>tasks := notify_new_work (main_thread s1) (tasks s1)\<rparr>)
      in if mpc s2 = M_Loaded i then remove_store i s2 else s2)"

definition get_gui_data :: "TorrentID \<Rightarrow> Furrent \<Rightarrow> TorrentGuiData outcome" where
  "get_gui_data target s =
     (case torrents s target of
        Some t \<Rightarrow> Ret \<lparr>gd_tid = target, gd_state = tstate t, gd_filename = tname (descriptor t),
                     gd_processed = pieces_processed t, gd_count = pieces_count (descriptor t)\<rparr>
      | None \<Rightarrow> Throw invalid_argument)"

section \<open>Workers\<close>

definition set_wpc :: "nat \<Rightarrow> worker \<Rightarrow> Furrent \<Rightarrow> Furrent" where
  "set_wpc t w s = s\<lparr>wpc := (wpc s)(t := w)\<rparr>"

text \<open>The head of the loop, the extraction, and the branches of its failure.\<close>

definition worker_loop :: "nat \<Rightarrow> Furrent \<Rightarrow> Furrent" where
  "worker_loop t s =
     (if \<not> Runner_alive (workers s) then set_wpc t W_Exit (s\<lparr>workers := thread_exits t (workers s)\<rparr>)
      else case try_extract LIFOPolicy_extract t (tasks s) of
        (OK task, q) \<Rightarrow> set_wpc t (W_Got task) (s\<lparr>tasks := q\<rparr>)
      | (ERROR e, q) \<Rightarrow> set_wpc t W_Wait (s\<lparr>tasks := q\<rparr>))"

definition worker_wait :: "nat \<Rightarrow> Furrent \<Rightarrow> Furrent" where
  "worker_wait t s = set_wpc t W_Loop (s\<lparr>tasks := wait_work t (tasks s)\<rparr>)"

text \<open>The section under the shared lock: a paused torrent gets its task back, otherwise peers and weights are copied.\<close>

definition worker_lookup :: "nat \<Rightarrow> PieceTask \<Rightarrow> Furrent \<Rightarrow> Furrent outcome" where
  "worker_lookup t task s =
     (let (torrent, s') = torrent_at (pt_tid task) s in
      if tstate torrent = Paused then
        obind (shared_emplace PieceTask_of (pt_tid task, pt_piece task, descriptor torrent) t (tasks s')) (\<lambda>q.
          Ret (set_wpc t W_Loop (s'\<lparr>tasks := q\<rparr>)))
      else Ret (set_wpc t (W_Retry task (peers torrent) (distribution torrent)) s'))"

text \<open>What a draw from a discrete distribution with these weights can give.\<close>

definition may_draw :: "int list \<Rightarrow> int \<Rightarrow> bool" where
  "may_draw weights i \<longleftrightarrow> (if weights = [] then i = 0 else 0 \<le> i \<and> i < int (length weights) \<and> weights ! nat i > 0)"

text \<open>One turn of the inner loop, up to the test of \<open>completed\<close>.\<close>

definition worker_attempt ::
  "'w asio \<Rightarrow> 'w \<Rightarrow> int \<Rightarrow> nat \<Rightarrow> PieceTask \<Rightarrow> Peer list \<Rightarrow> int list \<Rightarrow> Furrent \<Rightarrow> Furrent outcome option" where
  "worker_attempt A w peer_index t task ps ws s =
     (case vec_at ps peer_index of
        Throw x \<Rightarrow> Some (Throw x)
      | UB u \<Rightarrow> Some (UB u)
      | Ret peer \<Rightarrow>
          map_option (\<lambda>(r, task', fs'). obind r (\<lambda>stats. Ret (set_wpc t
              (if completed stats then W_Processed task' peer_index else W_Retry task' ps ws) (s\<lparr>disk_fs := fs'\<rparr>))))
            (task_process A w peer task (disk_fs s)))"

text \<open>
  The rest of the inner loop, under the shared lock, which other workers can hold at the same
  time: the score of the peer and the counter of the torrent are atomic, and the state is
  replaced afterwards. The reference to the torrent stays valid, no entry is ever erased.
\<close>

definition worker_book :: "nat \<Rightarrow> PieceTask \<Rightarrow> int \<Rightarrow> Furrent \<Rightarrow> Furrent outcome" where
  "worker_book t task peer_index s =
     obind (vec_at (states (workers s)) (int t)) (\<lambda>n.
     obind (add64 n 1) (\<lambda>n'.
       let (torrent, s') = torrent_at (pt_tid task) (s\<lparr>workers := (workers s)\<lparr>states := (states (workers s))[t := n']\<rparr>\<rparr>) in
       obind (atomic_add_peer_score peer_index torrent) (\<lambda>torrent'.
       obind (add64 (pieces_processed torrent') 1) (\<lambda>processed.
         Ret (set_wpc t (W_Counted (pt_tid task) processed)
           (set_torrent (pt_tid task) (torrent'\<lparr>pieces_processed := processed\<rparr>) s'))))))"

definition worker_finish :: "nat \<Rightarrow> TorrentID \<Rightarrow> int \<Rightarrow> Furrent \<Rightarrow> Furrent" where
  "worker_finish t i processed s =
     (let (torrent, s') = torrent_at i s in
      set_wpc t W_Loop
        (if processed = pieces_count (descriptor torrent) then set_torrent i (torrent\<lparr>tstate := Completed\<rparr>) s' else s'))"

section \<open>Steps\<close>

fun counted :: "worker \<Rightarrow> (TorrentID \<times> int) option" where
  "counted (W_Counted i n) = Some (i, n)"
| "counted _ = None"

text \<open>The main thread calls the client when it is in no other call; the exclusive lock waits for the shared ones.\<close>

definition main_ready :: "Furrent \<Rightarrow> bool" where
  "main_ready s \<longleftrightarrow> mpc s = M_Idle \<and> pcs (tasks s) (main_thread s) = Idle"

definition unlocked :: "Furrent \<Rightarrow> bool" where
  "unlocked s \<longleftrightarrow> (\<forall>u < main_thread s. counted (wpc s u) = None)"

datatype fur_event = Work | Attempt | Queue | Spurious | Add | Remove | Folder | Shutdown

text \<open>
  The section of \<open>add_torrent\<close> under the exclusive lock is one step. All that a worker can do with
  the queue meanwhile is to take the oldest task while new ones go to the other end, so taking it
  after the section has the same effect (\<open>extract_after_emplace\<close> below).
\<close>

inductive fur_step :: "'w asio \<Rightarrow> http \<Rightarrow> int option \<Rightarrow> fur_event \<Rightarrow> Furrent \<Rightarrow> Furrent \<Rightarrow> bool" for A get past where
  loop: "t < main_thread s \<Longrightarrow> wpc s t = W_Loop \<Longrightarrow> pcs (tasks s) t = Idle \<Longrightarrow> fur_step A get past Work s (worker_loop t s)"
| wait: "t < main_thread s \<Longrightarrow> wpc s t = W_Wait \<Longrightarrow> pcs (tasks s) t = Idle \<Longrightarrow> fur_step A get past Work s (worker_wait t s)"
| lookup: "t < main_thread s \<Longrightarrow> wpc s t = W_Got task \<Longrightarrow> pcs (tasks s) t = Idle \<Longrightarrow>
    worker_lookup t task s = Ret s' \<Longrightarrow> fur_step A get past Work s s'"
| attempt: "t < main_thread s \<Longrightarrow> wpc s t = W_Retry task ps ws \<Longrightarrow> may_draw ws i \<Longrightarrow>
    worker_attempt A w i t task ps ws s = Some (Ret s') \<Longrightarrow> fur_step A get past Attempt s s'"
| book: "t < main_thread s \<Longrightarrow> wpc s t = W_Processed task i \<Longrightarrow> worker_book t task i s = Ret s' \<Longrightarrow>
    fur_step A get past Work s s'"
| finish: "t < main_thread s \<Longrightarrow> wpc s t = W_Counted i n \<Longrightarrow> fur_step A get past Work s (worker_finish t i n s)"
| queue: "queue_step e (tasks s) q \<Longrightarrow> e = Notify \<or> e = Wake \<Longrightarrow> fur_step A get past Queue s (s\<lparr>tasks := q\<rparr>)"
| spurious: "queue_step SpuriousWake (tasks s) q \<Longrightarrow> fur_step A get past Spurious s (s\<lparr>tasks := q\<rparr>)"
| add: "main_ready s \<Longrightarrow> unlocked s \<Longrightarrow> add_torrent get past file_name s = (Ret r, s') \<Longrightarrow> fur_step A get past Add s s'"
| remove: "main_ready s \<Longrightarrow> fur_step A get past Remove s (remove_tasks i s)"
| remove_read: "mpc s = M_Mutated i \<Longrightarrow> pcs (tasks s) (main_thread s) = Idle \<Longrightarrow> fur_step A get past Remove s (remove_load i s)"
| remove_write: "mpc s = M_Loaded i \<Longrightarrow> fur_step A get past Remove s (remove_store i s)"
| folder: "main_ready s \<Longrightarrow> set_download_folder d s = (Ret r, s') \<Longrightarrow> fur_step A get past Folder s s'"
| shutdown: "main_ready s \<Longrightarrow> fur_step A get past Shutdown s (shutdown_skip s)"
| signal: "mpc s = M_Skipping \<Longrightarrow> pcs (tasks s) (main_thread s) = Idle \<Longrightarrow> fur_step A get past Shutdown s (shutdown_signal s)"
| join: "mpc s = M_Joining \<Longrightarrow> shutdown_join s = Some (Ret s') \<Longrightarrow> fur_step A get past Shutdown s s'"

inductive_cases fur_stepE: "fur_step A get past ev s s'"

inductive fur_reach :: "'w asio \<Rightarrow> http \<Rightarrow> int option \<Rightarrow> Furrent \<Rightarrow> bool" for A get past where
  init: "fur_reach A get past (Furrent_init hw fs)"
| step: "fur_reach A get past s \<Longrightarrow> fur_step A get past ev s s' \<Longrightarrow> fur_reach A get past s'"

section \<open>The tasks that are still alive\<close>

fun holding :: "worker \<Rightarrow> PieceTask multiset" where
  "holding (W_Got task) = {#task#}"
| "holding (W_Retry task ps ws) = {#task#}"
| "holding (W_Processed task i) = {#task#}"
| "holding _ = {#}"

text \<open>A task without its data.\<close>

definition task_args :: "PieceTask \<Rightarrow> TorrentID \<times> Piece \<times> TorrentFile" where
  "task_args k = (pt_tid k, pt_piece k, pt_descriptor k)"

definition queued :: "Furrent \<Rightarrow> (TorrentID \<times> Piece \<times> TorrentFile) multiset" where
  "queued s = image_mset task_args (mset (work (tasks s)))"

definition held :: "Furrent \<Rightarrow> (TorrentID \<times> Piece \<times> TorrentFile) multiset" where
  "held s = (\<Sum>t<main_thread s. image_mset task_args (holding (wpc s t)))"

definition live :: "Furrent \<Rightarrow> (TorrentID \<times> Piece \<times> TorrentFile) multiset" where
  "live s = queued s + held s"

lemma sum_fun_upd:
  fixes f :: "'a \<Rightarrow> 'b multiset"
  assumes "t < n"
  shows "(\<Sum>u<n. f ((g(t := x)) u)) + f (g t) = (\<Sum>u<(n :: nat). f (g u)) + f x"
proof -
  have "t \<in> {..<n}" using assms by simp
  then have 1: "(\<Sum>u<n. f (g u)) = f (g t) + (\<Sum>u \<in> {..<n} - {t}. f (g u))"
    and 2: "(\<Sum>u<n. f ((g(t := x)) u)) = f x + (\<Sum>u \<in> {..<n} - {t}. f ((g(t := x)) u))"
    by (simp_all add: sum.remove)
  have "(\<Sum>u \<in> {..<n} - {t}. f ((g(t := x)) u)) = (\<Sum>u \<in> {..<n} - {t}. f (g u))"
    by (rule sum.cong) auto
  with 1 2 show ?thesis by (simp add: ac_simps)
qed

lemma set_wpc_simps [simp]:
  "wpc (set_wpc t w s) = (wpc s)(t := w)" "tasks (set_wpc t w s) = tasks s" "torrents (set_wpc t w s) = torrents s"
  "workers (set_wpc t w s) = workers s" "disk_fs (set_wpc t w s) = disk_fs s" "next_uid (set_wpc t w s) = next_uid s"
  "download_folder (set_wpc t w s) = download_folder s" "main_thread (set_wpc t w s) = main_thread s"
  "mpc (set_wpc t w s) = mpc s"
  by (simp_all add: set_wpc_def main_thread_def)

lemma held_set_wpc:
  assumes "t < main_thread s"
  shows "held (set_wpc t w s) + image_mset task_args (holding (wpc s t)) = held s + image_mset task_args (holding w)"
  using sum_fun_upd [OF assms, of "\<lambda>w. image_mset task_args (holding w)" "wpc s" w] by (simp add: held_def)

lemma held_set_wpc_same:
  "t < main_thread s \<Longrightarrow> image_mset task_args (holding (wpc s t)) = image_mset task_args (holding w) \<Longrightarrow>
     held (set_wpc t w s) = held s"
  using held_set_wpc [of t s w] by simp

lemma main_thread_upd [simp]:
  "main_thread (s\<lparr>tasks := q\<rparr>) = main_thread s" "main_thread (s\<lparr>torrents := x\<rparr>) = main_thread s"
  "main_thread (s\<lparr>disk_fs := f\<rparr>) = main_thread s" "main_thread (s\<lparr>next_uid := n\<rparr>) = main_thread s"
  "main_thread (s\<lparr>download_folder := d\<rparr>) = main_thread s" "main_thread (s\<lparr>mpc := m\<rparr>) = main_thread s"
  "main_thread (s\<lparr>workers := thread_exits t (workers s)\<rparr>) = main_thread s"
  "main_thread (s\<lparr>workers := (workers s)\<lparr>states := y\<rparr>\<rparr>) = main_thread s"
  "main_thread (s\<lparr>workers := set_terminate (workers s)\<rparr>) = main_thread s"
  by (simp_all add: main_thread_def thread_exits_def set_terminate_def)

lemma held_upd [simp]:
  "held (s\<lparr>tasks := q\<rparr>) = held s" "held (s\<lparr>torrents := x\<rparr>) = held s" "held (s\<lparr>disk_fs := f\<rparr>) = held s"
  "held (s\<lparr>next_uid := n\<rparr>) = held s" "held (s\<lparr>download_folder := d\<rparr>) = held s" "held (s\<lparr>mpc := m\<rparr>) = held s"
  "held (s\<lparr>workers := thread_exits t (workers s)\<rparr>) = held s"
  "held (s\<lparr>workers := (workers s)\<lparr>states := y\<rparr>\<rparr>) = held s"
  "held (s\<lparr>workers := set_terminate (workers s)\<rparr>) = held s"
  by (simp_all add: held_def)

lemma queued_upd [simp]:
  "queued (set_wpc t w s) = queued s" "queued (s\<lparr>torrents := x\<rparr>) = queued s" "queued (s\<lparr>disk_fs := f\<rparr>) = queued s"
  "queued (s\<lparr>next_uid := n\<rparr>) = queued s" "queued (s\<lparr>download_folder := d\<rparr>) = queued s" "queued (s\<lparr>mpc := m\<rparr>) = queued s"
  "queued (s\<lparr>workers := g\<rparr>) = queued s" "queued (s\<lparr>tasks := q\<rparr>) = image_mset task_args (mset (work q))"
  by (simp_all add: queued_def)

lemma set_torrent_simps [simp]:
  "torrents (set_torrent i t s) = (torrents s)(i \<mapsto> t)" "held (set_torrent i t s) = held s"
  "queued (set_torrent i t s) = queued s" "main_thread (set_torrent i t s) = main_thread s"
  "tasks (set_torrent i t s) = tasks s" "disk_fs (set_torrent i t s) = disk_fs s" "next_uid (set_torrent i t s) = next_uid s"
  "wpc (set_torrent i t s) = wpc s" "workers (set_torrent i t s) = workers s" "mpc (set_torrent i t s) = mpc s"
  by (simp_all add: set_torrent_def)

lemma notify_work [simp]: "work (notify_new_work t q) = work q" "work (force_wakeup t q) = work q"
  "work (begin_skip_waiting t q) = work q" "work (wait_work t q) = work q" "work (wait_empty t q) = work q"
  "work (notify_dispatched t q) = work q"
  by (simp_all add: notify_new_work_def force_wakeup_def begin_skip_waiting_def wait_work_def wait_empty_def notify_dispatched_def)

section \<open>What a step does to them\<close>

lemma worker_loop_live:
  assumes "t < main_thread s" "wpc s t = W_Loop"
  shows "live (worker_loop t s) = live s" "torrents (worker_loop t s) = torrents s" "next_uid (worker_loop t s) = next_uid s"
    "disk_fs (worker_loop t s) = disk_fs s"
proof -
  obtain r q where x: "try_extract LIFOPolicy_extract t (tasks s) = (r, q)" by (rule prod.exhaust)
  have lt: "t < main_thread (s\<lparr>tasks := q\<rparr>)" "wpc (s\<lparr>tasks := q\<rparr>) t = W_Loop" using assms by simp_all
  obtain w where w: "queue_extract LIFOPolicy_extract (work (tasks s)) = (r, w)" "work q = w"
    using x by (elim try_extract_state) (auto split: if_splits)
  show "live (worker_loop t s) = live s"
  proof (cases "Runner_alive (workers s)")
    case True
    show ?thesis
    proof (cases r)
      case (OK task)
      then have "work (tasks s) \<noteq> []" using w by (auto simp: queue_extract_def)
      then have "work (tasks s) = task # w"
        using w OK by (cases "work (tasks s)") (auto simp: queue_extract_def LIFOPolicy_extract_def Let_def)
      moreover have "held (set_wpc t (W_Got task) (s\<lparr>tasks := q\<rparr>)) = held s + {#task_args task#}"
        using held_set_wpc [OF lt(1), of "W_Got task"] lt(2) by simp
      ultimately show ?thesis using True x OK w(2) by (simp add: worker_loop_def live_def queued_def)
    next
      case (ERROR e)
      then have "w = work (tasks s)" using w(1) by (auto simp: queue_extract_def Let_def split: if_splits)
      moreover have "held (set_wpc t W_Wait (s\<lparr>tasks := q\<rparr>)) = held s"
        using held_set_wpc_same [OF lt(1), of W_Wait] lt(2) by simp
      ultimately show ?thesis using True x ERROR w(2) by (simp add: worker_loop_def live_def queued_def)
    qed
  next
    case False
    have "held (set_wpc t W_Exit (s\<lparr>workers := thread_exits t (workers s)\<rparr>)) = held s"
      using held_set_wpc_same [of t "s\<lparr>workers := thread_exits t (workers s)\<rparr>" W_Exit] assms by simp
    then show ?thesis using False by (simp add: worker_loop_def live_def)
  qed
qed (auto simp: worker_loop_def split: prod.split Result.split)

lemma worker_wait_live:
  assumes "t < main_thread s" "wpc s t = W_Wait"
  shows "live (worker_wait t s) = live s"
  using held_set_wpc_same [of t "s\<lparr>tasks := wait_work t (tasks s)\<rparr>" W_Loop] assms
  by (simp add: worker_wait_def live_def queued_def)

lemma task_process_args:
  "task_process A w peer task fs = Some (r, task', fs') \<Longrightarrow> task_args task' = task_args task"
  by (auto simp: task_process_def task_download_def keep_download_def task_args_def
      split: option.splits prod.splits outcome.splits Result.splits bool.splits)

lemma worker_attempt_live:
  assumes "t < main_thread s" "wpc s t = W_Retry task ps ws" "worker_attempt A w i t task ps ws s = Some (Ret s')"
  shows "live s' = live s" "torrents s' = torrents s" "next_uid s' = next_uid s"
proof -
  from assms(3) obtain peer stats task' fs' where p: "task_process A w peer task (disk_fs s) = Some (Ret stats, task', fs')"
      "s' = set_wpc t (if completed stats then W_Processed task' i else W_Retry task' ps ws) (s\<lparr>disk_fs := fs'\<rparr>)"
    by (auto simp: worker_attempt_def split: outcome.splits)
  then show "live s' = live s"
    using held_set_wpc_same [of t "s\<lparr>disk_fs := fs'\<rparr>"] assms(1,2) task_process_args [OF p(1)] by (simp add: live_def)
  show "torrents s' = torrents s" "next_uid s' = next_uid s" using p(2) by simp_all
qed

lemma queue_step_work: "queue_step e q q' \<Longrightarrow> e = Notify \<or> e = Wake \<or> e = SpuriousWake \<Longrightarrow> work q' = work q"
  by (auto elim!: queue_stepE)

lemma torrent_at_known: "torrents s i = Some t \<Longrightarrow> torrent_at i s = (t, s)"
  by (simp add: torrent_at_def)

lemma shared_emplace_work: "shared_emplace f x t q = Ret q' \<Longrightarrow> work q' = work q @ [f x]"
  by (auto simp: shared_emplace_def queue_emplace_def split: if_splits)

lemma emplace_all_work:
  "emplace_all t i td ps q = Ret q' \<Longrightarrow> work q' = work q @ map (\<lambda>p. PieceTask_of (i, p, td)) ps"
  by (induction ps arbitrary: q) (auto simp: emplace_task_def dest: shared_emplace_work)

lemma task_args_of [simp]: "task_args (PieceTask_of x) = x"
  by (cases x) (simp add: task_args_def PieceTask_of_def)

lemma worker_lookup_live:
  assumes "t < main_thread s" "wpc s t = W_Got task" "worker_lookup t task s = Ret s'"
    and "torrents s (pt_tid task) = Some tor" "descriptor tor = pt_descriptor task"
  shows "live s' = live s" "torrents s' = torrents s" "next_uid s' = next_uid s" "disk_fs s' = disk_fs s"
proof -
  have same: "held (set_wpc t (W_Retry task ps ws) s) = held s" for ps ws
    using held_set_wpc_same [OF assms(1), of "W_Retry task ps ws"] assms(2) by simp
  show "live s' = live s"
  proof (cases "tstate tor = Paused")
    case True
    then obtain q where q: "shared_emplace PieceTask_of (pt_tid task, pt_piece task, pt_descriptor task) t (tasks s) = Ret q"
        "s' = set_wpc t W_Loop (s\<lparr>tasks := q\<rparr>)"
      using assms(3,4,5) by (auto simp: worker_lookup_def torrent_at_known)
    have "held (set_wpc t W_Loop (s\<lparr>tasks := q\<rparr>)) + {#task_args task#} = held s"
      using held_set_wpc [of t "s\<lparr>tasks := q\<rparr>" W_Loop] assms(1,2) by simp
    then show ?thesis
      using q(2) shared_emplace_work [OF q(1)]
      by (simp add: live_def queued_def task_args_def [of task, symmetric] ac_simps)
  next
    case False
    then show ?thesis using assms(3,4) same by (auto simp: worker_lookup_def torrent_at_known live_def)
  qed
  show "torrents s' = torrents s" "next_uid s' = next_uid s" "disk_fs s' = disk_fs s"
    using assms(3,4) by (auto simp: worker_lookup_def torrent_at_known split: if_splits)
qed

lemma worker_book_live:
  assumes "t < main_thread s" "wpc s t = W_Processed task k" "worker_book t task k s = Ret s'"
    and "torrents s (pt_tid task) = Some tor"
  obtains tor' n where "live s' + {#task_args task#} = live s" "next_uid s' = next_uid s" "disk_fs s' = disk_fs s"
    "atomic_add_peer_score k tor = Ret tor'" "n = pieces_processed tor' + 1"
    "torrents s' = (torrents s)(pt_tid task \<mapsto> tor'\<lparr>pieces_processed := n\<rparr>)"
    "wpc s' = (wpc s)(t := W_Counted (pt_tid task) n)" "main_thread s' = main_thread s" "mpc s' = mpc s" "tasks s' = tasks s"
proof -
  from assms(3,4) obtain y tor' where b: "atomic_add_peer_score k tor = Ret tor'"
      "s' = set_wpc t (W_Counted (pt_tid task) (pieces_processed tor' + 1))
        (set_torrent (pt_tid task) (tor'\<lparr>pieces_processed := pieces_processed tor' + 1\<rparr>)
        (s\<lparr>workers := (workers s)\<lparr>states := y\<rparr>\<rparr>))"
    by (auto simp: worker_book_def torrent_at_known Let_def)
  define s1 where "s1 = set_torrent (pt_tid task) (tor'\<lparr>pieces_processed := pieces_processed tor' + 1\<rparr>)
        (s\<lparr>workers := (workers s)\<lparr>states := y\<rparr>\<rparr>)"
  have "held s' + {#task_args task#} = held s"
    unfolding b(2) s1_def [symmetric]
    using held_set_wpc [of t s1 "W_Counted (pt_tid task) (pieces_processed tor' + 1)"] assms(1,2) by (simp add: s1_def)
  then have "live s' + {#task_args task#} = live s" using b(2) by (simp add: live_def ac_simps)
  then show thesis by (rule that) (use b in simp_all)
qed

lemma worker_finish_live:
  assumes "t < main_thread s" "wpc s t = W_Counted i n" "torrents s i = Some tor"
  shows "live (worker_finish t i n s) = live s"
    "torrents (worker_finish t i n s) =
       (if n = pieces_count (descriptor tor) then (torrents s)(i \<mapsto> tor\<lparr>tstate := Completed\<rparr>) else torrents s)"
    "next_uid (worker_finish t i n s) = next_uid s" "disk_fs (worker_finish t i n s) = disk_fs s"
    "wpc (worker_finish t i n s) = (wpc s)(t := W_Loop)" "main_thread (worker_finish t i n s) = main_thread s"
    "tasks (worker_finish t i n s) = tasks s" "mpc (worker_finish t i n s) = mpc s"
proof -
  have "held (set_wpc t W_Loop s') = held s" if "main_thread s' = main_thread s" "wpc s' = wpc s" "held s' = held s" for s'
    using held_set_wpc_same [of t s' W_Loop] assms(1,2) that by simp
  then show "live (worker_finish t i n s) = live s"
    using assms(3) by (simp add: worker_finish_def torrent_at_known live_def)
qed (use assms(3) in \<open>simp_all add: worker_finish_def torrent_at_known\<close>)

text \<open>
  Taking the oldest task before or after a new one is queued is the same. (Taking the last one
  first also notifies the threads in \<open>wait_empty\<close>; the client has none.)
\<close>

lemma extract_after_emplace:
  assumes "work q = x # y # w" "t \<noteq> m" "pcs q t = Idle" "int (length (work q)) < int64_max" "emplace_task m args q = Ret q1"
  shows "fst (try_extract LIFOPolicy_extract t q1) = OK x" "fst (try_extract LIFOPolicy_extract t q) = OK x"
    and "emplace_task m args (snd (try_extract LIFOPolicy_extract t q)) = Ret (snd (try_extract LIFOPolicy_extract t q1))"
  using assms
  by (cases q; auto simp: emplace_task_def shared_emplace_def queue_emplace_def try_extract_def queue_extract_def
      LIFOPolicy_extract_def notify_new_work_def at_def split: if_splits)+

end
