(* ===== verification/Client_Inv.thy ===== *)
theory Client_Inv
  imports Furrent
begin

text \<open>
  The invariant of the client: in every state that the workers, the notifications and the calls of
  the main thread can reach, the tasks that are queued or held and the counter of a torrent add up.
\<close>

section \<open>The invariant\<close>

text \<open>Counting the live tasks of one torrent.\<close>

definition live_count :: "TorrentID \<Rightarrow> Furrent \<Rightarrow> nat" where
  "live_count i s = size (filter_mset (\<lambda>x. fst x = i) (live s))"

lemma live_count_0: "live_count i s = 0 \<longleftrightarrow> (\<forall>x \<in># live s. fst x \<noteq> i)"
proof -
  have "live_count i s = 0 \<longleftrightarrow> set_mset (filter_mset (\<lambda>x. fst x = i) (live s)) = {}"
    by (simp add: live_count_def del: set_mset_filter)
  then show ?thesis unfolding set_mset_filter by blast
qed

text \<open>
  What is left and what is done. Nothing is lost until the torrent is removed: \<open>leaving\<close> says that
  its tasks are being dropped while its state is not changed yet.
\<close>

definition acc_ok :: "bool \<Rightarrow> nat \<Rightarrow> Torrent \<Rightarrow> bool" where
  "acc_ok leaving n t \<longleftrightarrow> 0 \<le> pieces_processed t \<and>
     int n + pieces_processed t \<le> max 0 (pieces_count (descriptor t)) \<and>
     (tstate t = Downloading \<and> \<not> leaving \<longrightarrow> int n + pieces_processed t = pieces_count (descriptor t)) \<and>
     (tstate t = Completed \<longrightarrow> pieces_processed t = pieces_count (descriptor t))"

definition removing :: "Furrent \<Rightarrow> TorrentID \<Rightarrow> bool" where
  "removing s i \<longleftrightarrow> mpc s = M_Mutated i \<or> mpc s = M_Loaded i"

lemma acc_ok_leaving: "acc_ok leaving n t \<Longrightarrow> (leaving \<Longrightarrow> leaving') \<Longrightarrow> acc_ok leaving' n t"
  by (auto simp: acc_ok_def)

text \<open>A torrent whose last piece has been counted has a worker that is about to set its state.\<close>

definition finishing :: "Furrent \<Rightarrow> TorrentID \<Rightarrow> Torrent \<Rightarrow> bool" where
  "finishing s i t \<longleftrightarrow>
     (tstate t = Downloading \<and> 0 < pieces_count (descriptor t) \<and> pieces_processed t = pieces_count (descriptor t) \<longrightarrow>
        (\<exists>u < main_thread s. counted (wpc s u) = Some (i, pieces_count (descriptor t))))"

definition fur_inv :: "Furrent \<Rightarrow> bool" where
  "fur_inv s \<longleftrightarrow>
     (\<forall>x \<in># live s. \<exists>t. torrents s (fst x) = Some t \<and> descriptor t = snd (snd x) \<and> peers t \<noteq> []) \<and>
     (\<forall>u < main_thread s. \<forall>i n. counted (wpc s u) = Some (i, n) \<longrightarrow>
        (\<exists>t. torrents s i = Some t \<and> peers t \<noteq> [] \<and> 1 \<le> n \<and> n \<le> pieces_processed t)) \<and>
     (\<forall>i \<ge> next_uid s. torrents s i = None \<or> torrents s i = Some Torrent_empty) \<and>
     (\<forall>i. mpc s = M_Loaded i \<longrightarrow> i < next_uid s \<and> torrents s i \<noteq> None) \<and>
     (\<forall>i t. torrents s i = Some t \<longrightarrow> acc_ok (removing s i) (live_count i s) t \<and> scores_ok t \<and> finishing s i t)"

lemma finishing_mono:
  assumes "finishing s i t"
    and "\<And>u. u < main_thread s \<Longrightarrow> counted (wpc s u) = Some (i, pieces_count (descriptor t)) \<Longrightarrow>
       \<exists>v < main_thread s'. counted (wpc s' v) = Some (i, pieces_count (descriptor t))"
  shows "finishing s' i t"
  using assms unfolding finishing_def by blast

lemma finishing_mono_iff:
  assumes "main_thread s' = main_thread s" "\<And>u. u < main_thread s \<Longrightarrow> counted (wpc s' u) = counted (wpc s u)"
  shows "finishing s' i t = finishing s i t"
  using assms by (intro iffI) (erule finishing_mono, force)+

lemma fur_inv_same:
  assumes "fur_inv s" "live s' = live s" "torrents s' = torrents s" "next_uid s \<le> next_uid s'"
    "main_thread s' = main_thread s" "\<And>u. u < main_thread s \<Longrightarrow> counted (wpc s' u) = counted (wpc s u)"
    "\<And>i. removing s i \<Longrightarrow> removing s' i" "\<And>i. mpc s' = M_Loaded i \<Longrightarrow> mpc s = M_Loaded i"
  shows "fur_inv s'"
proof -
  have "finishing s' i t = finishing s i t" for i t
    by (rule finishing_mono_iff) (use assms(5,6) in auto)
  moreover have "live_count i s' = live_count i s" for i using assms(2) by (simp add: live_count_def)
  moreover have "acc_ok (removing s' i) n t" if "acc_ok (removing s i) n t" for i n t
    using that assms(7) by (rule acc_ok_leaving)
  ultimately show ?thesis using assms(1-6,8) by (auto simp: fur_inv_def)
qed

lemma fur_inv_task:
  assumes "fur_inv s" "x \<in># live s"
  obtains t where "torrents s (fst x) = Some t" "descriptor t = snd (snd x)" "peers t \<noteq> []"
  using assms by (auto simp: fur_inv_def)

lemma fur_inv_acc:
  "fur_inv s \<Longrightarrow> torrents s i = Some t \<Longrightarrow> acc_ok (removing s i) (live_count i s) t \<and> scores_ok t \<and> finishing s i t"
  by (simp add: fur_inv_def)

lemma fur_inv_counted:
  assumes "fur_inv s" "u < main_thread s" "counted (wpc s u) = Some (i, n)"
  obtains t where "torrents s i = Some t" "peers t \<noteq> []" "1 \<le> n" "n \<le> pieces_processed t"
proof -
  from assms have "\<exists>t. torrents s i = Some t \<and> peers t \<noteq> [] \<and> 1 \<le> n \<and> n \<le> pieces_processed t"
    unfolding fur_inv_def by blast
  with that show thesis by blast
qed

lemma fur_inv_entry: "fur_inv s \<Longrightarrow> torrents s i = Some t \<Longrightarrow> i < next_uid s \<or> t = Torrent_empty"
  unfolding fur_inv_def by (metis linorder_not_less option.distinct(1) option.inject)

lemma fur_inv_known: "fur_inv s \<Longrightarrow> torrents s i = Some t \<Longrightarrow> peers t \<noteq> [] \<Longrightarrow> i < next_uid s"
  by (drule (1) fur_inv_entry) (auto simp: Torrent_empty_def)

text \<open>Replacing the entry of a torrent whose tasks stay.\<close>

lemma fur_inv_update:
  assumes inv: "fur_inv s" and lv: "live s' \<subseteq># live s" "\<And>j. j \<noteq> i \<Longrightarrow> live_count j s' = live_count j s"
    and tor: "torrents s i = Some t" "torrents s' = (torrents s)(i \<mapsto> t')" "next_uid s' = next_uid s"
    and t': "descriptor t' = descriptor t" "peers t' = peers t" "pieces_processed t \<le> pieces_processed t'"
      "i < next_uid s \<or> t' = Torrent_empty"
    and ok: "acc_ok (removing s' i) (live_count i s') t'" "scores_ok t'" "finishing s' i t'"
    and cnt: "main_thread s' = main_thread s"
      "\<And>u j n. u < main_thread s \<Longrightarrow> counted (wpc s' u) = Some (j, n) \<Longrightarrow>
         counted (wpc s u) = Some (j, n) \<or> j = i \<and> 1 \<le> n \<and> n \<le> pieces_processed t' \<and> peers t' \<noteq> []"
      "\<And>j t. j \<noteq> i \<Longrightarrow> finishing s j t \<Longrightarrow> finishing s' j t" "\<And>j. j \<noteq> i \<Longrightarrow> removing s j \<Longrightarrow> removing s' j"
      "\<And>j. mpc s' = M_Loaded j \<Longrightarrow> mpc s = M_Loaded j \<or> j = i \<and> i < next_uid s"
  shows "fur_inv s'"
  unfolding fur_inv_def
proof (intro conjI ballI allI impI)
  fix x assume "x \<in># live s'"
  then have "x \<in># live s" using lv(1) by (rule mset_subset_eqD [rotated])
  then obtain t2 where "torrents s (fst x) = Some t2" "descriptor t2 = snd (snd x)" "peers t2 \<noteq> []"
    by (rule fur_inv_task [OF inv])
  then show "\<exists>t. torrents s' (fst x) = Some t \<and> descriptor t = snd (snd x) \<and> peers t \<noteq> []"
    using tor t' by (cases "fst x = i") auto
next
  fix u j n assume u: "u < main_thread s'" "counted (wpc s' u) = Some (j, n)"
  show "\<exists>t. torrents s' j = Some t \<and> peers t \<noteq> [] \<and> 1 \<le> n \<and> n \<le> pieces_processed t"
  proof (cases "j = i")
    case True
    with cnt(1) cnt(2) [OF _ u(2)] u(1) consider "counted (wpc s u) = Some (i, n)"
      | "1 \<le> n" "n \<le> pieces_processed t'" "peers t' \<noteq> []" by auto
    then show ?thesis
    proof cases
      case 1
      with inv u(1) cnt(1) obtain t2 where "torrents s i = Some t2" "peers t2 \<noteq> []" "1 \<le> n" "n \<le> pieces_processed t2"
        by (metis fur_inv_counted)
      then show ?thesis using True tor t' by auto
    qed (use True tor in auto)
  next
    case False
    with cnt u have "counted (wpc s u) = Some (j, n)" "u < main_thread s" by auto
    with inv obtain t2 where "torrents s j = Some t2" "peers t2 \<noteq> []" "1 \<le> n" "n \<le> pieces_processed t2"
      by (metis fur_inv_counted)
    then show ?thesis using False tor by auto
  qed
next
  fix j assume "next_uid s' \<le> j"
  then show "torrents s' j = None \<or> torrents s' j = Some Torrent_empty"
    using inv tor t'(4) by (auto simp: fur_inv_def)
next
  fix j assume "mpc s' = M_Loaded j"
  then show "j < next_uid s'" "torrents s' j \<noteq> None" using cnt(5) [of j] inv tor by (auto simp: fur_inv_def)
next
  fix j t2 assume "torrents s' j = Some t2"
  then show "acc_ok (removing s' j) (live_count j s') t2" "scores_ok t2" "finishing s' j t2"
    using tor ok lv(2) [of j] fur_inv_acc [OF inv, of j t2] cnt(3) [of j t2] cnt(4) [of j]
    by (cases "j = i"; auto intro: acc_ok_leaving)+
qed

lemma held_in_live:
  assumes "t < main_thread s" "k \<in># holding (wpc s t)"
  shows "task_args k \<in># live s"
proof -
  have "(\<Sum>u<main_thread s. image_mset task_args (holding (wpc s u))) =
      image_mset task_args (holding (wpc s t)) + (\<Sum>u \<in> {..<main_thread s} - {t}. image_mset task_args (holding (wpc s u)))"
    using assms(1) by (simp add: sum.remove)
  then show ?thesis using assms(2) by (simp add: live_def held_def)
qed

lemma acc_ok_book:
  "acc_ok r (Suc n) t \<Longrightarrow> acc_ok r n (t\<lparr>pieces_processed := pieces_processed t + 1\<rparr>)"
  by (auto simp: acc_ok_def)

lemma acc_ok_score: "atomic_add_peer_score k t = Ret t' \<Longrightarrow> acc_ok r n t' = acc_ok r n t"
  "atomic_add_peer_score k t = Ret t' \<Longrightarrow> descriptor t' = descriptor t \<and> peers t' = peers t \<and>
     pieces_processed t' = pieces_processed t \<and> tstate t' = tstate t"
  by (auto simp: atomic_add_peer_score_def acc_ok_def split: if_splits)

lemma fur_inv_book:
  assumes inv: "fur_inv s" and u: "t < main_thread s" "wpc s t = W_Processed task k" "worker_book t task k s = Ret s'"
  shows "fur_inv s'"
proof -
  let ?i = "pt_tid task"
  have "task_args task \<in># live s" using held_in_live [OF u(1), of task] u(2) by simp
  from fur_inv_task [OF inv this] obtain tor where tor: "torrents s ?i = Some tor" "peers tor \<noteq> []"
    by (auto simp: task_args_def)
  from worker_book_live [OF u tor(1)] obtain tor' n where b: "live s' + {#task_args task#} = live s"
      "next_uid s' = next_uid s" "atomic_add_peer_score k tor = Ret tor'" "n = pieces_processed tor' + 1"
      "torrents s' = (torrents s)(?i \<mapsto> tor'\<lparr>pieces_processed := n\<rparr>)"
      "wpc s' = (wpc s)(t := W_Counted ?i n)" "main_thread s' = main_thread s" "mpc s' = mpc s" by blast
  note sc = acc_ok_score(2) [OF b(3)]
  have rm: "removing s' j = removing s j" for j using b(8) by (simp add: removing_def)
  have cnt: "live_count i s = live_count i s' + (if i = ?i then 1 else 0)" for i
    using arg_cong [OF b(1), of "\<lambda>M. size (filter_mset (\<lambda>x. fst x = i) M)"]
    by (auto simp: live_count_def task_args_def)
  have "acc_ok (removing s ?i) (live_count ?i s) tor" "scores_ok tor" using fur_inv_acc [OF inv tor(1)] by simp_all
  then have "acc_ok (removing s' ?i) (Suc (live_count ?i s')) tor'" "scores_ok tor'"
    using rm cnt [of ?i] acc_ok_score(1) [OF b(3)] add_score_scores [OF b(3)] by simp_all
  note acc = acc_ok_book [OF this(1), folded b(4)] and so = this(2)
  have pos: "1 \<le> n" using acc b(4) fur_inv_acc [OF inv tor(1)] sc by (auto simp: acc_ok_def)
  show ?thesis
  proof (rule fur_inv_update [OF inv _ _ tor(1) b(5,2)])
    show "live s' \<subseteq># live s" using b(1) by (metis mset_subset_eq_add_left)
    show "acc_ok (removing s' ?i) (live_count ?i s') (tor'\<lparr>pieces_processed := n\<rparr>)" by (rule acc)
    show "scores_ok (tor'\<lparr>pieces_processed := n\<rparr>)" using so by (simp add: scores_ok_def)
    show "finishing s' ?i (tor'\<lparr>pieces_processed := n\<rparr>)"
      using u(1) b(6,7) unfolding finishing_def by (auto intro!: exI [of _ t])
    show "counted (wpc s v) = Some (j, m) \<or> j = ?i \<and> 1 \<le> m \<and> m \<le> pieces_processed (tor'\<lparr>pieces_processed := n\<rparr>)
        \<and> peers (tor'\<lparr>pieces_processed := n\<rparr>) \<noteq> []" if "counted (wpc s' v) = Some (j, m)" for v j m
      using that b(6) pos tor(2) sc by (auto split: if_splits)
    show "finishing s' j t2" if "j \<noteq> ?i" "finishing s j t2" for j t2
      by (rule finishing_mono [OF that(2)]) (use b(6,7) u(2) in force)
  qed (use b sc cnt rm fur_inv_known [OF inv tor] in auto)
qed

lemma fur_inv_finish:
  assumes inv: "fur_inv s" and u: "t < main_thread s" "wpc s t = W_Counted i n"
  shows "fur_inv (worker_finish t i n s)"
proof -
  have "counted (wpc s t) = Some (i, n)" using u(2) by simp
  with inv u(1) obtain tor where tor: "torrents s i = Some tor" "peers tor \<noteq> []" "1 \<le> n" "n \<le> pieces_processed tor"
    by (rule fur_inv_counted)
  note f = worker_finish_live [OF u tor(1)] and acc = fur_inv_acc [OF inv tor(1)]
  let ?s = "worker_finish t i n s"
  let ?t = "if n = pieces_count (descriptor tor) then tor\<lparr>tstate := Completed\<rparr> else tor"
  have lc: "live_count j ?s = live_count j s" for j by (simp add: live_count_def f(1))
  have moved: "\<exists>v < main_thread ?s. counted (wpc ?s v) = Some (j, m)"
    if "\<exists>v < main_thread s. counted (wpc s v) = Some (j, m)" "(j, m) \<noteq> (i, n)" for j m
  proof -
    from that(1) obtain v where v: "v < main_thread s" "counted (wpc s v) = Some (j, m)" by blast
    with that(2) u(2) have "v \<noteq> t" by auto
    with v f(5,6) show ?thesis by (intro exI [of _ v]) simp
  qed
  show ?thesis
  proof (rule fur_inv_update [OF inv, where i = i and t = tor and t' = ?t])
    show "acc_ok (removing ?s i) (live_count i ?s) ?t" using acc tor(3,4) lc f(8) by (auto simp: acc_ok_def removing_def)
    show "finishing ?s i ?t"
      using acc moved [of i "pieces_count (descriptor tor)"] unfolding finishing_def by (auto split: if_splits)
    show "finishing ?s j t2" if "j \<noteq> i" "finishing s j t2" for j t2
      using that moved [of j "pieces_count (descriptor t2)"] unfolding finishing_def by auto
    show "counted (wpc s v) = Some (j, m) \<or> j = i \<and> 1 \<le> m \<and> m \<le> pieces_processed ?t \<and> peers ?t \<noteq> []"
      if "counted (wpc ?s v) = Some (j, m)" for v j m using that f(5) by (auto split: if_splits)
    show "torrents ?s = (torrents s)(i \<mapsto> ?t)" using f(2) tor(1) by auto
  qed (use f tor lc acc fur_inv_known [OF inv tor(1,2)] in \<open>auto simp: scores_ok_def removing_def\<close>)
qed

text \<open>Computations that touch nothing but the disk.\<close>

definition only_disk :: "(Furrent, 'a) eff \<Rightarrow> bool" where
  "only_disk m \<longleftrightarrow> (\<forall>s. \<exists>fs. snd (m s) = s\<lparr>disk_fs := fs\<rparr>)"

lemma only_disk_on_disk [intro, simp]: "only_disk (on_disk m)"
  by (auto simp: only_disk_def on_disk_def split_beta Let_def)

lemma only_disk_ret [intro, simp]: "only_disk (ret x)" "only_disk (lift_outcome r)"
proof -
  have "\<exists>fs. s = s\<lparr>disk_fs := fs\<rparr>" for s :: Furrent by (rule exI [of _ "disk_fs s"]) simp
  then show "only_disk (ret x)" "only_disk (lift_outcome r)" by (simp_all add: only_disk_def)
qed

lemma only_disk_dep: "only_disk (\<lambda>s. on_disk (m s) s)"
  by (auto simp: only_disk_def on_disk_def split_beta Let_def)

lemma only_disk_bind:
  assumes "only_disk m" "\<And>x. only_disk (f x)"
  shows "only_disk (bind_eff m f)"
  unfolding only_disk_def
proof
  fix s
  obtain r s1 where m: "m s = (r, s1)" by (rule prod.exhaust)
  with assms(1) obtain fs where s1: "s1 = s\<lparr>disk_fs := fs\<rparr>" by (auto simp: only_disk_def dest!: spec [of _ s])
  show "\<exists>fs. snd (bind_eff m f s) = s\<lparr>disk_fs := fs\<rparr>"
  proof (cases r)
    case (Ret x)
    with assms(2) [of x] m s1 show ?thesis by (auto simp: only_disk_def dest!: spec [of _ s1])
  qed (use m s1 in auto)
qed

lemma load_torrent_only_disk: "only_disk (load_torrent f)"
proof -
  have prep: "only_disk (bind_eff (\<lambda>s. on_disk (prepare_torrent_files (download_folder s) td) s)
      (\<lambda>(prepared, td'). ret (if prepared then OK td' else ERROR LoadingTorrentFailed)))" for td
    by (rule only_disk_bind [OF only_disk_dep]) (simp add: split_beta)
  show ?thesis unfolding load_torrent_def
    by (rule only_disk_bind [OF only_disk_on_disk], split Result.split)
      (simp, rule allI, rule impI, rule only_disk_bind, simp, split Result.split,
       auto intro!: only_disk_bind prep)
qed

lemma load_torrent_frame: "load_torrent f s = (r, s') \<Longrightarrow> \<exists>fs. s' = s\<lparr>disk_fs := fs\<rparr>"
  using load_torrent_only_disk [of f] by (auto simp: only_disk_def dest!: spec [of _ s])

lemma pieces_loop_length: "pieces_loop past td ks cur acc = Ret ps \<Longrightarrow> length ps = length acc + length ks"
  by (induction ks arbitrary: cur acc) auto

lemma pieces_length: "pieces past t = Ret ps \<Longrightarrow> 0 \<le> pieces_count (descriptor t) \<and> int (length ps) = pieces_count (descriptor t)"
  by (auto simp: pieces_def Let_def split: if_splits dest: pieces_loop_length)

text \<open>What \<open>start_torrent\<close> leaves behind, in its two ways to return.\<close>

lemma start_torrent_Ret:
  assumes "start_torrent get past i td s = (Ret r, s')"
  obtains (no_peers) t where "(case torrents s i of Some t \<Rightarrow> Ret t | None \<Rightarrow> Torrent_of get i td) = Ret t"
      "peers t = []" "r = ERROR GenericError" "s' = set_torrent i (t\<lparr>tstate := Error\<rparr>) s"
    | (started) t ps q q0 where "(case torrents s i of Some t \<Rightarrow> Ret t | None \<Rightarrow> Torrent_of get i td) = Ret t"
      "peers t \<noteq> []" "pieces past t = Ret ps" "r = OK i"
      "work q = work (tasks s) @ map (\<lambda>p. PieceTask_of (i, p, descriptor t)) ps"
      "s' = (set_torrent i (t\<lparr>tstate := Downloading\<rparr>) s)\<lparr>tasks := q\<rparr>"
      "emplace_all (main_thread s) i (descriptor t) ps (tasks s) = Ret q0"
      "q = notify_new_work (main_thread s) (force_wakeup (main_thread s) q0)"
proof -
  obtain t where t: "(case torrents s i of Some t \<Rightarrow> Ret t | None \<Rightarrow> Torrent_of get i td) = Ret t"
    using assms by (cases "case torrents s i of Some t \<Rightarrow> Ret t | None \<Rightarrow> Torrent_of get i td") (auto simp: start_torrent_def)
  show thesis
  proof (cases "peers t = []")
    case True
    with assms t no_peers show ?thesis by (auto simp: start_torrent_def)
  next
    case False
    with assms t obtain ps where ps: "pieces past t = Ret ps" by (cases "pieces past t") (auto simp: start_torrent_def)
    obtain q where q: "emplace_all (main_thread s) i (descriptor t) ps (tasks s) = Ret q"
      using assms t False ps
      by (cases "emplace_all (main_thread s) i (descriptor t) ps (tasks s)") (auto simp: start_torrent_def)
    have "r = OK i" "s' = (set_torrent i (t\<lparr>tstate := Downloading\<rparr>) s)
        \<lparr>tasks := notify_new_work (main_thread s) (force_wakeup (main_thread s) q)\<rparr>"
      using assms t False ps q by (auto simp: start_torrent_def set_torrent_def)
    with emplace_all_work [OF q] show ?thesis by (intro started [OF t False ps _ _ _ q]) simp_all
  qed
qed

lemma Torrent_of_fields: "Torrent_of get i td = Ret t \<Longrightarrow> descriptor t = td \<and> pieces_processed t = 0"
  unfolding Torrent_of_def by (drule torrent_announce_fields) simp

lemma live_set_torrent [simp]: "live (set_torrent i t s) = live s"
  by (simp add: live_def)

lemma live_count_set_torrent [simp]: "live_count j (set_torrent i t s) = live_count j s"
  by (simp add: live_count_def)

lemma fur_inv_unknown:
  assumes "fur_inv s" "torrents s i = None \<or> torrents s i = Some Torrent_empty"
  shows "live_count i s = 0"
  unfolding live_count_0
proof
  fix x assume "x \<in># live s"
  with assms(1) obtain t where "torrents s (fst x) = Some t" "peers t \<noteq> []" by (rule fur_inv_task)
  with assms(2) show "fst x \<noteq> i" by (auto simp: Torrent_empty_def)
qed

text \<open>An entry for an identifier that is new.\<close>

lemma finishing_set_torrent: "finishing (set_torrent i t s) j t' = finishing s j t'"
  by (rule finishing_mono_iff) simp_all

lemma fur_inv_new:
  assumes inv: "fur_inv s" and new: "torrents s i = None \<or> torrents s i = Some Torrent_empty"
    and s': "torrents s' = (torrents s)(i \<mapsto> t)" "live s' = live s + image_mset (\<lambda>p. (i, p, descriptor t)) M"
      "next_uid s' = next_uid s" "main_thread s' = main_thread s" "wpc s' = wpc s" "\<And>j. j \<noteq> i \<Longrightarrow> removing s j \<Longrightarrow> removing s' j"
      "\<And>j. mpc s' = M_Loaded j \<Longrightarrow> mpc s = M_Loaded j"
    and ok: "\<And>r. acc_ok r (size M) t" "scores_ok t" "pieces_processed t = 0" "M = {#} \<or> peers t \<noteq> []"
      "i < next_uid s \<or> t = Torrent_empty"
  shows "fur_inv s'"
proof -
  have z: "live_count i s = 0" by (rule fur_inv_unknown [OF inv new])
  have fi: "filter_mset (\<lambda>x. fst x = j) (image_mset (\<lambda>p. (i, p, d)) N) = (if j = i then image_mset (\<lambda>p. (i, p, d)) N else {#})" for j d N
    by (induction N) auto
  have cnt: "live_count j s' = (if j = i then size M else live_count j s)" for j
    using z by (simp add: live_count_def s'(2) fi)
  have other: "fst x \<noteq> i" if "x \<in># live s" for x using z that by (simp add: live_count_0)
  have fin: "finishing s' j t' = finishing s j t'" for j t' by (rule finishing_mono_iff) (simp_all add: s')
  show ?thesis unfolding fur_inv_def
  proof (intro conjI ballI allI impI)
    fix x assume "x \<in># live s'"
    then consider "fst x = i" "snd (snd x) = descriptor t" "M \<noteq> {#}" | "x \<in># live s" using s'(2) by (cases "M = {#}") auto
    then show "\<exists>t'. torrents s' (fst x) = Some t' \<and> descriptor t' = snd (snd x) \<and> peers t' \<noteq> []"
    proof cases
      case 1
      then show ?thesis using s'(1) ok(4) by simp
    next
      case 2
      then show ?thesis by (rule fur_inv_task [OF inv]) (use other [OF 2] s'(1) in simp)
    qed
  next
    fix u j n assume u: "u < main_thread s'" "counted (wpc s' u) = Some (j, n)"
    then have "u < main_thread s" "counted (wpc s u) = Some (j, n)" by (simp_all add: s')
    with inv obtain t2 where t2: "torrents s j = Some t2" "peers t2 \<noteq> []" "1 \<le> n" "n \<le> pieces_processed t2"
      by (rule fur_inv_counted)
    then have "j \<noteq> i" using new by (auto simp: Torrent_empty_def)
    with t2 show "\<exists>t. torrents s' j = Some t \<and> peers t \<noteq> [] \<and> 1 \<le> n \<and> n \<le> pieces_processed t" by (simp add: s')
  next
    fix j assume "next_uid s' \<le> j"
    then show "torrents s' j = None \<or> torrents s' j = Some Torrent_empty"
      using inv s'(1,3) ok(5) by (auto simp: fur_inv_def)
  next
    fix j assume "mpc s' = M_Loaded j"
    then show "j < next_uid s'" "torrents s' j \<noteq> None" using s'(1,3) s'(7) [of j] inv by (auto simp: fur_inv_def)
  next
    fix j t' assume t': "torrents s' j = Some t'"
    show "acc_ok (removing s' j) (live_count j s') t'" "scores_ok t'" "finishing s' j t'"
      using t' s'(1,6) ok cnt [of j] fin fur_inv_acc [OF inv, of j t']
      by (auto simp: finishing_def intro: acc_ok_leaving split: if_splits)
  qed
qed

lemma fur_inv_start:
  assumes inv: "fur_inv s" and new: "torrents s i = None \<or> torrents s i = Some Torrent_empty" "i < next_uid s"
    and start: "start_torrent get past i td s = (Ret r, s')"
  shows "fur_inv s'"
  using start
proof (cases rule: start_torrent_Ret)
  case (no_peers t)
  have "pieces_processed t = 0 \<and> scores_ok t"
    using no_peers(1) new(1) Torrent_of_fields [of get i td t] Torrent_of_scores [of get i td t]
    by (auto simp: Torrent_empty_def scores_ok_def)
  then show ?thesis using new(2) no_peers(4)
    by (intro fur_inv_new [OF inv new(1), where M = "{#}" and t = "t\<lparr>tstate := Error\<rparr>"])
      (simp_all add: acc_ok_def scores_ok_def live_def removing_def)
next
  case (started t ps q)
  from started(1,2) new(1) have t: "Torrent_of get i td = Ret t" by (auto simp: Torrent_empty_def)
  note f = Torrent_of_fields [OF t] and sc = Torrent_of_scores [OF t] and n = pieces_length [OF started(3)]
  let ?t = "t\<lparr>tstate := Downloading\<rparr>"
  have "live s' = live s + image_mset (\<lambda>p. (i, p, descriptor ?t)) (mset ps)"
    using started(5,6) f by (simp add: live_def queued_def image_mset.compositionality comp_def ac_simps)
  then show ?thesis using started(2,6) new(2) f sc n
    by (intro fur_inv_new [OF inv new(1), where M = "mset ps" and t = ?t]) (auto simp: acc_ok_def scores_ok_def removing_def)
qed

text \<open>What a call of \<open>add_torrent\<close> does: it stops after loading, or it starts the torrent.\<close>

lemma add_torrent_Ret:
  assumes "add_torrent get past fp s = (Ret r, s')"
  obtains (failed) e fs where "r = ERROR e" "s' = s\<lparr>next_uid := next_uid s + 1, disk_fs := fs\<rparr>"
    | (loaded) td fs where
      "load_torrent fp (s\<lparr>next_uid := next_uid s + 1\<rparr>) = (Ret (OK td), s\<lparr>next_uid := next_uid s + 1, disk_fs := fs\<rparr>)"
      "start_torrent get past (next_uid s) td (s\<lparr>next_uid := next_uid s + 1, disk_fs := fs\<rparr>) = (Ret r, s')"
proof -
  let ?s1 = "s\<lparr>next_uid := next_uid s + 1\<rparr>"
  obtain l s2 where l: "load_torrent fp ?s1 = (l, s2)" by (rule prod.exhaust)
  then obtain fs where s2: "s2 = ?s1\<lparr>disk_fs := fs\<rparr>" using load_torrent_frame by blast
  have ok: "bind_eff (load_torrent fp) (\<lambda>loaded. case loaded of ERROR e \<Rightarrow> ret (ERROR e)
      | OK td \<Rightarrow> start_torrent get past (next_uid s) td) ?s1 = (Ret r, s')"
    using assms by (cases "add64 (next_uid s) 1") (auto simp: add_torrent_def Let_def add64_Ret_iff)
  show thesis
  proof (cases "\<exists>td. l = Ret (OK td)")
    case True
    with ok l s2 show thesis by (auto intro: loaded)
  next
    case False
    with ok l have "\<exists>e. r = ERROR e" "s' = s2" by (cases l; auto split: Result.splits)+
    then show thesis using s2 by (auto intro: failed)
  qed
qed

lemma fur_inv_add:
  assumes inv: "fur_inv s" and "add_torrent get past f s = (Ret r, s')"
  shows "fur_inv s'"
proof -
  have inv2: "fur_inv (s\<lparr>next_uid := next_uid s + 1, disk_fs := fs\<rparr>)" for fs
    using inv by (rule fur_inv_same) (simp_all add: live_def main_thread_def removing_def)
  from assms(2) show ?thesis
  proof (cases rule: add_torrent_Ret)
    case (loaded td fs)
    have "torrents s (next_uid s) = None \<or> torrents s (next_uid s) = Some Torrent_empty" using inv by (simp add: fur_inv_def)
    then show ?thesis using fur_inv_start [OF inv2 _ _ loaded(2)] by simp
  qed (simp add: inv2)
qed

lemma queue_mutate_filter:
  "fst (queue_mutate (\<lambda>(_ :: nat) task. (P task, task, 0)) n xs) = filter (\<lambda>task. \<not> P task) xs"
  by (induction xs arbitrary: n) (auto simp: split_beta Let_def)

text \<open>Removing a torrent drops its queued tasks and nothing else; tasks that workers hold go on.\<close>

lemma remove_tasks_simps:
  "work (tasks (remove_tasks i s)) = filter (\<lambda>k. pt_tid k \<noteq> i) (work (tasks s))"
  "torrents (remove_tasks i s) = torrents s" "held (remove_tasks i s) = held s" "next_uid (remove_tasks i s) = next_uid s"
  "disk_fs (remove_tasks i s) = disk_fs s" "main_thread (remove_tasks i s) = main_thread s" "wpc (remove_tasks i s) = wpc s"
  by (simp_all add: remove_tasks_def shared_mutate_def queue_mutate_filter)

lemma remove_tasks_live:
  "live (remove_tasks i s) = image_mset task_args (mset (filter (\<lambda>k. pt_tid k \<noteq> i) (work (tasks s)))) + held s"
  by (simp add: live_def remove_tasks_simps queued_def)

lemma remove_tasks_sub: "live (remove_tasks i s) \<subseteq># live s"
proof -
  have "image_mset task_args (mset (filter (\<lambda>k. pt_tid k \<noteq> i) (work (tasks s)))) \<subseteq># queued s"
    unfolding queued_def by (intro image_mset_subseteq_mono) (simp add: mset_filter)
  then show ?thesis unfolding remove_tasks_live unfolding live_def by simp
qed

lemma remove_tasks_other: "j \<noteq> i \<Longrightarrow> live_count j (remove_tasks i s) = live_count j s"
proof -
  assume "j \<noteq> i"
  then have "filter_mset (\<lambda>x. fst x = j) (image_mset task_args (mset (filter (\<lambda>k. pt_tid k \<noteq> i) xs))) =
      filter_mset (\<lambda>x. fst x = j) (image_mset task_args (mset xs))" for xs
    by (induction xs) (auto simp: task_args_def)
  then show "live_count j (remove_tasks i s) = live_count j s"
    by (simp add: live_count_def remove_tasks_live) (simp add: live_def queued_def)
qed

lemma removing_idle: "mpc s = M_Idle \<Longrightarrow> \<not> removing s i"
  by (simp add: removing_def)

lemma removing_others: "mpc s = M_Mutated i \<or> mpc s = M_Loaded i \<Longrightarrow> removing s j = (j = i)"
  by (auto simp: removing_def)

lemma acc_ok_fewer: "acc_ok r n t \<Longrightarrow> m \<le> n \<Longrightarrow> acc_ok True m t"
  by (auto simp: acc_ok_def)

lemma fur_inv_remove_tasks:
  assumes inv: "fur_inv s" and "mpc s = M_Idle"
  shows "fur_inv (remove_tasks i s)"
proof (cases "torrents s i")
  case None
  have "filter (\<lambda>k. pt_tid k \<noteq> i) (work (tasks s)) = work (tasks s)"
  proof (rule filter_True, rule ballI)
    fix k assume "k \<in> set (work (tasks s))"
    then have "task_args k \<in># live s" by (simp add: live_def queued_def)
    with fur_inv_unknown [OF inv, of i] None show "pt_tid k \<noteq> i" by (force simp: live_count_0 task_args_def)
  qed
  then have "live (remove_tasks i s) = live s" by (simp add: remove_tasks_live) (simp add: live_def queued_def)
  then show ?thesis using assms(2)
    by (intro fur_inv_same [OF inv]) (simp_all add: remove_tasks_simps removing_idle, simp add: remove_tasks_def)
next
  case (Some t)
  have le: "live_count i (remove_tasks i s) \<le> live_count i s"
    unfolding live_count_def by (intro size_mset_mono multiset_filter_mono remove_tasks_sub)
  have fin: "finishing (remove_tasks i s) j t' = finishing s j t'" for j t'
    by (rule finishing_mono_iff) (simp_all add: remove_tasks_simps)
  have rm: "removing (remove_tasks i s) i" by (simp add: removing_def remove_tasks_def)
  note acc = fur_inv_acc [OF inv Some]
  note known = fur_inv_entry [OF inv Some]
  show ?thesis
    by (rule fur_inv_update [OF inv remove_tasks_sub remove_tasks_other Some, where t' = t])
      (use Some rm fin acc known acc_ok_fewer [OF _ le] assms(2) in \<open>auto simp: remove_tasks_simps removing_idle remove_tasks_def\<close>)
qed

text \<open>The entry that reading the state of an unknown torrent makes.\<close>

lemma acc_ok_empty: "acc_ok r 0 Torrent_empty"
  by (simp add: acc_ok_def Torrent_empty_def empty_TorrentFile_def)

lemma torrent_at_cases:
  obtains (known) t where "torrents s i = Some t" "torrent_at i s = (t, s)"
    | (unknown) "torrents s i = None" "torrent_at i s = (Torrent_empty, set_torrent i Torrent_empty s)"
  by (cases "torrents s i") (auto simp: torrent_at_def set_torrent_def)

lemma fur_inv_remove_load:
  assumes inv: "fur_inv s" and m: "mpc s = M_Mutated i"
  shows "fur_inv (remove_load i s)"
proof (rule torrent_at_cases [of s i])
  fix t assume t: "torrents s i = Some t" "torrent_at i s = (t, s)"
  let ?s = "remove_load i s"
  have s: "?s = s\<lparr>mpc := if tstate t \<noteq> Completed \<and> tstate t \<noteq> Error then M_Loaded i else M_Idle\<rparr>"
    using t by (simp add: remove_load_def)
  have fin: "finishing ?s j t' = finishing s j t'" for j t' by (rule finishing_mono_iff) (simp_all add: s)
  have lv: "live ?s = live s" by (simp add: s live_def)
  have "i < next_uid s" if "tstate t \<noteq> Error" using that fur_inv_entry [OF inv t(1)] by (auto simp: Torrent_empty_def)
  moreover have "acc_ok (removing ?s i) (live_count i ?s) t"
    using fur_inv_acc [OF inv t(1)] lv by (auto simp: s acc_ok_def removing_def live_count_def)
  ultimately show "fur_inv ?s" using fur_inv_acc [OF inv t(1)] t(1) fin lv fur_inv_entry [OF inv t(1)]
    by (intro fur_inv_update [OF inv, where i = i and t = t and t' = t])
      (auto simp: s live_count_def removing_others [OF disjI1 [OF m]] split: if_splits)
next
  assume t: "torrents s i = None" "torrent_at i s = (Torrent_empty, set_torrent i Torrent_empty s)"
  have s: "remove_load i s = (set_torrent i Torrent_empty s)\<lparr>mpc := M_Idle\<rparr>"
    using t by (simp add: remove_load_def Torrent_empty_def)
  show "fur_inv (remove_load i s)"
    by (intro fur_inv_new [OF inv disjI1 [OF t(1)], where M = "{#}" and t = Torrent_empty])
      (use acc_ok_empty in \<open>auto simp: s live_def removing_others [OF disjI1 [OF m]] scores_ok_def Torrent_empty_def\<close>)
qed

lemma fur_inv_remove_store:
  assumes inv: "fur_inv s" and m: "mpc s = M_Loaded i"
  shows "fur_inv (remove_store i s)"
proof -
  have "torrents s i \<noteq> None" "i < next_uid s" using inv m by (auto simp: fur_inv_def)
  then obtain t where t: "torrents s i = Some t" by blast
  let ?s = "remove_store i s" and ?t = "t\<lparr>tstate := Stopped\<rparr>"
  have s: "?s = (set_torrent i ?t s)\<lparr>mpc := M_Idle\<rparr>" using t by (simp add: remove_store_def torrent_at_known)
  have fin: "finishing ?s j t' = finishing s j t'" for j t' by (rule finishing_mono_iff) (simp_all add: s)
  have lv: "live ?s = live s" by (simp add: s live_def)
  have "acc_ok (removing ?s i) (live_count i ?s) ?t" "scores_ok ?t" "finishing ?s i ?t"
    using fur_inv_acc [OF inv t] lv by (auto simp: acc_ok_def live_count_def scores_ok_def finishing_def)
  with t fin lv \<open>i < next_uid s\<close> show "fur_inv ?s"
    by (intro fur_inv_update [OF inv, where i = i and t = t and t' = ?t])
      (auto simp: s live_count_def removing_others [OF disjI2 [OF m]])
qed

lemma set_download_folder_frame:
  assumes "set_download_folder d s = (r, s')"
  shows "torrents s' = torrents s" "live s' = live s" "next_uid s' = next_uid s" "wpc s' = wpc s"
    "main_thread s' = main_thread s" "mpc s' = mpc s" "tasks s' = tasks s" "workers s' = workers s"
proof -
  have "\<exists>fs d. s' = s\<lparr>disk_fs := fs\<rparr> \<or> s' = s\<lparr>disk_fs := fs, download_folder := d\<rparr>"
    using assms
    by (auto simp: set_download_folder_def bind_eff_def on_disk_def split_beta Let_def
        split: outcome.splits Result.splits prod.splits if_splits)
  then show "torrents s' = torrents s" "live s' = live s" "next_uid s' = next_uid s" "wpc s' = wpc s"
    "main_thread s' = main_thread s" "mpc s' = mpc s" "tasks s' = tasks s" "workers s' = workers s"
    by (auto simp: live_def)
qed

text \<open>The destructor touches neither tasks nor torrents.\<close>

lemma join_all_length: "join_all ts = Some (r, ts') \<Longrightarrow> length ts' = length ts"
  by (induction ts arbitrary: ts' rule: join_all.induct) auto

lemma shutdown_join_state:
  assumes "shutdown_join s = Some (Ret s')"
  obtains g where "terminate (workers s) = Some (Ret (), g)" "s' = s\<lparr>workers := g, mpc := M_Done\<rparr>"
    "length (threads g) = length (threads (workers s))"
proof -
  from assms obtain r g where g: "terminate (workers s) = Some (r, g)" "obind r (\<lambda>_. Ret (s\<lparr>workers := g, mpc := M_Done\<rparr>)) = Ret s'"
    by (auto simp: shutdown_join_def)
  then have "r = Ret ()" "s' = s\<lparr>workers := g, mpc := M_Done\<rparr>" by (cases r; simp)+
  moreover have "length (threads g) = length (threads (workers s))"
    using g(1) by (auto simp: terminate_def dest: join_all_length)
  ultimately show thesis using that g(1) by simp
qed

lemma shutdown_frame:
  "live (shutdown_skip s) = live s" "torrents (shutdown_skip s) = torrents s" "next_uid (shutdown_skip s) = next_uid s"
  "main_thread (shutdown_skip s) = main_thread s" "wpc (shutdown_skip s) = wpc s" "mpc (shutdown_skip s) = M_Skipping"
  "live (shutdown_signal s) = live s" "torrents (shutdown_signal s) = torrents s" "next_uid (shutdown_signal s) = next_uid s"
  "main_thread (shutdown_signal s) = main_thread s" "wpc (shutdown_signal s) = wpc s" "mpc (shutdown_signal s) = M_Joining"
  "disk_fs (shutdown_skip s) = disk_fs s" "disk_fs (shutdown_signal s) = disk_fs s"
  by (simp_all add: shutdown_skip_def shutdown_signal_def live_def queued_def held_def main_thread_def set_terminate_def)

lemma shutdown_join_frame:
  assumes "shutdown_join s = Some (Ret s')"
  shows "live s' = live s" "torrents s' = torrents s" "next_uid s' = next_uid s" "main_thread s' = main_thread s"
    "wpc s' = wpc s" "mpc s' = M_Done" "disk_fs s' = disk_fs s"
proof -
  from assms obtain g where "s' = s\<lparr>workers := g, mpc := M_Done\<rparr>" "length (threads g) = length (threads (workers s))"
    by (rule shutdown_join_state)
  then show "live s' = live s" "torrents s' = torrents s" "next_uid s' = next_uid s" "main_thread s' = main_thread s"
    "wpc s' = wpc s" "mpc s' = M_Done" "disk_fs s' = disk_fs s"
    by (simp_all add: live_def queued_def held_def main_thread_def)
qed

lemma worker_loop_frame:
  "main_thread (worker_loop t s) = main_thread s" "mpc (worker_loop t s) = mpc s"
  "wpc s t = W_Loop \<Longrightarrow> counted (wpc (worker_loop t s) u) = counted (wpc s u)"
  by (auto simp: worker_loop_def split: prod.split Result.split)

lemma worker_lookup_frame:
  assumes "worker_lookup t task s = Ret s'"
  shows "main_thread s' = main_thread s" "mpc s' = mpc s" "wpc s t = W_Got task \<Longrightarrow> counted (wpc s' u) = counted (wpc s u)"
  using assms by (auto simp: worker_lookup_def torrent_at_def split: option.splits if_splits)

lemma worker_attempt_frame:
  assumes "worker_attempt A w i t task ps ws s = Some (Ret s')"
  shows "main_thread s' = main_thread s" "mpc s' = mpc s" "tasks s' = tasks s" "workers s' = workers s"
    "wpc s t = W_Retry task ps ws \<Longrightarrow> counted (wpc s' u) = counted (wpc s u)"
  using assms by (auto simp: worker_attempt_def split: outcome.splits if_splits)

lemma fur_inv_step:
  assumes inv: "fur_inv s" and "fur_step A get past ev s s'"
  shows "fur_inv s'"
  using assms(2)
proof (cases rule: fur_step.cases)
  case (loop t)
  then show ?thesis using worker_loop_live [of t s]
    by (intro fur_inv_same [OF inv]) (simp_all add: worker_loop_frame removing_def)
next
  case (wait t)
  then show ?thesis using worker_wait_live [of t s]
    by (intro fur_inv_same [OF inv]) (simp_all add: worker_wait_def removing_def)
next
  case (lookup t task)
  have "task_args task \<in># live s" using held_in_live [OF lookup(2), of task] lookup(3) by simp
  with inv obtain tor where "torrents s (pt_tid task) = Some tor" "descriptor tor = pt_descriptor task"
    by (rule fur_inv_task) (simp add: task_args_def)
  from worker_lookup_live [OF lookup(2,3,5) this] worker_lookup_frame [OF lookup(5)] lookup(3) show ?thesis
    by (intro fur_inv_same [OF inv]) (simp_all add: removing_def)
next
  case (attempt t task ps ws i w)
  then show ?thesis using worker_attempt_live [OF attempt(2,3,5)] worker_attempt_frame [OF attempt(5)]
    by (intro fur_inv_same [OF inv]) (simp_all add: removing_def)
next
  case (book t task i)
  then show ?thesis using fur_inv_book [OF inv] by simp
next
  case (finish t i n)
  then show ?thesis using fur_inv_finish [OF inv] by simp
next
  case (queue e q)
  then show ?thesis using queue_step_work [of e "tasks s" q]
    by (intro fur_inv_same [OF inv]) (auto simp: live_def queued_def removing_def)
next
  case (spurious q)
  then show ?thesis using queue_step_work [of SpuriousWake "tasks s" q]
    by (intro fur_inv_same [OF inv]) (auto simp: live_def queued_def removing_def)
next
  case (add f r)
  then show ?thesis using fur_inv_add [OF inv] by simp
next
  case (remove i)
  then show ?thesis using fur_inv_remove_tasks [OF inv] by (simp add: main_ready_def)
next
  case (remove_read i)
  then show ?thesis using fur_inv_remove_load [OF inv] by simp
next
  case (remove_write i)
  then show ?thesis using fur_inv_remove_store [OF inv] by simp
next
  case (folder d r)
  then show ?thesis using set_download_folder_frame [of d s "Ret r" s']
    by (intro fur_inv_same [OF inv]) (simp_all add: removing_def)
next
  case shutdown
  then show ?thesis by (intro fur_inv_same [OF inv]) (simp_all add: shutdown_frame main_ready_def removing_def)
next
  case signal
  then show ?thesis by (intro fur_inv_same [OF inv]) (simp_all add: shutdown_frame removing_def)
next
  case join
  then show ?thesis using shutdown_join_frame [OF join(3)] by (intro fur_inv_same [OF inv]) (simp_all add: removing_def)
qed

lemma fur_inv_init: "fur_inv (Furrent_init hw fs)"
  by (simp add: fur_inv_def Furrent_init_def live_def queued_def held_def SharedQueue_init_def)

lemma fur_reach_inv: "fur_reach A get past s \<Longrightarrow> fur_inv s"
  by (induction rule: fur_reach.induct) (auto intro: fur_inv_init fur_inv_step)

end
