(* ===== verification/Peer_Stats.thy ===== *)
theory Peer_Stats
  imports Client_Inv
begin

text \<open>
  The picture of the distribution of peers that a worker logs every hundred pieces
  (\<open>thread_print_torrent_stats\<close> in furrent.cpp). It changes no state of the client; the lemmas say
  that it is defined for the torrents of a reachable client, so that a worker always gets past it,
  and what it shows.
\<close>

section \<open>The rolls and the picture\<close>

text \<open>The draws come from the random generator and are an argument.\<close>

fun roll_loop :: "int list \<Rightarrow> int list \<Rightarrow> int list outcome" where
  "roll_loop rolls [] = Ret rolls"
| "roll_loop rolls (i # draws) =
     obind (vec_at rolls i) (\<lambda>n. obind (add64 n 1) (\<lambda>n'. roll_loop (rolls[nat i := n']) draws))"

text \<open>\<open>width(30)\<close> with \<open>std::right\<close>: spaces on the left up to thirty characters.\<close>

definition pad_left :: "string \<Rightarrow> string" where
  "pad_left s = replicate (30 - length s) CHR '' '' @ s"

definition stats_line :: "Peer list \<Rightarrow> int list \<Rightarrow> int \<Rightarrow> string outcome" where
  "stats_line ps rolls i =
     obind (vec_at ps i) (\<lambda>peer.
     obind (vec_at rolls i) (\<lambda>n.
     obind (mul64 n (int (length ps))) (\<lambda>m.
     obind (div64 m 1000) (\<lambda>stars.
       if stars < 0 then Throw length_error
       else Ret (pad_left (address peer) @ '' : '' @ replicate (nat stars) CHR ''*'' @ [CHR 0x0A])))))"

definition print_torrent_stats :: "int list \<Rightarrow> Peer list \<Rightarrow> string outcome" where
  "print_torrent_stats draws ps =
     obind (roll_loop (replicate (length ps) 0) draws) (\<lambda>rolls.
     obind (omap (stats_line ps rolls) [0..int (length ps) - 1]) (\<lambda>lines. Ret (concat lines)))"

section \<open>When it is defined and what it shows\<close>

lemma roll_loop_counts:
  assumes "\<forall>i \<in> set draws. 0 \<le> i \<and> i < int (length rolls)"
    and "\<forall>n \<in> set rolls. 0 \<le> n \<and> n + int (length draws) \<le> int64_max"
  shows "roll_loop rolls draws = Ret (map (\<lambda>j. rolls ! j + int (count_list draws (int j))) [0..<length rolls])"
  using assms
proof (induction draws arbitrary: rolls)
  case Nil
  then show ?case by (simp add: map_nth)
next
  case (Cons i draws)
  then have i: "0 \<le> i" "nat i < length rolls" by auto
  have n: "0 \<le> rolls ! nat i" "rolls ! nat i + 1 + int (length draws) \<le> int64_max" using Cons.prems(2) nth_mem [OF i(2)] by force+
  let ?r = "rolls[nat i := rolls ! nat i + 1]"
  have "\<forall>n \<in> set ?r. 0 \<le> n \<and> n + int (length draws) \<le> int64_max"
    using Cons.prems(2) n set_update_subset_insert [of rolls "nat i"] by fastforce
  with Cons.prems(1) have "roll_loop ?r draws = Ret (map (\<lambda>j. ?r ! j + int (count_list draws (int j))) [0..<length rolls])"
    using Cons.IH [of ?r] by simp
  moreover have "map (\<lambda>j. ?r ! j + int (count_list draws (int j))) [0..<length rolls] =
      map (\<lambda>j. rolls ! j + int (count_list (i # draws) (int j))) [0..<length rolls]"
    using i by (auto simp: nth_list_update)
  ultimately show ?case using i n by (simp add: vec_at_def arith64 int64_min_def)
qed

lemma stats_line_defined:
  assumes "j < length ps" "length rolls = length ps" "0 \<le> rolls ! j" "rolls ! j * int (length ps) \<le> int64_max"
  shows "stats_line ps rolls (int j) = Ret (pad_left (address (ps ! j)) @ '' : '' @
    replicate (nat (rolls ! j * int (length ps) div 1000)) CHR ''*'' @ [CHR 0x0A])"
proof -
  define m where "m = rolls ! j * int (length ps)"
  have "0 \<le> m" using assms(3) by (simp add: m_def)
  moreover have "m div 1000 \<le> m" using zdiv_mono2 [of m 1 1000] calculation by simp
  moreover have "0 \<le> m div 1000" using \<open>0 \<le> m\<close> by (simp add: pos_imp_zdiv_nonneg_iff)
  moreover have "m sdiv 1000 = m div 1000" using \<open>0 \<le> m\<close> by (intro sdiv_nonneg) simp_all
  moreover have "vec_at rolls (int j) = Ret (rolls ! j)" "vec_at ps (int j) = Ret (ps ! j)" using assms(1,2) by simp_all
  ultimately show ?thesis using assms(4) unfolding stats_line_def m_def [symmetric]
    by (simp add: arith64 int64_min_def m_def [symmetric])
qed

lemma omap_map: "omap f (map g xs) = omap (\<lambda>x. f (g x)) xs"
  by (induction xs) simp_all

text \<open>
  For every torrent of a reachable client that has peers, and any draws from the distribution over
  its peers, the picture is defined: each peer has a line with its share of the draws.
\<close>

lemma print_torrent_stats_defined:
  assumes "fur_reach A get past s" "torrents s i = Some t" "peers t \<noteq> []"
    and draws: "\<forall>k \<in> set draws. may_draw (distribution t) k"
    and fits: "int (length draws) * int (length (peers t)) \<le> int64_max"
  shows "print_torrent_stats draws (peers t) = Ret (concat (map (\<lambda>j. pad_left (address (peers t ! j)) @ '' : '' @
    replicate (count_list draws (int j) * length (peers t) div 1000) CHR ''*'' @ [CHR 0x0A]) [0..<length (peers t)]))"
proof -
  let ?n = "length (peers t)" and ?rolls = "map (\<lambda>j. int (count_list draws (int j))) [0..<length (peers t)]"
  have "scores_ok t" using fur_inv_acc [OF fur_reach_inv [OF assms(1)] assms(2)] by simp
  then have len: "length (distribution t) = ?n" by (simp add: scores_ok_def distribution_def)
  then have "distribution t \<noteq> []" using assms(3) by (metis length_0_conv)
  then have "\<forall>k \<in> set draws. 0 \<le> k \<and> k < int (length (replicate ?n (0 :: int)))"
    using draws len by (auto simp: may_draw_def)
  moreover have "int (length draws) * 1 \<le> int (length draws) * int ?n" using assms(3) by (intro mult_left_mono) (simp_all add: Suc_leI)
  then have "int (length draws) \<le> int64_max" using fits by simp
  ultimately have r: "roll_loop (replicate ?n 0) draws = Ret ?rolls"
    using roll_loop_counts [of draws "replicate ?n 0"] by (auto cong: map_cong)
  have "int (count_list draws (int j)) * int ?n \<le> int64_max" for j
    using fits count_le_length [of draws "int j"] mult_right_mono [of "int (count_list draws (int j))" "int (length draws)" "int ?n"] by linarith
  then have "stats_line (peers t) ?rolls (int j) = Ret (pad_left (address (peers t ! j)) @ '' : '' @
      replicate (count_list draws (int j) * ?n div 1000) CHR ''*'' @ [CHR 0x0A])" if "j < ?n" for j
    using stats_line_defined [of j "peers t" ?rolls] that by (simp add: nat_div_distrib flip: of_nat_mult)
  then have "omap (\<lambda>j. stats_line (peers t) ?rolls (int j)) [0..<?n] = Ret (map (\<lambda>j. pad_left (address (peers t ! j)) @ '' : '' @
      replicate (count_list draws (int j) * ?n div 1000) CHR ''*'' @ [CHR 0x0A]) [0..<?n])"
    by (intro omap_all_Ret) simp
  moreover have "[0..int ?n - 1] = map int [0..<?n]" by (rule nth_equalityI) auto
  ultimately have "omap (stats_line (peers t) ?rolls) [0..int ?n - 1] = Ret (map (\<lambda>j. pad_left (address (peers t ! j)) @ '' : '' @
      replicate (count_list draws (int j) * ?n div 1000) CHR ''*'' @ [CHR 0x0A]) [0..<?n])"
    by (simp only: omap_map)
  then show ?thesis by (simp add: print_torrent_stats_def r)
qed

end
