(* ===== verification/Session.thy ===== *)
theory Session
  imports Client_Inv
begin

text \<open>
  The life of a torrent from the moment it is added. First what \<open>prepare_torrent_files\<close> leaves on
  the disk; then, for a torrent of one file, an invariant of every run of the workers that links
  the tasks still alive, the counter of processed pieces and the bytes of the file. It gives the
  end-to-end property: when the torrent is reported as completed, every piece of the file on the
  disk has the hash that the torrent lists for it.
\<close>

section \<open>Preparing the files\<close>

lemma strip_last_append: "CHR ''/'' \<notin> set b \<Longrightarrow> strip_last (a @ ''/'' @ b) = Some a"
proof -
  assume "CHR ''/'' \<notin> set b"
  then have "dropWhile (\<lambda>c. c \<noteq> CHR ''/'') (rev b @ CHR ''/'' # rev a) = CHR ''/'' # rev a"
    by (subst dropWhile_append2) auto
  then show ?thesis by (simp add: strip_last_def)
qed

lemma filename_sections_snoc:
  "filename_sections (xs @ [x]) = concat (map (\<lambda>p. p @ ''/'') xs) @ x"
proof -
  let ?g = "\<lambda>ys i. (ys ! i) @ (if int i \<noteq> int (length ys) - 1 then ''/'' else '''')"
  have "map (?g (xs @ [x])) [0..<length xs] = map (\<lambda>i. (xs ! i) @ ''/'') [0..<length xs]"
    by (simp add: nth_append)
  also have "\<dots> = map (\<lambda>p. p @ ''/'') xs" by (rule nth_equalityI) simp_all
  finally show ?thesis by (simp add: filename_sections_def)
qed

text \<open>A file whose path components are names, without separators.\<close>

definition plain_file :: "File \<Rightarrow> bool" where
  "plain_file f \<longleftrightarrow> filepath f \<noteq> [] \<and> CHR ''/'' \<notin> set (last (filepath f))"

lemma plain_file_split:
  assumes "plain_file f"
  obtains dir where "strip_last (folder @ ''/'' @ filename_sections (filepath f)) = Some dir"
    "dir @ ''/'' @ last (filepath f) = folder @ ''/'' @ filename_sections (filepath f)"
proof -
  obtain xs x where f: "filepath f = xs @ [x]" using assms by (cases "filepath f" rule: rev_cases) (auto simp: plain_file_def)
  then have x: "CHR ''/'' \<notin> set x" using assms by (simp add: plain_file_def)
  show thesis
  proof (cases xs rule: rev_cases)
    case Nil
    then show ?thesis using that [of folder] strip_last_append [OF x, of folder] f by (simp add: filename_sections_snoc [of "[]", simplified])
  next
    case (snoc ys y)
    let ?d = "folder @ ''/'' @ concat (map (\<lambda>p. p @ ''/'') ys) @ y"
    have e: "folder @ ''/'' @ filename_sections (filepath f) = ?d @ ''/'' @ x" by (simp add: f snoc filename_sections_snoc [of "_ @ [_]", simplified])
    show ?thesis by (rule that [of ?d]) (simp_all only: e strip_last_append [OF x], simp add: f)
  qed
qed

lemma touch_keeps:
  assumes "file_at fs k = Some c"
  shows "file_at (snd (touch n sz fs)) k = Some c"
proof (cases "k = to_path n")
  case True
  with assms have "node_at fs (to_path n) \<noteq> None" "to_path n \<notin> denied fs"
    by (auto simp: file_at_def split: option.splits if_splits)
  then have "touch n sz fs = (Ret (ERROR FileAlreadyExists), fs)"
    by (simp add: touch_def exists_path_def bind_eff_def)
  with assms show ?thesis by simp
qed (use assms touch_only_here in metis)

lemma create_directories_file_at: "file_at (snd (create_directories d b fs)) = file_at fs"
  by (auto simp: create_directories_def Let_def split: option.split)

lemma create_file_keeps:
  assumes "file_at fs k = Some c"
  shows "file_at (snd (create_file folder f fs)) k = Some c"
proof -
  have 1: "file_at (snd (create_directories d b fs)) k = Some c" for d b
    using assms by (simp add: create_directories_file_at)
  show ?thesis
    unfolding create_file_def bind_eff_def
    using assms 1 touch_keeps [of _ k c]
    by (auto split: outcome.split prod.split Result.split) (metis snd_conv)+
qed

text \<open>A file that is created is touched at its own path.\<close>

lemma create_file_touch:
  assumes "create_file folder f fs = (Ret True, fs')" "plain_file f"
  obtains dir fs1 where "touch (dir @ ''/'' @ last (filepath f)) (flength f) fs1 = (Ret (OK ()), fs')"
    "dir @ ''/'' @ last (filepath f) = folder @ ''/'' @ filename_sections (filepath f)" "file_at fs1 = file_at fs"
proof -
  obtain dir where d: "strip_last (folder @ ''/'' @ filename_sections (filepath f)) = Some dir"
    "dir @ ''/'' @ last (filepath f) = folder @ ''/'' @ filename_sections (filepath f)"
    using plain_file_split [OF assms(2)] by blast
  have "nat (int (length (filepath f)) - 1) = length (filepath f) - 1" by simp
  then have bk: "vec_at (filepath f) (int (length (filepath f)) - 1) = Ret (last (filepath f))"
    using assms(2) by (simp add: plain_file_def vec_at_def last_conv_nth)
  obtain r fs1 where c: "create_directories (folder @ ''/'' @ filename_sections (filepath f)) True fs = (r, fs1)"
    by (rule prod.exhaust)
  have r: "r = Ret (OK dir) \<or> (\<forall>x. r \<noteq> Ret (OK x))"
    using c d(1) by (auto simp: create_directories_def Let_def split: if_splits)
  have n: "filename f = Ret (filename_sections (filepath f))"
    using assms(1) by (auto simp: create_file_def filename_def split: if_splits)
  have "r = Ret (OK dir)" using r c n assms(1) by (cases r) (auto simp: create_file_def split: Result.splits)
  with c n bk assms(1) have "bind_eff (touch (dir @ ''/'' @ last (filepath f)) (flength f))
      (\<lambda>creation. case creation of ERROR e \<Rightarrow> ret False | OK _ \<Rightarrow> ret True) fs1 = (Ret True, fs')"
    by (simp add: create_file_def)
  then have "touch (dir @ ''/'' @ last (filepath f)) (flength f) fs1 = (Ret (OK ()), fs')"
    by (rule bind_eff_Ret) (auto split: Result.splits)
  moreover have "file_at fs1 = file_at fs"
    using create_directories_file_at [of "folder @ ''/'' @ filename_sections (filepath f)" True fs] c by simp
  ultimately show thesis using that d(2) by blast
qed

lemma create_file_True:
  assumes "create_file folder f fs = (Ret True, fs')" "plain_file f"
  shows "\<exists>c. file_at fs' (to_path (folder @ ''/'' @ filename_sections (filepath f))) = Some c \<and> int (length c) = flength f"
  using create_file_touch [OF assms] touch_file_at(1) by metis

lemma create_files_keeps: "file_at fs k = Some c \<Longrightarrow> file_at (snd (create_files folder fl fs)) k = Some c"
proof (induction fl arbitrary: fs)
  case (Cons f fl)
  obtain r fs1 where c: "create_file folder f fs = (r, fs1)" by (rule prod.exhaust)
  then have "file_at fs1 k = Some c" using create_file_keeps [OF Cons.prems, of folder f] by simp
  with Cons.IH c show ?case by (cases r) auto
qed simp

lemma create_files_True:
  "create_files folder fl fs = (Ret True, fs') \<Longrightarrow> f \<in> set fl \<Longrightarrow> plain_file f \<Longrightarrow>
    \<exists>c. file_at fs' (to_path (folder @ ''/'' @ filename_sections (filepath f))) = Some c \<and> int (length c) = flength f"
proof (induction fl arbitrary: fs)
  case (Cons g fl)
  from Cons.prems(1) obtain fs1 where g: "create_file folder g fs = (Ret True, fs1)"
      and rest: "create_files folder fl fs1 = (Ret True, fs')"
    by (auto elim!: bind_eff_Ret split: if_splits)
  show ?case
  proof (cases "f \<in> set fl")
    case True
    with Cons rest show ?thesis by blast
  next
    case False
    with Cons.prems g obtain c where "file_at fs1 (to_path (folder @ ''/'' @ filename_sections (filepath f))) = Some c"
        "int (length c) = flength f" using create_file_True [of folder f fs fs1] by auto
    with create_files_keeps [of fs1 _ c folder fl] rest show ?thesis by simp
  qed
qed simp

lemma prepare_True:
  assumes "prepare_torrent_files folder td fs = (Ret (True, td'), fs')"
  obtains dir fs1 where "td' = td\<lparr>folder_name := dir\<rparr>" "create_files dir (files td) fs1 = (Ret True, fs')"
    "node_at fs1 (to_path dir) = Some Dir" "file_at fs1 = file_at fs"
proof -
  obtain base n where b: "copy_path MAX_COPY_ATTEMPTS 0 (folder @ ''/'' @ tname td) fs = (base, n)" by (rule prod.exhaust)
  obtain r fs1 where c: "create_directories base False fs = (r, fs1)" by (rule prod.exhaust)
  obtain dir where r: "r = Ret (OK dir)"
    using assms b c by (cases r) (auto simp: prepare_torrent_files_def split: Result.splits if_splits)
  obtain q fs2 where q: "create_files dir (files td) fs1 = (q, fs2)" by (rule prod.exhaust)
  have "q = Ret True"
    using assms b c r q by (cases q) (auto simp: prepare_torrent_files_def bind_eff_def split: if_splits prod.splits outcome.splits)
  then show thesis
    using that [of dir fs1] assms b c r q create_directories_OK(3,4) [of base False fs dir fs1]
    by (auto simp: prepare_torrent_files_def split: if_splits)
qed


definition one_folder :: FS where
  "one_folder = \<lparr>nodes = [[''o''] \<mapsto> Dir], denied = {}\<rparr>"


text \<open>The test for too many copies never succeeds: the loop stops at the bound.\<close>

lemma copy_path_attempts: "snd (copy_path n k base fs) \<le> n + k"
proof (induction n arbitrary: k base)
  case (Suc n)
  from Suc [of "k + 1" "base @ '' COPY''"] show ?case by simp
qed simp

lemma prepare_never_too_many: "snd (copy_path MAX_COPY_ATTEMPTS 0 base fs) \<le> MAX_COPY_ATTEMPTS"
  using copy_path_attempts [of MAX_COPY_ATTEMPTS 0 base fs] by simp

section \<open>The pieces of a single file\<close>

definition file_piece :: "TorrentFile \<Rightarrow> File \<Rightarrow> int \<Rightarrow> Piece" where
  "file_piece td f k = \<lparr>pindex = k, subpieces =
     [\<lparr>sp_filepath = filename_sections (filepath f), file_offset = k * piece_length td,
       sp_len = min (piece_length td) (tlength td - k * piece_length td)\<rparr>]\<rparr>"

lemma expected_length_at: "expected_length = piece_length_at"
  by (auto simp: fun_eq_iff expected_length_def piece_length_at_def)

lemma single_file_next:
  assumes td: "partition_ok td" and f: "files td = [f]" and k: "0 \<le> k" "k < pieces_count td"
  shows "next_piece past td k (0, flength f, flength f - k * piece_length td) =
     Ret (file_piece td f k, (0, flength f, flength f - k * piece_length td - min (piece_length td) (flength f - k * piece_length td)))"
proof -
  have l: "tlength td = flength f" and lay: "layout_ok (files td)" and p: "0 < piece_length td"
    using td f by (simp_all add: partition_ok_def)
  note pl = piece_length_at_spec [OF td k, unfolded l]
  have kp: "0 \<le> k * piece_length td" using k(1) p by simp
  have n: "filename f = Ret (filename_sections (filepath f))" using layout_nth(3) [OF lay, of 0] f by simp
  have "sub64 (flength f) (flength f - k * piece_length td) = Ret (k * piece_length td)"
    "sub64 (flength f - k * piece_length td) (min (piece_length td) (flength f - k * piece_length td)) =
       Ret (flength f - k * piece_length td - min (piece_length td) (flength f - k * piece_length td))"
    using pl(2,3) kp p by (auto simp: in_int64_between)
  then show ?thesis using pl(1) f n by (simp add: next_piece_def file_piece_def l vec_at_def)
qed

lemma single_file_loop_eq:
  assumes td: "partition_ok td" and f: "files td = [f]"
  shows "0 \<le> k \<Longrightarrow> pieces_loop past td [k..pieces_count td - 1] (0, flength f, flength f - k * piece_length td) acc
     = Ret (acc @ map (file_piece td f) [k..pieces_count td - 1])"
proof (induction "nat (pieces_count td - k)" arbitrary: k acc)
  case (Suc n)
  have k: "k < pieces_count td" using Suc.hyps(2) by simp
  note np = single_file_next [OF td f Suc.prems k, of past]
  have u: "[k..pieces_count td - 1] = k # [k + 1..pieces_count td - 1]" using k by (simp add: upto_rec1)
  show ?case
  proof (cases "k + 1 < pieces_count td")
    case True
    have "(k + 1) * piece_length td < flength f"
      using piece_length_at_spec(2) [OF td _ True] Suc.prems td f by (simp add: partition_ok_def)
    then have "flength f - k * piece_length td - min (piece_length td) (flength f - k * piece_length td) = flength f - (k + 1) * piece_length td"
      by (simp add: algebra_simps)
    with np Suc.hyps(1) [of "k + 1" "acc @ [file_piece td f k]"] Suc.hyps(2) Suc.prems show ?thesis by (simp add: u)
  next
    case False
    then show ?thesis using np by (simp add: u)
  qed
qed simp

lemma single_file_pieces:
  assumes "partition_ok (descriptor t)" "files (descriptor t) = [f]"
  shows "pieces past t = Ret (map (file_piece (descriptor t) f) [0..pieces_count (descriptor t) - 1])"
proof -
  have "0 \<le> pieces_count (descriptor t)"
    using pieces_Some_spec [OF assms(1), of 0] pieces_length [of "Some 0" t] by auto
  then show ?thesis
    using single_file_loop_eq [OF assms, of 0 past "[]"] assms(2) by (simp add: pieces_def vec_at_def Let_def)
qed

section \<open>The bytes of the file\<close>

definition good_chunk :: "TorrentFile \<Rightarrow> bytes \<Rightarrow> int \<Rightarrow> bool" where
  "good_chunk td c k \<longleftrightarrow> sha1 (nth_chunk (piece_length td) c k) = piece_hashes td ! nat k"

lemma mult_gap:
  fixes p :: int
  assumes "0 < p" "j < k"
  shows "j * p + p \<le> k * p"
proof -
  have "(j + 1) * p \<le> k * p" using assms by (intro mult_right_mono) simp_all
  then show ?thesis by (simp add: algebra_simps)
qed

text \<open>Writing one piece in its place: it is there afterwards, and every other piece is as before.\<close>

lemma chunk_overwrite:
  fixes p l :: int
  assumes p: "0 < p" and c: "int (length c) = l" and k: "0 \<le> k" "k * p < l"
    and bs: "int (length bs) = min p (l - k * p)"
  shows "nth_chunk p (overwrite c (nat (k * p)) bs) k = bs"
    and "0 \<le> j \<Longrightarrow> j \<noteq> k \<Longrightarrow> nth_chunk p (overwrite c (nat (k * p)) bs) j = nth_chunk p c j"
    and "int (length (overwrite c (nat (k * p)) bs)) = l"
proof -
  define o' where "o' = nat (k * p)"
  have o: "int o' = k * p" using k(1) p by (simp add: o'_def)
  have fit: "o' + length bs \<le> length c" using c bs o by linarith
  have ov: "overwrite c o' bs = take o' c @ bs @ drop (o' + length bs) c" by (rule overwrite_inside [OF fit])
  have lo: "length (take o' c) = o'" using fit by simp
  show "int (length (overwrite c (nat (k * p)) bs)) = l" using fit c by (simp add: o'_def [symmetric] ov)
  show "nth_chunk p (overwrite c (nat (k * p)) bs) k = bs"
  proof -
    have "drop o' (overwrite c o' bs) = bs @ drop (o' + length bs) c" unfolding ov using lo by simp
    moreover have "take (nat p) (bs @ drop (o' + length bs) c) = bs"
    proof (cases "int (length bs) = p")
      case True
      then have "nat p = length bs" by simp
      then show ?thesis by simp
    next
      case False
      then have "int (o' + length bs) = int (length c)" using bs o c by linarith
      then have "drop (o' + length bs) c = []" by simp
      moreover have "length bs \<le> nat p" using bs by linarith
      ultimately show ?thesis by simp
    qed
    ultimately show ?thesis by (simp add: o'_def)
  qed
  show "nth_chunk p (overwrite c (nat (k * p)) bs) j = nth_chunk p c j" if "0 \<le> j" "j \<noteq> k"
  proof -
    let ?j = "nat (j * p)"
    have j: "int ?j = j * p" using that(1) p by simp
    have "take (nat p) (drop ?j (overwrite c o' bs)) = take (nat p) (drop ?j c)"
    proof (cases "j < k")
      case True
      then have le: "?j + nat p \<le> o'" using mult_gap [OF p True] j o p by linarith
      have "take (?j + nat p) (overwrite c o' bs) = take (?j + nat p) c"
        unfolding ov using le lo by (simp add: min_absorb1 take_take)
      then show ?thesis by (metis add_diff_cancel_left' drop_take)
    next
      case False
      then have "k < j" using that(2) by simp
      then have "o' + length bs \<le> ?j" using mult_gap [OF p, of k j] j o bs by linarith
      then have "drop ?j (overwrite c o' bs) = drop ?j c"
        unfolding ov using lo by (simp add: drop_append)
      then show ?thesis by simp
    qed
    then show ?thesis by (simp add: o'_def)
  qed
qed

text \<open>The descriptor of a torrent with one file, and the path of that file.\<close>

definition one_file :: "TorrentFile \<Rightarrow> File \<Rightarrow> bool" where
  "one_file td f \<longleftrightarrow> partition_ok td \<and> files td = [f] \<and> plain_file f"

definition file_name :: "TorrentFile \<Rightarrow> File \<Rightarrow> string" where
  "file_name td f = folder_name td @ ''/'' @ filename_sections (filepath f)"

lemma file_piece_simps [simp]:
  "pindex (file_piece td f k) = k"
  "subpieces (file_piece td f k) = [\<lparr>sp_filepath = filename_sections (filepath f), file_offset = k * piece_length td,
       sp_len = min (piece_length td) (tlength td - k * piece_length td)\<rparr>]"
  by (simp_all add: file_piece_def)

text \<open>A completed attempt at a piece of the file, on the bytes of the file.\<close>

lemma process_file_piece:
  assumes td: "one_file td f" and k: "0 \<le> k" "k < pieces_count td"
    and task: "pt_descriptor task = td" "pt_piece task = file_piece td f k"
    and run: "task_process A w peer task fs = Some (Ret \<lparr>completed = True\<rparr>, task', fs')"
    and c: "file_at fs (to_path (file_name td f)) = Some c" "int (length c) = tlength td"
  obtains c' where "file_at fs' (to_path (file_name td f)) = Some c'" "int (length c') = tlength td"
    "good_chunk td c' k" "\<And>j. 0 \<le> j \<Longrightarrow> j \<noteq> k \<Longrightarrow> good_chunk td c' j = good_chunk td c j"
proof -
  have po: "partition_ok td" and p: "0 < piece_length td" using td by (auto simp: one_file_def partition_ok_def)
  note pl = piece_length_at_spec [OF po k]
  let ?sp = "\<lparr>sp_filepath = filename_sections (filepath f), file_offset = k * piece_length td,
       sp_len = min (piece_length td) (tlength td - k * piece_length td)\<rparr>"
  have sp: "subpieces (pt_piece task) = [?sp]" "file_name td f = save_path (pt_descriptor task) ?sp"
    using task by (simp_all add: file_name_def save_path_def)
  obtain c0 and dl :: Downloaded where d: "file_at fs (to_path (file_name td f)) = Some c0"
    "file_at fs' (to_path (file_name td f)) = Some (overwrite c0 (nat (k * piece_length td)) (dcontent dl))"
    "expected_length td k = Ret (int (length (dcontent dl)))" "sha1 (dcontent dl) = piece_hashes td ! nat k"
    by (rule task_process_single [OF run sp]) (use task in simp)
  have "int (length (dcontent dl)) = min (piece_length td) (tlength td - k * piece_length td)"
    using d(3) pl(1) by (simp add: expected_length_at)
  note ov = chunk_overwrite [OF p c(2) k(1) pl(2) this]
  have "c0 = c" using d(1) c(1) by simp
  show thesis
    by (rule that [OF d(2)]) (use ov d(4) \<open>c0 = c\<close> in \<open>simp_all add: good_chunk_def del: length_overwrite\<close>)
qed

text \<open>An attempt that is not completed leaves the bytes alone when the piece lies in one file.\<close>

lemma process_not_completed:
  assumes "task_process A w peer task fs = Some (Ret stats, task', fs')" "\<not> completed stats" "subpieces (pt_piece task) = [sp]"
  shows "fs' = fs"
proof -
  have "fs' = fs" if "task_save t fs = (Ret False, fs')" "subpieces (pt_piece t) = [sp]" for t fs'
    using that
    by (cases "pt_data t") (auto simp: task_save_def bind_eff_def write_bytes_def Let_def
        split: option.splits node.splits if_splits outcome.splits Result.splits prod.splits)
  moreover have "pt_piece t = pt_piece task" if "task_download A w peer task = Some (q, t)" for q t
    using that by (auto simp: task_download_def keep_download_def split: option.splits outcome.splits Result.splits)
  ultimately show ?thesis
    using assms
    by (fastforce simp: task_process_def split: option.splits prod.splits outcome.splits bool.splits)
qed

section \<open>The invariant of a session\<close>

definition pieces_of :: "TorrentID \<Rightarrow> (TorrentID \<times> Piece \<times> TorrentFile) multiset \<Rightarrow> Piece multiset" where
  "pieces_of i M = image_mset (\<lambda>x. fst (snd x)) (filter_mset (\<lambda>x. fst x = i) M)"

definition file_pieces :: "TorrentFile \<Rightarrow> File \<Rightarrow> Piece multiset" where
  "file_pieces td f = mset (map (file_piece td f) [0..pieces_count td - 1])"

text \<open>The tasks of the other torrents write elsewhere.\<close>

definition isolated :: "TorrentID \<Rightarrow> string \<Rightarrow> (TorrentID \<times> Piece \<times> TorrentFile) multiset \<Rightarrow> bool" where
  "isolated i name M \<longleftrightarrow>
     (\<forall>(j, p, d) \<in># M. j \<noteq> i \<longrightarrow> (\<forall>sp \<in> set (subpieces p). to_path (save_path d sp) \<noteq> to_path name))"

text \<open>
  The pieces that are done, \<open>D\<close>, and the pieces still alive are together no more than the pieces
  of the file; the counter counts the former; the bytes on the disk of a piece that is done, or
  whose worker is about to count it, have the right hash.
\<close>

definition sess_inv :: "TorrentID \<Rightarrow> TorrentFile \<Rightarrow> File \<Rightarrow> Furrent \<Rightarrow> bytes \<Rightarrow> Piece multiset \<Rightarrow> bool" where
  "sess_inv i td f s c D \<longleftrightarrow>
     (\<exists>t. torrents s i = Some t \<and> descriptor t = td \<and> int (size D) = pieces_processed t) \<and>
     pieces_of i (live s) + D \<subseteq># file_pieces td f \<and>
     file_at (disk_fs s) (to_path (file_name td f)) = Some c \<and> int (length c) = tlength td \<and>
     (\<forall>p \<in># D. good_chunk td c (pindex p)) \<and>
     (\<forall>u < main_thread s. \<forall>task k. wpc s u = W_Processed task k \<and> pt_tid task = i \<longrightarrow> good_chunk td c (pindex (pt_piece task))) \<and>
     isolated i (file_name td f) (live s)"

lemma sess_inv_same:
  assumes "sess_inv i td f s c D" "live s' = live s" "torrents s' = torrents s"
    "file_at (disk_fs s') (to_path (file_name td f)) = file_at (disk_fs s) (to_path (file_name td f))"
    "main_thread s' = main_thread s"
    "\<And>u task k. u < main_thread s \<Longrightarrow> wpc s' u = W_Processed task k \<Longrightarrow> wpc s u = W_Processed task k"
  shows "sess_inv i td f s' c D"
  using assms by (auto simp: sess_inv_def)

lemma file_piecesE:
  assumes "p \<in># file_pieces td f"
  obtains k where "p = file_piece td f k" "0 \<le> k" "k < pieces_count td"
  using assms by (auto simp: file_pieces_def)

lemma live_piece:
  assumes "sess_inv i td f s c D" "x \<in># live s" "fst x = i"
  obtains k where "fst (snd x) = file_piece td f k" "0 \<le> k" "k < pieces_count td"
proof -
  have "fst (snd x) \<in># pieces_of i (live s)" using assms(2,3) by (auto simp: pieces_of_def)
  then have "fst (snd x) \<in># file_pieces td f"
    using assms(1) by (auto simp: sess_inv_def dest: mset_subset_eqD)
  then show thesis using that by (rule file_piecesE) 
qed

lemma sess_attempt:
  assumes inv: "fur_inv s" "sess_inv i td f s c D" and td: "one_file td f"
    and st: "u < main_thread s" "wpc s u = W_Retry task ps ws" "worker_attempt A w pk u task ps ws s = Some (Ret s')"
  shows "\<exists>c'. sess_inv i td f s' c' D"
proof -
  from st(3) obtain peer stats task' fs' where p: "task_process A w peer task (disk_fs s) = Some (Ret stats, task', fs')"
      "s' = set_wpc u (if completed stats then W_Processed task' pk else W_Retry task' ps ws) (s\<lparr>disk_fs := fs'\<rparr>)"
    by (auto simp: worker_attempt_def split: outcome.splits)
  note same = worker_attempt_live [OF st]
  have args: "task_args task' = task_args task" by (rule task_process_args [OF p(1)])
  have lv: "task_args task \<in># live s" using held_in_live [OF st(1), of task] st(2) by simp
  let ?n = "to_path (file_name td f)"
  have c: "file_at (disk_fs s) ?n = Some c" "int (length c) = tlength td" using inv(2) by (simp_all add: sess_inv_def)
  show ?thesis
  proof (cases "pt_tid task = i")
    case False
    then have "\<forall>sp \<in> set (subpieces (pt_piece task)). to_path (save_path (pt_descriptor task) sp) \<noteq> ?n"
      using lv inv(2) by (auto simp: sess_inv_def isolated_def task_args_def)
    from task_process_other [OF p(1) this] have "file_at fs' ?n = Some c" using c by simp
    with inv(2) same p(2) False args show ?thesis
      by (intro exI [of _ c]) (auto simp: sess_inv_def task_args_def split: if_splits)
  next
    case True
    obtain k where k: "pt_piece task = file_piece td f k" "0 \<le> k" "k < pieces_count td"
      by (rule live_piece [OF inv(2) lv]) (use True in \<open>simp_all add: task_args_def\<close>)
    have d: "pt_descriptor task = td"
      by (rule fur_inv_task [OF inv(1) lv]) (use inv(2) True in \<open>auto simp: sess_inv_def task_args_def\<close>)
    show ?thesis
    proof (cases "completed stats")
      case False
      have "subpieces (pt_piece task) = [hd (subpieces (pt_piece task))]" using k(1) by simp
      then have "fs' = disk_fs s" using process_not_completed [OF p(1) False] by simp
      with inv(2) same p(2) False show ?thesis by (intro exI [of _ c]) (auto simp: sess_inv_def split: if_splits)
    next
      case True
      then have "stats = \<lparr>completed = True\<rparr>" by simp
      from process_file_piece [OF td k(2,3) d k(1) p(1) [unfolded this] c] obtain c' where c':
        "file_at fs' ?n = Some c'" "int (length c') = tlength td" "good_chunk td c' k"
        "\<And>j. 0 \<le> j \<Longrightarrow> j \<noteq> k \<Longrightarrow> good_chunk td c' j = good_chunk td c j" by blast
      have keep: "good_chunk td c' j" if "good_chunk td c j" "0 \<le> j" for j
        using that c'(3,4) by (cases "j = k") auto
      have "0 \<le> pindex q" if "q \<in># D" for q
        using that inv(2) by (auto simp: sess_inv_def elim!: file_piecesE dest!: mset_subset_eqD [of _ _ q])
      then have "\<forall>q \<in># D. good_chunk td c' (pindex q)" using inv(2) keep by (auto simp: sess_inv_def)
      moreover have "good_chunk td c' (pindex (pt_piece t2))"
        if "v < main_thread s" "wpc s' v = W_Processed t2 k2" "pt_tid t2 = i" for v t2 k2
      proof (cases "v = u")
        case True
        then have "task_args t2 = task_args task" using that(2) p(2) \<open>completed stats\<close> args by simp
        then show ?thesis using k(1) c'(3) by (simp add: task_args_def)
      next
        case False
        then have v: "wpc s v = W_Processed t2 k2" using that(2) p(2) by simp
        then have l2: "task_args t2 \<in># live s" using held_in_live [OF that(1), of t2] by simp
        note mine = that(3)
        obtain k3 where "pt_piece t2 = file_piece td f k3" "0 \<le> k3"
          by (rule live_piece [OF inv(2) l2]) (use mine in \<open>simp_all add: task_args_def\<close>)
        moreover have "good_chunk td c (pindex (pt_piece t2))" using inv(2) v that by (auto simp: sess_inv_def)
        ultimately show ?thesis using keep by simp
      qed
      ultimately show ?thesis
        using inv(2) same p(2) c'(1,2) by (intro exI [of _ c']) (auto simp: sess_inv_def)
    qed
  qed
qed

lemma sess_book:
  assumes inv: "fur_inv s" "sess_inv i td f s c D"
    and st: "u < main_thread s" "wpc s u = W_Processed task pk" "worker_book u task pk s = Ret s'"
  shows "\<exists>D'. sess_inv i td f s' c D'"
proof -
  have lv: "task_args task \<in># live s" using held_in_live [OF st(1), of task] st(2) by simp
  with inv(1) obtain tor where tor: "torrents s (pt_tid task) = Some tor"
    by (rule fur_inv_task) (simp add: task_args_def)
  from worker_book_live [OF st tor] obtain tor' n where b: "live s' + {#task_args task#} = live s" "disk_fs s' = disk_fs s"
      "atomic_add_peer_score pk tor = Ret tor'" "n = pieces_processed tor' + 1"
      "torrents s' = (torrents s)(pt_tid task \<mapsto> tor'\<lparr>pieces_processed := n\<rparr>)"
      "wpc s' = (wpc s)(u := W_Counted (pt_tid task) n)" "main_thread s' = main_thread s" by blast
  note sc = acc_ok_score(2) [OF b(3)] and wpcs = b(6) and main = b(7)
  have po: "pieces_of i (live s) = pieces_of i (live s') + (if pt_tid task = i then {#pt_piece task#} else {#})"
    unfolding b(1) [symmetric] by (simp add: pieces_of_def task_args_def)
  have iso: "isolated i (file_name td f) (live s')"
    using inv(2) unfolding sess_inv_def isolated_def b(1) [symmetric] by auto
  have proc: "\<forall>v < main_thread s'. \<forall>t2 k2. wpc s' v = W_Processed t2 k2 \<and> pt_tid t2 = i \<longrightarrow> good_chunk td c (pindex (pt_piece t2))"
    using inv(2) main wpcs by (auto simp: sess_inv_def)
  show ?thesis
  proof (cases "pt_tid task = i")
    case True
    have "good_chunk td c (pindex (pt_piece task))" using inv(2) st(1,2) True by (auto simp: sess_inv_def)
    then show ?thesis
      using inv(2) True po iso proc b(2,4,5) tor sc
      by (intro exI [of _ "D + {#pt_piece task#}"]) (auto simp: sess_inv_def)
  next
    case False
    then show ?thesis
      using inv(2) po iso proc b(2,5) by (intro exI [of _ D]) (auto simp: sess_inv_def)
  qed
qed

lemma pieces_of_mono: "M \<subseteq># N \<Longrightarrow> pieces_of i M \<subseteq># pieces_of i N"
  unfolding pieces_of_def by (intro image_mset_subseteq_mono multiset_filter_mono)

text \<open>Steps that only replace entries of the table, and keep descriptors and counters.\<close>

lemma sess_inv_state:
  assumes "sess_inv i td f s c D" "live s' = live s" "disk_fs s' = disk_fs s" "main_thread s' = main_thread s"
    "\<And>t. torrents s i = Some t \<Longrightarrow>
       \<exists>t'. torrents s' i = Some t' \<and> descriptor t' = descriptor t \<and> pieces_processed t' = pieces_processed t"
    "\<And>u task k. u < main_thread s \<Longrightarrow> wpc s' u = W_Processed task k \<Longrightarrow> wpc s u = W_Processed task k"
  shows "sess_inv i td f s' c D"
  using assms unfolding sess_inv_def by (auto 0 3)

lemma sess_finish:
  assumes inv: "fur_inv s" "sess_inv i td f s c D" and u: "u < main_thread s" "wpc s u = W_Counted j n"
  shows "sess_inv i td f (worker_finish u j n s) c D"
proof -
  have "counted (wpc s u) = Some (j, n)" using u(2) by simp
  with inv(1) u(1) obtain tor where "torrents s j = Some tor" by (rule fur_inv_counted)
  note f = worker_finish_live [OF u this]
  show ?thesis by (rule sess_inv_state [OF inv(2)]) (use f \<open>torrents s j = Some tor\<close> in \<open>auto split: if_splits\<close>)
qed

lemma sess_remove:
  assumes "sess_inv i td f s c D"
  shows "sess_inv i td f (remove_tasks j s) c D" "sess_inv i td f (remove_load j s) c D" "sess_inv i td f (remove_store j s) c D"
proof -
  have "pieces_of i (live (remove_tasks j s)) + D \<subseteq># pieces_of i (live s) + D"
    by (intro subset_mset.add_right_mono pieces_of_mono remove_tasks_sub)
  also have "\<dots> \<subseteq># file_pieces td f" using assms by (simp add: sess_inv_def)
  finally have "pieces_of i (live (remove_tasks j s)) + D \<subseteq># file_pieces td f" .
  moreover have "isolated i n (live (remove_tasks j s))" if "isolated i n (live s)" for n
    using that mset_subset_eqD [OF remove_tasks_sub] by (fastforce simp: isolated_def)
  ultimately show "sess_inv i td f (remove_tasks j s) c D"
    using assms by (auto simp: sess_inv_def remove_tasks_simps)
  show "sess_inv i td f (remove_load j s) c D" "sess_inv i td f (remove_store j s) c D"
    by (rule torrent_at_cases [of s j];
        rule sess_inv_state [OF assms]; auto simp: remove_load_def remove_store_def live_def split: if_splits)+
qed

lemma set_download_folder_disk:
  "set_download_folder d s = (r, s') \<Longrightarrow> file_at (disk_fs s') = file_at (disk_fs s)"
proof -
  assume "set_download_folder d s = (r, s')"
  then have "disk_fs s' = disk_fs s \<or> disk_fs s' = snd (create_directories d False (disk_fs s))"
    by (auto simp: set_download_folder_def bind_eff_def on_disk_def exists_path_def split_beta Let_def
        split: outcome.splits Result.splits prod.splits if_splits)
  then show "file_at (disk_fs s') = file_at (disk_fs s)" by (auto simp: create_directories_file_at)
qed

text \<open>
  Adding another torrent, under the assumption that it neither changes the file nor has tasks that
  will write to it. A torrent that reuses the folder of another one, which the code does after ten
  copies, can do both.
\<close>

definition undisturbed :: "TorrentID \<Rightarrow> string \<Rightarrow> Furrent \<Rightarrow> Furrent \<Rightarrow> bool" where
  "undisturbed i name s s' \<longleftrightarrow>
     file_at (disk_fs s') (to_path name) = file_at (disk_fs s) (to_path name) \<and> isolated i name (live s')"

lemma add_torrent_tasks:
  assumes "add_torrent get past fp s = (Ret r, s')"
  obtains M where "live s' = live s + M" "\<forall>x \<in># M. fst x = next_uid s" "wpc s' = wpc s" "main_thread s' = main_thread s"
    "\<forall>j. j \<noteq> next_uid s \<longrightarrow> torrents s' j = torrents s j"
  using assms
proof (cases rule: add_torrent_Ret)
  case (failed e fs)
  then show thesis by (intro that [of "{#}"]) (auto simp: live_def main_thread_def)
next
  case (loaded td fs)
  from loaded(2) show thesis
  proof (cases rule: start_torrent_Ret)
    case (no_peers t)
    then show thesis by (intro that [of "{#}"]) (auto simp: live_def main_thread_def)
  next
    case (started t ps q)
    have "live s' = live s + image_mset (\<lambda>p. (next_uid s, p, descriptor t)) (mset ps)"
      using started(5,6) by (simp add: live_def queued_def image_mset.compositionality comp_def ac_simps)
    then show thesis using started(6) by (intro that) (auto simp: main_thread_def)
  qed
qed

lemma sess_add:
  assumes inv: "fur_inv s" "sess_inv i td f s c D" and td: "one_file td f"
    and add: "add_torrent get past fp s = (Ret r, s')" and un: "undisturbed i (file_name td f) s s'"
  shows "sess_inv i td f s' c D"
proof -
  obtain M where M: "live s' = live s + M" "\<forall>x \<in># M. fst x = next_uid s" "wpc s' = wpc s" "main_thread s' = main_thread s"
    "\<forall>j. j \<noteq> next_uid s \<longrightarrow> torrents s' j = torrents s j" by (rule add_torrent_tasks [OF add])
  obtain t where t: "torrents s i = Some t" "descriptor t = td" using inv(2) by (auto simp: sess_inv_def)
  have "t \<noteq> Torrent_empty" using t(2) td by (auto simp: one_file_def Torrent_empty_def empty_TorrentFile_def)
  then have new: "i \<noteq> next_uid s" using inv(1) t(1) by (auto simp: fur_inv_def)
  then have "pieces_of i (live s') = pieces_of i (live s)" using M(1,2) by (simp add: pieces_of_def filter_mset_eq_conv)
  with inv(2) M(3-5) un new show ?thesis by (simp add: sess_inv_def undisturbed_def)
qed

lemma sess_step:
  assumes inv: "fur_inv s" "sess_inv i td f s c D" and td: "one_file td f"
    and "fur_step A get past ev s s'" "ev = Add \<longrightarrow> undisturbed i (file_name td f) s s'"
  shows "\<exists>c' D'. sess_inv i td f s' c' D'"
  using assms(4)
proof (cases rule: fur_step.cases)
  case (loop t)
  then have "sess_inv i td f s' c D"
    using worker_loop_live [of t s]
    by (intro sess_inv_same [OF inv(2)]) (auto simp: worker_loop_def split: if_splits prod.splits Result.splits)
  then show ?thesis by blast
next
  case (wait t)
  then have "sess_inv i td f s' c D"
    using worker_wait_live [of t s] by (intro sess_inv_same [OF inv(2)]) (auto simp: worker_wait_def split: if_splits)
  then show ?thesis by blast
next
  case (lookup t task)
  have "task_args task \<in># live s" using held_in_live [OF lookup(2), of task] lookup(3) by simp
  with inv(1) obtain tor where tor: "torrents s (pt_tid task) = Some tor" "descriptor tor = pt_descriptor task"
    by (rule fur_inv_task) (simp add: task_args_def)
  have "main_thread s' = main_thread s" "\<And>v t2 k2. wpc s' v = W_Processed t2 k2 \<Longrightarrow> wpc s v = W_Processed t2 k2"
    using lookup(5) tor(1) by (auto simp: worker_lookup_def torrent_at_known split: if_splits)
  then have "sess_inv i td f s' c D"
    using worker_lookup_live [OF lookup(2,3,5) tor] by (intro sess_inv_same [OF inv(2)]) auto
  then show ?thesis by blast
next
  case (attempt t task ps ws k w)
  from sess_attempt [OF inv td attempt(2,3,5)] show ?thesis by blast
next
  case (book t task k)
  from sess_book [OF inv book(2-4)] show ?thesis by blast
next
  case (queue e q)
  then have "sess_inv i td f s' c D"
    using queue_step_work [of e "tasks s" q] by (intro sess_inv_same [OF inv(2)]) (auto simp: live_def queued_def)
  then show ?thesis by blast
next
  case (spurious q)
  then have "sess_inv i td f s' c D"
    using queue_step_work [of SpuriousWake "tasks s" q] by (intro sess_inv_same [OF inv(2)]) (auto simp: live_def queued_def)
  then show ?thesis by blast
next
  case (finish t j n)
  then show ?thesis using sess_finish [OF inv finish(3,4)] by blast
next
  case (remove j)
  then show ?thesis using sess_remove(1) [OF inv(2)] by blast
next
  case (remove_read j)
  then show ?thesis using sess_remove(2) [OF inv(2)] by blast
next
  case (remove_write j)
  then show ?thesis using sess_remove(3) [OF inv(2)] by blast
next
  case (folder d r)
  then have "sess_inv i td f s' c D"
    using set_download_folder_frame [of d s "Ret r" s'] set_download_folder_disk [of d s "Ret r" s']
    by (intro sess_inv_same [OF inv(2)]) auto
  then show ?thesis by blast
next
  case shutdown
  then have "sess_inv i td f s' c D" by (intro sess_inv_same [OF inv(2)]) (auto simp: shutdown_frame)
  then show ?thesis by blast
next
  case signal
  then have "sess_inv i td f s' c D" by (intro sess_inv_same [OF inv(2)]) (auto simp: shutdown_frame)
  then show ?thesis by blast
next
  case join
  then have "sess_inv i td f s' c D"
    using shutdown_join_frame [OF join(3)] by (intro sess_inv_same [OF inv(2)]) auto
  then show ?thesis by blast
next
  case (add fp r)
  with sess_add [OF inv td add(4)] assms(5) show ?thesis by blast
qed

text \<open>The states of a run in which further torrents may be added, as long as they leave the file alone.\<close>

inductive session :: "'w asio \<Rightarrow> http \<Rightarrow> int option \<Rightarrow> TorrentID \<Rightarrow> string \<Rightarrow> Furrent \<Rightarrow> Furrent \<Rightarrow> bool"
  for A get past i name s0 where
  start: "session A get past i name s0 s0"
| step: "session A get past i name s0 s \<Longrightarrow> fur_step A get past ev s s' \<Longrightarrow> (ev = Add \<longrightarrow> undisturbed i name s s') \<Longrightarrow>
    session A get past i name s0 s'"

lemma session_reach: "fur_reach A get past s0 \<Longrightarrow> session A get past i name s0 s \<Longrightarrow> fur_reach A get past s"
  by (rotate_tac 1, induction rule: session.induct) (auto intro: fur_reach.step)

lemma session_inv:
  assumes "session A get past i (file_name td f) s0 s" "fur_inv s0" "sess_inv i td f s0 c0 D0" "one_file td f"
  shows "fur_inv s \<and> (\<exists>c D. sess_inv i td f s c D)"
  using assms(1)
proof (induction rule: session.induct)
  case start
  then show ?case using assms by blast
next
  case (step s ev s')
  then show ?case using fur_inv_step [OF _ step.hyps(2)] sess_step [OF _ _ assms(4) step.hyps(2,3)] by blast
qed

section \<open>From adding a torrent to its completion\<close>

text \<open>A torrent that has been loaded has its files on the disk.\<close>

lemma load_torrent_prepare:
  assumes "load_torrent file s = (Ret (OK td), s2)"
  obtains td0 where "prepare_torrent_files (download_folder s) td0 (disk_fs s) = (Ret (True, td), disk_fs s2)"
proof -
  from assms obtain content s1 where r: "on_disk (load_file_text file) s = (Ret (OK content), s1)"
      "bind_eff (lift_outcome (decode content)) (\<lambda>btree. case btree of ERROR e \<Rightarrow> ret (ERROR LoadingTorrentFailed)
         | OK tree \<Rightarrow> bind_eff (lift_outcome (TorrentFile_of tree)) (\<lambda>td.
             bind_eff (\<lambda>s. on_disk (prepare_torrent_files (download_folder s) td) s) (\<lambda>(prepared, td').
               ret (if prepared then OK td' else ERROR LoadingTorrentFailed)))) s1 = (Ret (OK td), s2)"
    unfolding load_torrent_def by (rule bind_eff_Ret) (auto split: Result.splits)
  have "s1 = s" using r(1) by (auto simp: on_disk_def load_file_text_def split: prod.splits if_splits option.splits node.splits)
  with r(2) obtain td0 where "on_disk (prepare_torrent_files (download_folder s) td0) s = (Ret (True, td), s2)"
    by (auto elim!: bind_eff_Ret split: Result.splits if_splits)
  then have "prepare_torrent_files (download_folder s) td0 (disk_fs s) = (Ret (True, td), disk_fs s2)"
    by (auto simp: on_disk_def split: prod.splits)
  then show thesis by (rule that)
qed

lemma load_torrent_files:
  assumes "load_torrent file s = (Ret (OK td), s2)" "f \<in> set (files td)" "plain_file f"
  shows "\<exists>c. file_at (disk_fs s2) (to_path (file_name td f)) = Some c \<and> int (length c) = flength f"
proof -
  from load_torrent_prepare [OF assms(1)] obtain td0 where
    "prepare_torrent_files (download_folder s) td0 (disk_fs s) = (Ret (True, td), disk_fs s2)" .
  then obtain dir fs1 where "td = td0\<lparr>folder_name := dir\<rparr>" "create_files dir (files td0) fs1 = (Ret True, disk_fs s2)"
    by (rule prepare_True)
  with create_files_True [of dir "files td0" fs1 "disk_fs s2" f] assms(2,3) show ?thesis by (simp add: file_name_def)
qed

lemma add_torrent_OK:
  assumes "add_torrent get past file s = (Ret (OK i), s0)"
  obtains td s2 where "i = next_uid s" "load_torrent file (s\<lparr>next_uid := next_uid s + 1\<rparr>) = (Ret (OK td), s2)"
    "start_torrent get past i td s2 = (Ret (OK i), s0)"
  using assms
proof (cases rule: add_torrent_Ret)
  case (loaded td fs)
  moreover from loaded(2) have "i = next_uid s" by (cases rule: start_torrent_Ret) auto
  ultimately show thesis using that by simp
qed simp

lemma add_torrent_sess:
  assumes inv: "fur_inv s" and add: "add_torrent get past file s = (Ret (OK i), s0)"
    and t: "torrents s0 i = Some t" "descriptor t = td" and td: "one_file td f"
    and iso: "isolated i (file_name td f) (live s)"
  shows "\<exists>c. sess_inv i td f s0 c {#}"
proof -
  from add obtain td1 s2 where a: "i = next_uid s" "load_torrent file (s\<lparr>next_uid := next_uid s + 1\<rparr>) = (Ret (OK td1), s2)"
    "start_torrent get past i td1 s2 = (Ret (OK i), s0)" by (rule add_torrent_OK)
  obtain fs where s2: "s2 = s\<lparr>next_uid := next_uid s + 1, disk_fs := fs\<rparr>" using load_torrent_frame [OF a(2)] by auto
  have inv2: "fur_inv s2" using inv by (rule fur_inv_same) (simp_all add: s2 live_def main_thread_def removing_def)
  have new: "torrents s i = None \<or> torrents s i = Some Torrent_empty" using inv a(1) by (simp add: fur_inv_def)
  have lv2: "live s2 = live s" by (simp add: s2 live_def)
  from a(3) show ?thesis
  proof (cases rule: start_torrent_Ret)
    case (started t1 ps q)
    from started(1,2) new have "Torrent_of get i td1 = Ret t1" by (auto simp: s2 Torrent_empty_def)
    note t1 = Torrent_of_fields [OF this]
    have td1: "td1 = td" using t started(6) t1 by auto
    have ps: "ps = map (file_piece td f) [0..pieces_count td - 1]"
      using single_file_pieces [of t1 f past] started(3) td t1 td1 by (simp add: one_file_def)
    have z: "\<forall>x \<in># live s. fst x \<noteq> i"
      using fur_inv_unknown [OF inv new] by (simp add: live_count_0)
    have lv: "live s0 = live s + image_mset (\<lambda>p. (i, p, td)) (mset ps)"
      using started(5,6) t1 td1 lv2 by (simp add: live_def queued_def image_mset.compositionality comp_def ac_simps)
    have "pieces_of i (live s) = {#}"
      using z by (simp add: pieces_of_def flip: set_mset_eq_empty_iff)
    moreover have "pieces_of i (image_mset (\<lambda>p. (i, p, td)) M) = M" for M
      by (induction M) (simp_all add: pieces_of_def)
    ultimately have "pieces_of i (live s0) = file_pieces td f"
      unfolding lv by (simp add: pieces_of_def file_pieces_def ps)
    moreover obtain c where "file_at (disk_fs s0) (to_path (file_name td f)) = Some c" "int (length c) = tlength td"
    proof -
      have "f \<in> set (files td1)" "plain_file f" "tlength td = flength f"
        using td td1 by (simp_all add: one_file_def partition_ok_def)
      from load_torrent_files [OF a(2) this(1,2)] this(3) that td1 started(6) show thesis by auto
    qed
    moreover have "isolated i (file_name td f) (live s0)" using iso unfolding lv by (auto simp: isolated_def)
    moreover have "\<not> (wpc s0 u = W_Processed task k \<and> pt_tid task = i)" if "u < main_thread s0" for u task k
    proof
      assume w: "wpc s0 u = W_Processed task k \<and> pt_tid task = i"
      have "u < main_thread s2" "wpc s2 u = W_Processed task k" using that w started(6) by simp_all
      then have "task_args task \<in># live s" using held_in_live [of u s2 task] lv2 by simp
      with z w show False by (auto simp: task_args_def)
    qed
    ultimately show ?thesis
      using t t1 started(6) by (intro exI [of _ c]) (auto simp: sess_inv_def)
  qed simp
qed

end
