(* ===== verification/Demo_Run.thy ===== *)
theory Demo_Run
  imports Session
begin

text \<open>
  A run of the whole client: with one worker it loads a torrent of one piece from its disk, asks
  the tracker, and the worker downloads the piece from a scripted peer. The properties of the
  client are applied to its states.
\<close>

section \<open>The torrent, the disk and the tracker\<close>

definition demo_desc :: TorrentFile where
  "demo_desc = \<lparr>announce_url = ''http://t'', info_hash = [], piece_hashes = [sha1 [1, 2, 3]], piece_length = 4,
     tlength = 3, pieces_count = 1, tname = ''t'', folder_name = '''', files = [\<lparr>filepath = [''b''], flength = 3\<rparr>]\<rparr>"

definition disk_with :: "bytes \<Rightarrow> FS" where
  "disk_with b = \<lparr>nodes = [[''t.torrent''] \<mapsto> Regular b], denied = {}\<rparr>"

definition demo_disk :: FS where
  "demo_disk = disk_with (map byte_of_char (encode (torrent_tree demo_desc)))"

definition demo_address :: Peer where
  "demo_address = \<lparr>ip = 0x01020304, port = 0x1AE1\<rparr>"

definition demo_tracker :: http where
  "demo_tracker = (\<lambda>url params. (200, encode (tracker_reply 60 [demo_address])))"

definition demo_hash :: bytes where
  "demo_hash = sha1 (map byte_of_char (encode (info_tree demo_desc)))"

definition demo_loaded :: TorrentFile where
  "demo_loaded = demo_desc\<lparr>info_hash := demo_hash, folder_name := ''./t''\<rparr>"

definition demo_torrent :: Torrent where
  "demo_torrent = \<lparr>tid = 0, descriptor = demo_loaded, peers = [demo_address], peers_score = [1], update_interval = 60,
     tstate = Loading, pieces_processed = 0\<rparr>"

lemma demo_desc_sane:
  "sane_desc demo_desc" "length (encode (info_tree demo_desc)) < 2 ^ 29" "length (announce_url demo_desc) < 2 ^ 29"
proof -
  show "sane_desc demo_desc" by (simp add: sane_desc_def demo_desc_def int64_max_def length_sha1)
  have "length (encode (info_tree demo_desc)) \<le> 200"
    by (simp add: info_tree_def file_tree_def demo_desc_def encode_def hash_to_str_def length_sha1 int_to_string_def
        nat_to_string_step nat_to_string_small)
  then show "length (encode (info_tree demo_desc)) < 2 ^ 29" by simp
  show "length (announce_url demo_desc) < 2 ^ 29" by (simp add: demo_desc_def)
qed

lemma demo_announce: "Torrent_of demo_tracker 0 demo_loaded = Ret demo_torrent"
proof -
  have "parse_tracker_response (encode (tracker_reply 60 [demo_address])) = Ret (OK \<lparr>interval = 60, apeers = [demo_address]\<rparr>)"
    by code_simp
  then show ?thesis
    by (simp add: Torrent_of_def torrent_announce_def peer_announce_def demo_tracker_def demo_torrent_def int64_max_def)
qed

lemma demo_load_text: "load_file_text ''t.torrent'' demo_disk = (Ret (OK (encode (torrent_tree demo_desc))), demo_disk)"
proof -
  have "to_path ''t.torrent'' = [''t.torrent'']" by code_simp
  then show ?thesis by (simp add: load_file_text_def demo_disk_def disk_with_def node_at_def comp_def)
qed

lemma demo_prepare:
  "\<exists>fs. prepare_torrent_files ''.'' (demo_desc\<lparr>info_hash := demo_hash\<rparr>) demo_disk = (Ret (True, demo_loaded), fs)"
proof -
  let ?td = "\<lambda>u h ph d. \<lparr>announce_url = u, info_hash = h, piece_hashes = ph, piece_length = 4, tlength = 3, pieces_count = 1,
     tname = ''t'', folder_name = d, files = [\<lparr>filepath = [''b''], flength = 3\<rparr>]\<rparr>"
  have "fst (prepare_torrent_files ''.'' (?td u h ph '''') (disk_with b)) = Ret (True, ?td u h ph ''./t'')" for u h ph b
    by code_simp
  then show ?thesis
    unfolding demo_disk_def demo_loaded_def demo_desc_def
    by (intro exI [of _ "snd (prepare_torrent_files _ _ _)"]) (simp add: prod_eq_iff)
qed

abbreviation demo_start :: Furrent where
  "demo_start \<equiv> Furrent_init 2 demo_disk"

abbreviation demo_file :: File where
  "demo_file \<equiv> \<lparr>filepath = [''b''], flength = 3\<rparr>"

abbreviation demo_job :: PieceTask where
  "demo_job \<equiv> PieceTask_of (0, file_piece demo_loaded demo_file 0, demo_loaded)"

lemma demo_one_file: "one_file demo_loaded demo_file"
proof -
  have "plain_file demo_file" by code_simp
  then show ?thesis
    by (simp add: one_file_def partition_ok_def layout_ok_def demo_loaded_def demo_desc_def int64_max_def)
qed

lemma demo_load:
  "\<exists>fs. load_torrent ''t.torrent'' (demo_start\<lparr>next_uid := 1\<rparr>) =
     (Ret (OK demo_loaded), demo_start\<lparr>next_uid := 1, disk_fs := fs\<rparr>)"
proof -
  obtain fs where p: "prepare_torrent_files ''.'' (demo_desc\<lparr>info_hash := demo_hash\<rparr>) demo_disk = (Ret (True, demo_loaded), fs)"
    using demo_prepare by blast
  have "load_torrent ''t.torrent'' (demo_start\<lparr>next_uid := 1\<rparr>) =
     (Ret (OK demo_loaded), demo_start\<lparr>next_uid := 1, disk_fs := fs\<rparr>)"
    unfolding load_torrent_def
    by (simp add: bind_eff_def on_disk_def demo_load_text decode_torrent_tree [OF demo_desc_sane]
        TorrentFile_of_torrent_tree [OF demo_desc_sane(1,2)] demo_hash_def [symmetric] p Furrent_init_def)
  then show ?thesis by blast
qed

text \<open>After \<open>add_torrent\<close>: one task in the queue, nobody in a queue operation, the file on the disk.\<close>

lemma demo_added:
  obtains s0 c where "add_torrent demo_tracker None ''t.torrent'' demo_start = (Ret (OK 0), s0)"
    "torrents s0 = [0 \<mapsto> demo_torrent\<lparr>tstate := Downloading\<rparr>]" "work (tasks s0) = [demo_job]"
    "pcs (tasks s0) = (\<lambda>_. Idle)" "wpc s0 = (\<lambda>_. W_Loop)" "workers s0 = workers demo_start" "mpc s0 = M_Idle"
    "file_at (disk_fs s0) (to_path (file_name demo_loaded demo_file)) = Some c" "length c = 3"
proof -
  obtain fs where l: "load_torrent ''t.torrent'' (demo_start\<lparr>next_uid := 1\<rparr>) =
     (Ret (OK demo_loaded), demo_start\<lparr>next_uid := 1, disk_fs := fs\<rparr>)" using demo_load by blast
  let ?s2 = "demo_start\<lparr>next_uid := 1, disk_fs := fs\<rparr>"
  have ps: "pieces None demo_torrent = Ret [file_piece demo_loaded demo_file 0]"
    using single_file_pieces [of demo_torrent demo_file None] demo_one_file
    by (simp add: one_file_def demo_torrent_def) (simp add: demo_loaded_def demo_desc_def)
  define q where "q = notify_new_work 1 (at 1 NotifyNewWork (SharedQueue_init\<lparr>work := [demo_job]\<rparr>))"
  have em: "emplace_all 1 0 demo_loaded [file_piece demo_loaded demo_file 0] SharedQueue_init = Ret q"
    by (simp add: emplace_task_def shared_emplace_def queue_emplace_def SharedQueue_init_def q_def int64_max_def)
  have n: "main_thread demo_start = 1" by (simp add: main_thread_def Furrent_init_def threads_cnt_def launch_def launch_size_def ThreadGroup_init_def Let_def)
  let ?s0 = "(set_torrent 0 (demo_torrent\<lparr>tstate := Downloading\<rparr>) ?s2)\<lparr>tasks := notify_new_work 1 (force_wakeup 1 q)\<rparr>"
  have st: "start_torrent demo_tracker None 0 demo_loaded ?s2 = (Ret (OK 0), ?s0)"
  proof -
    have "peers demo_torrent = [demo_address]" "descriptor demo_torrent = demo_loaded" by (simp_all add: demo_torrent_def)
    moreover have "torrents ?s2 0 = None" "tasks ?s2 = SharedQueue_init" by (simp_all add: Furrent_init_def)
    ultimately show ?thesis
      by (simp add: start_torrent_def demo_announce ps em n bind_eff_def set_torrent_def
          del: emplace_all.simps One_nat_def)
  qed
  have add: "add_torrent demo_tracker None ''t.torrent'' demo_start = (Ret (OK 0), ?s0)"
  proof -
    have "next_uid demo_start = 0" by (simp add: Furrent_init_def)
    then show ?thesis by (simp add: add_torrent_def Let_def arith64 int64_max_def int64_min_def bind_eff_def l st)
  qed
  have "demo_file \<in> set (files demo_loaded)" "plain_file demo_file" using demo_one_file by (simp_all add: one_file_def)
  from load_torrent_files [OF l this] obtain c where
    "file_at (disk_fs ?s2) (to_path (file_name demo_loaded demo_file)) = Some c" "length c = 3" by auto
  moreover have "pcs (notify_new_work 1 (force_wakeup 1 q)) u = Idle" for u
    by (simp add: q_def notify_new_work_def force_wakeup_def at_def SharedQueue_init_def)
  then have "pcs (notify_new_work 1 (force_wakeup 1 q)) = (\<lambda>_. Idle)" by blast
  moreover have "work q = [demo_job]" by (simp add: q_def)
  moreover have "torrents demo_start = Map.empty" "wpc demo_start = (\<lambda>_. W_Loop)" "mpc demo_start = M_Idle" by (simp_all add: Furrent_init_def)
  ultimately show thesis using add by (intro that [of ?s0 c]) simp_all
qed

definition demo_bytes :: bytes where
  "demo_bytes = (replicate 28 0 @ demo_hash @ replicate 20 0) @ wire (BitfieldMessage demo_bf # UnchokeMessage # demo_ms)"

text \<open>The attempt on the scripted peer is completed, and the piece is in the file.\<close>

lemma demo_process:
  assumes "file_at fs (to_path (file_name demo_loaded demo_file)) = Some c" "length c = 3"
  obtains task' fs' where
    "task_process script_asio (script_of demo_bytes) demo_address demo_job fs = Some (Ret \<lparr>completed = True\<rparr>, task', fs')"
    "task_args task' = task_args demo_job"
proof -
  let ?p = "file_piece demo_loaded demo_file 0" and ?dl = "\<lparr>dindex = 0, dcontent = [1, 2, 3]\<rparr>"
  have hash: "length demo_hash = 20" by (simp add: demo_hash_def length_sha1)
  have g: "greets demo_loaded (replicate 28 0 @ demo_hash @ replicate 20 0)"
    using hash by (simp add: greets_def demo_loaded_def HANDSHAKE_LENGTH_def INFO_HASH_OFFSET_def)
  have "piece_content demo_loaded (pindex ?p) [1, 2, 3]"
    by (simp add: piece_content_def demo_loaded_def demo_desc_def expected_length_def arith64 int64_min_def int64_max_def)
  moreover have "fits_u32 (pindex ?p)" by (simp add: fits_u32_def)
  moreover have "honest demo_loaded (pindex ?p) [1, 2, 3] (replicate 28 0 @ demo_hash @ replicate 20 0) demo_bf demo_ms"
    using g demo_greets(3)
    by (simp add: honest_def demo_ms_def pieces_in_def fits_u32_def blocks_total_eq BLOCK_SIZE_def int64_max_def)
      (simp add: demo_bf_def demo_loaded_def demo_desc_def)
  ultimately obtain d where "try_download script_asio ?p (Downloader_of demo_loaded demo_address (script_of demo_bytes)) =
      Some (Ret (OK ?dl), d)"
    using honest_download [of demo_loaded ?p "[1, 2, 3]"] unfolding demo_bytes_def by force
  then have dn: "task_download script_asio (script_of demo_bytes) demo_address demo_job = Some (Ret True, demo_job\<lparr>pt_data := Some ?dl\<rparr>)"
    by (simp add: task_download_def keep_download_def PieceTask_of_def)
  have "save_path demo_loaded (hd (subpieces ?p)) = file_name demo_loaded demo_file"
    by (simp add: save_path_def file_name_def)
  then obtain fs' where "task_save (demo_job\<lparr>pt_data := Some ?dl\<rparr>) fs = (Ret True, fs')"
    using write_bytes_Regular [OF assms(1), of 0 "[1, 2, 3]"]
    by (simp add: task_save_def PieceTask_of_def bind_eff_def int64_max_def)
  with dn show thesis by (intro that [of "demo_job\<lparr>pt_data := Some ?dl\<rparr>" fs']) (simp_all add: task_process_def task_args_def)
qed

text \<open>An attempt on a peer that sends nothing fails and changes nothing.\<close>

lemma demo_silent:
  "task_process script_asio (script_of []) demo_address demo_job fs = Some (Ret \<lparr>completed = False\<rparr>, demo_job, fs)"
proof -
  let ?d = "Downloader_of demo_loaded demo_address (script_of [])"
  let ?d1 = "?d\<lparr>has_socket := True, choked := True, world := (script_of [])\<lparr>opened := True, ec := Some no_error\<rparr>\<rparr>"
  have read: "socket_read script_asio HANDSHAKE_LENGTH t w = (Ret (ERROR Other), w\<lparr>ec := Some other_error\<rparr>)"
    if "incoming w = []" for t w
    using that by (simp add: socket_read_def Let_def HANDSHAKE_LENGTH_def)
      (simp add: script_asio_def handler_ec_def ec_result_def)
  have "\<exists>w. handshake script_asio ?d1 = (Ret (ERROR SocketOther), ?d1\<lparr>has_socket := False, world := w\<rparr>)"
  proof -
    let ?w = "(world ?d1)\<lparr>outgoing := outgoing (world ?d1) @ [handshake_message demo_loaded], ec := Some no_error\<rparr>"
    have "incoming ?w = []" by (simp add: script_of_def)
    moreover have "has_socket (?d1\<lparr>world := ?w\<lparr>ec := Some other_error\<rparr>\<rparr>)" by simp
    from fail_with_has [OF this, of script_asio SocketOther] show ?thesis
      by (simp add: handshake_def bind_eff_def Downloader_of_def script_write read script_of_def from_socket_error_def)
  qed
  then obtain d' where "open_connection script_asio ?d = (Ret (ERROR SocketOther), d')"
    by (auto simp: open_connection_def bind_eff_def Downloader_of_def script_of_def)
  moreover have "\<not> has_socket ?d" "pieces_count (dl_torrent ?d) = 1"
    by (simp_all add: Downloader_of_def demo_loaded_def demo_desc_def)
  ultimately have "try_download script_asio (file_piece demo_loaded demo_file 0) ?d = Some (Ret (ERROR SocketOther), d')"
    by (simp add: try_download_def ensure_connected_def)
  then show ?thesis by (simp add: task_process_def task_download_def keep_download_def PieceTask_of_def)
qed

section \<open>The run\<close>

lemma demo_workers:
  "main_thread demo_start = 1" "Runner_alive (workers demo_start)" "states (workers demo_start) = [0]"
  "threads (workers demo_start) = [(0, Running)]"
  by (simp_all add: main_thread_def Furrent_init_def threads_cnt_def launch_def launch_size_def
      ThreadGroup_init_def Let_def Runner_alive_def resize_def)

text \<open>The worker has taken the task and is about to try the peer.\<close>

lemma demo_retry:
  obtains s0 s3 c where "add_torrent demo_tracker None ''t.torrent'' demo_start = (Ret (OK 0), s0)"
    "fur_reach script_asio demo_tracker None s0" "session script_asio demo_tracker None 0 (file_name demo_loaded demo_file) s0 s3"
    "torrents s0 = [0 \<mapsto> demo_torrent\<lparr>tstate := Downloading\<rparr>]" "torrents s3 = torrents s0"
    "wpc s3 = (\<lambda>_. W_Loop)(0 := W_Retry demo_job [demo_address] [1])" "pcs (tasks s3) = (\<lambda>_. Idle)"
    "workers s3 = workers demo_start" "mpc s3 = M_Idle" "work (tasks s3) = []"
    "file_at (disk_fs s3) (to_path (file_name demo_loaded demo_file)) = Some c" "length c = 3"
proof -
  obtain s0 c where s0: "add_torrent demo_tracker None ''t.torrent'' demo_start = (Ret (OK 0), s0)"
    "torrents s0 = [0 \<mapsto> demo_torrent\<lparr>tstate := Downloading\<rparr>]" "work (tasks s0) = [demo_job]"
    "pcs (tasks s0) = (\<lambda>_. Idle)" "wpc s0 = (\<lambda>_. W_Loop)" "workers s0 = workers demo_start" "mpc s0 = M_Idle"
    "file_at (disk_fs s0) (to_path (file_name demo_loaded demo_file)) = Some c" "length c = 3" by (rule demo_added)
  have w: "main_thread s0 = 1" "Runner_alive (workers s0)" using demo_workers s0(6) by (simp_all add: main_thread_def)
  have "fur_step script_asio demo_tracker None Add demo_start s0"
    by (rule fur_step.add [OF _ _ s0(1)]) (simp_all add: main_ready_def unlocked_def Furrent_init_def SharedQueue_init_def)
  then have r0: "fur_reach script_asio demo_tracker None s0" by (rule fur_reach.step [OF fur_reach.init])
  define q1 where "q1 = at 0 NotifyDispatched ((tasks s0)\<lparr>work := []\<rparr>)"
  have "try_extract LIFOPolicy_extract 0 (tasks s0) = (OK demo_job, q1)"
    by (simp add: try_extract_def queue_extract_def LIFOPolicy_extract_def s0(3) queue_size_def q1_def)
  then have l: "worker_loop 0 s0 = set_wpc 0 (W_Got demo_job) (s0\<lparr>tasks := q1\<rparr>)" (is "_ = ?s1")
    using w(2) by (simp add: worker_loop_def)
  have "fur_step script_asio demo_tracker None Work s0 ?s1"
    unfolding l [symmetric] by (rule fur_step.loop) (simp_all add: w s0(4,5))
  then have r1: "session script_asio demo_tracker None 0 (file_name demo_loaded demo_file) s0 ?s1" by (rule session.step [OF session.start]) simp
  let ?s2 = "?s1\<lparr>tasks := notify_dispatched 0 q1\<rparr>"
  have "queue_step Notify q1 (notify_dispatched 0 q1)" by (rule queue_step.notify_disp) (simp add: q1_def)
  then have "queue_step Notify (tasks ?s1) (notify_dispatched 0 q1)" by simp
  then have "fur_step script_asio demo_tracker None Queue ?s1 ?s2" by (rule fur_step.queue) simp
  then have r2: "session script_asio demo_tracker None 0 (file_name demo_loaded demo_file) s0 ?s2" by (rule session.step [OF r1]) simp
  let ?s3 = "set_wpc 0 (W_Retry demo_job [demo_address] [1]) ?s2"
  have "worker_lookup 0 demo_job ?s2 = Ret ?s3"
    by (simp add: worker_lookup_def torrent_at_def s0(2) PieceTask_of_def demo_torrent_def distribution_def set_wpc_def)
  then have "fur_step script_asio demo_tracker None Work ?s2 ?s3"
    by (rule fur_step.lookup [rotated 3]) (simp_all add: w(1) notify_dispatched_def)
  then have r3: "session script_asio demo_tracker None 0 (file_name demo_loaded demo_file) s0 ?s3" by (rule session.step [OF r2]) simp
  have "pcs (tasks ?s3) = (\<lambda>_. Idle)" by (auto simp: notify_dispatched_def q1_def s0(4))
  moreover have "work (tasks ?s3) = []" by (simp add: notify_dispatched_def q1_def)
  ultimately show thesis using s0 r0 r3 by (intro that [of s0 ?s3 c]) simp_all
qed

lemma demo_run_completes:
  obtains s0 s5 t where "add_torrent demo_tracker None ''t.torrent'' demo_start = (Ret (OK 0), s0)"
    "fur_reach script_asio demo_tracker None s0"
    "torrents s0 0 = Some (demo_torrent\<lparr>tstate := Downloading\<rparr>)" "session script_asio demo_tracker None 0 (file_name demo_loaded demo_file) s0 s5"
    "torrents s5 0 = Some t" "tstate t = Completed" "descriptor t = demo_loaded"
proof -
  obtain s0 s3 c where s3: "add_torrent demo_tracker None ''t.torrent'' demo_start = (Ret (OK 0), s0)"
    "fur_reach script_asio demo_tracker None s0" "session script_asio demo_tracker None 0 (file_name demo_loaded demo_file) s0 s3"
    "torrents s0 = [0 \<mapsto> demo_torrent\<lparr>tstate := Downloading\<rparr>]" "torrents s3 = torrents s0"
    "wpc s3 = (\<lambda>_. W_Loop)(0 := W_Retry demo_job [demo_address] [1])" "workers s3 = workers demo_start"
    "file_at (disk_fs s3) (to_path (file_name demo_loaded demo_file)) = Some c" "length c = 3" by (rule demo_retry)
  have w: "main_thread s3 = 1" "states (workers s3) = [0]" using demo_workers s3(7) by (simp_all add: main_thread_def)
  obtain task' fs' where p: "task_process script_asio (script_of demo_bytes) demo_address demo_job (disk_fs s3) =
      Some (Ret \<lparr>completed = True\<rparr>, task', fs')" "task_args task' = task_args demo_job"
    using s3(8,9) by (metis demo_process)
  let ?s4 = "set_wpc 0 (W_Processed task' 0) (s3\<lparr>disk_fs := fs'\<rparr>)"
  have "worker_attempt script_asio (script_of demo_bytes) 0 0 demo_job [demo_address] [1] s3 = Some (Ret ?s4)"
    using p(1) by (simp add: worker_attempt_def vec_at_def)
  then have "fur_step script_asio demo_tracker None Attempt s3 ?s4"
    by (rule fur_step.attempt [rotated 3]) (simp_all add: w(1) s3(6) may_draw_def)
  then have r4: "session script_asio demo_tracker None 0 (file_name demo_loaded demo_file) s0 ?s4" by (rule session.step [OF s3(3)]) simp
  let ?t = "demo_torrent\<lparr>tstate := Downloading, peers_score := [2], pieces_processed := 1\<rparr>"
  have "pt_tid task' = 0" using p(2) by (simp add: task_args_def PieceTask_of_def)
  then obtain s5 where s5: "worker_book 0 task' 0 ?s4 = Ret s5" "torrents s5 0 = Some ?t" "wpc s5 0 = W_Counted 0 1"
      "main_thread s5 = 1"
    using w
    by (simp add: worker_book_def torrent_at_def s3(4,5) Let_def demo_torrent_def atomic_add_peer_score_def vec_at_def
        arith64 int64_max_def int64_min_def wrap64_def main_thread_def)
  then have "fur_step script_asio demo_tracker None Work ?s4 s5"
    by (intro fur_step.book [where t = 0 and task = task' and i = 0]) (simp_all add: w(1))
  then have r5: "session script_asio demo_tracker None 0 (file_name demo_loaded demo_file) s0 s5" by (rule session.step [OF r4]) simp
  let ?s6 = "worker_finish 0 0 1 s5"
  have "fur_step script_asio demo_tracker None Work s5 ?s6" by (rule fur_step.finish) (simp_all add: s5)
  then have "session script_asio demo_tracker None 0 (file_name demo_loaded demo_file) s0 ?s6" by (rule session.step [OF r5]) simp
  moreover have "torrents ?s6 0 = Some (?t\<lparr>tstate := Completed\<rparr>)"
    using worker_finish_live(2) [of 0 s5 0 1] s5 by (simp add: demo_torrent_def demo_loaded_def demo_desc_def)
  ultimately show thesis using s3(1,2,4)
    by (intro that [of s0 ?s6 "?t\<lparr>tstate := Completed\<rparr>"]) (simp_all add: demo_torrent_def)
qed

end
