(* ===== verification/Completion.thy ===== *)
theory Completion
  imports Demo_Run
begin

text \<open>
  The properties of the running client: what a completed torrent has put on the disk, and that no
  piece is lost on the way.
\<close>

text \<open>
  C1. End to end: a torrent of one file is added to a client in any reachable state. Then, in any
  run of workers, notifications, removals, changes of folder and additions of further torrents
  that leave its file alone, as every torrent with plain file names that is added successfully
  does, with any peers and any network, whenever the torrent is reported as completed its file is
  on the disk, has the length the torrent gives it, and every piece of it has the SHA-1 digest
  that the torrent lists.
\<close>

theorem completed_file_is_verified:
  assumes "fur_reach A get past s" "add_torrent get past file s = (Ret (OK i), s0)"
    and "torrents s0 i = Some t0" "descriptor t0 = td" "one_file td f"
    and "isolated i (file_name td f) (live s)"
    and "session A get past i (file_name td f) s0 s1" "torrents s1 i = Some t" "tstate t = Completed"
  shows "\<exists>c. file_at (disk_fs s1) (to_path (file_name td f)) = Some c \<and> int (length c) = tlength td \<and>
     (\<forall>k. 0 \<le> k \<and> k < pieces_count td \<longrightarrow> sha1 (nth_chunk (piece_length td) c k) = piece_hashes td ! nat k)"
proof -
  have inv: "fur_inv s" by (rule fur_reach_inv [OF assms(1)])
  obtain c0 where "sess_inv i td f s0 c0 {#}" using add_torrent_sess [OF inv assms(2-6)] by blast
  from session_inv [OF assms(7) fur_inv_add [OF inv assms(2)] this assms(5)]
  obtain c D where si: "fur_inv s1" "sess_inv i td f s1 c D" by blast
  have "int (size D) = pieces_processed t" "descriptor t = td" using si(2) assms(8) by (auto simp: sess_inv_def)
  then have "int (size D) = pieces_count td"
    using fur_inv_acc [OF si(1) assms(8)] assms(9) by (simp add: acc_ok_def)
  then have "size (file_pieces td f) \<le> size D" by (simp add: file_pieces_def)
  moreover have "D \<subseteq># pieces_of i (live s1) + D" by simp
  then have "D \<subseteq># file_pieces td f" by (rule subset_mset.order_trans) (use si(2) in \<open>simp add: sess_inv_def\<close>)
  ultimately have "D = file_pieces td f" by (metis mset_subset_size not_le subset_mset.le_imp_less_or_eq)
  then have "file_piece td f k \<in># D" if "0 \<le> k" "k < pieces_count td" for k
    using that by (auto simp: file_pieces_def)
  with si(2) show ?thesis by (intro exI [of _ c]) (force simp: sess_inv_def good_chunk_def)
qed

theorem completed_file_is_verified_witness:
  "\<exists>s0 s5 c. add_torrent demo_tracker None ''t.torrent'' demo_start = (Ret (OK 0), s0) \<and>
     session script_asio demo_tracker None 0 (file_name demo_loaded demo_file) s0 s5 \<and>
     file_at (disk_fs s5) (to_path (file_name demo_loaded demo_file)) = Some c \<and> length c = 3 \<and>
     sha1 c = sha1 [1, 2, 3]"
proof -
  obtain s0 s5 t where r: "add_torrent demo_tracker None ''t.torrent'' demo_start = (Ret (OK 0), s0)"
    "torrents s0 0 = Some (demo_torrent\<lparr>tstate := Downloading\<rparr>)" "session script_asio demo_tracker None 0 (file_name demo_loaded demo_file) s0 s5"
    "torrents s5 0 = Some t" "tstate t = Completed" by (rule demo_run_completes)
  have d: "descriptor (demo_torrent\<lparr>tstate := Downloading\<rparr>) = demo_loaded" by (simp add: demo_torrent_def)
  have iso: "isolated 0 (file_name demo_loaded demo_file) (live demo_start)"
    by (simp add: isolated_def live_def queued_def held_def Furrent_init_def SharedQueue_init_def)
  have td: "tlength demo_loaded = 3" "pieces_count demo_loaded = 1" "piece_length demo_loaded = 4"
    "piece_hashes demo_loaded = [sha1 [1, 2, 3]]" by (simp_all add: demo_loaded_def demo_desc_def)
  from completed_file_is_verified [OF fur_reach.init r(1,2) d demo_one_file iso r(3-5)] obtain c where
    c: "file_at (disk_fs s5) (to_path (file_name demo_loaded demo_file)) = Some c" "int (length c) = 3"
      "sha1 (take 4 c) = sha1 [1, 2, 3]"
    unfolding td by auto
  then have "sha1 c = sha1 [1, 2, 3]" by simp
  with c r(1,3) show ?thesis by auto
qed

text \<open>
  C3. No piece is lost or counted twice: in every reachable state, for every torrent, the tasks
  that are queued or held by a worker and the pieces already counted are together at most the
  pieces of the torrent. For a completed torrent all pieces are counted and no task is left. For a
  torrent that is downloading, and is not being removed at this moment, they are exactly its
  pieces; and when no task is left, a worker is about to set the state to completed, so that no
  torrent stays behind as downloading.
\<close>

theorem tasks_accounted:
  assumes "fur_reach A get past s" "torrents s i = Some t"
  shows "0 \<le> pieces_processed t \<and> int (live_count i s) + pieces_processed t \<le> max 0 (pieces_count (descriptor t)) \<and>
     (tstate t = Completed \<longrightarrow> pieces_processed t = pieces_count (descriptor t) \<and> live_count i s = 0) \<and>
     (tstate t = Downloading \<and> mpc s \<noteq> M_Mutated i \<and> mpc s \<noteq> M_Loaded i \<longrightarrow>
        int (live_count i s) + pieces_processed t = pieces_count (descriptor t) \<and>
        (live_count i s = 0 \<and> pieces_count (descriptor t) > 0 \<longrightarrow>
           (\<exists>u < main_thread s. wpc s u = W_Counted i (pieces_count (descriptor t)))))"
proof -
  note acc = fur_inv_acc [OF fur_reach_inv [OF assms(1)] assms(2)]
  have "(counted w = Some (i, n)) = (w = W_Counted i n)" for w n by (cases w) auto
  with acc show ?thesis by (auto simp: acc_ok_def finishing_def removing_def)
qed

theorem tasks_accounted_witness:
  "\<exists>s t. fur_reach script_asio demo_tracker None s \<and> torrents s 0 = Some t \<and> tstate t = Completed \<and>
     pieces_processed t = 1 \<and> live_count 0 s = 0"
proof -
  obtain s0 s5 t where r: "fur_reach script_asio demo_tracker None s0" "session script_asio demo_tracker None 0 (file_name demo_loaded demo_file) s0 s5"
    "torrents s5 0 = Some t" "tstate t = Completed" "descriptor t = demo_loaded" by (rule demo_run_completes)
  note reach = session_reach [OF r(1,2)]
  from tasks_accounted [OF reach r(3)] r(4,5) have "pieces_processed t = 1" "live_count 0 s5 = 0"
    by (simp_all add: demo_loaded_def demo_desc_def)
  with reach r(3,4) show ?thesis by blast
qed

end
