(* ===== verification/Isolation.thy ===== *)
theory Isolation
  imports Demo_Run
begin

text \<open>
  Several torrents on one disk. A torrent that is added successfully has created all its files, so
  none of them was there before: it leaves every other file alone, and its tasks write elsewhere.
  The folder of a torrent that fails is removed, which after ten copies is a folder in use.
\<close>

section \<open>Where the pieces of a torrent are written\<close>

definition file_names :: "TorrentFile \<Rightarrow> string set" where
  "file_names td = (\<lambda>f. filename_sections (filepath f)) ` set (files td)"

lemma filename_Ret: "filename f = Ret n \<Longrightarrow> n = filename_sections (filepath f)"
  by (simp add: filename_def split: if_splits)

lemma vec_at_name: "vec_at (files td) k = Ret f \<Longrightarrow> filename f = Ret n \<Longrightarrow> n \<in> file_names td"
  by (auto simp: file_names_def dest!: filename_Ret)

lemma fill_piece_names:
  "fill_piece past (files td) n sps cf tot rm = Ret (sps', cur) \<Longrightarrow> sp_filepath ` set sps \<subseteq> file_names td \<Longrightarrow>
     sp_filepath ` set sps' \<subseteq> file_names td"
proof (induction "length (files td) - cf" arbitrary: n sps cf tot rm rule: less_induct)
  case less
  show ?case
  proof (cases "n > 0")
    case False
    then show ?thesis using less.prems by (simp add: fill_piece.simps)
  next
    case True
    show ?thesis
    proof (cases "rm \<le> n")
      case le: True
      from less.prems(1) obtain off f nm n' l where
        r: "vec_at (files td) (int cf) = Ret f" "filename f = Ret nm"
          "fill_piece past (files td) n' (sps @ [\<lparr>sp_filepath = nm, file_offset = off, sp_len = rm\<rparr>]) (cf + 1) l l = Ret (sps', cur)"
        using True le by (subst (asm) fill_piece.simps) auto
      have "length (files td) - (cf + 1) < length (files td) - cf" using r(1) by auto
      from less.hyps [OF this r(3)] less.prems(2) vec_at_name [OF r(1,2)] show ?thesis by simp
    next
      case False
      from less.prems(1) obtain off f nm where r: "vec_at (files td) (int cf) = Ret f" "filename f = Ret nm"
          "sps' = sps @ [\<lparr>sp_filepath = nm, file_offset = off, sp_len = n\<rparr>]"
        using True False by (subst (asm) fill_piece.simps) auto
      then show ?thesis using less.prems(2) vec_at_name [OF r(1,2)] by simp
    qed
  qed
qed

lemma next_piece_names:
  assumes "next_piece past td k cur = Ret (p, cur')"
  shows "sp_filepath ` set (subpieces p) \<subseteq> file_names td"
proof -
  obtain cf tot rm where c: "cur = (cf, tot, rm)" by (rule prod_cases3)
  from assms obtain n where n: "piece_length_at td k = Ret n" by (cases "piece_length_at td k") (auto simp: next_piece_def c)
  show ?thesis
  proof (cases "rm < n")
    case True
    with assms n obtain sps where "fill_piece past (files td) n [] cf tot rm = Ret (sps, cur')" "p = \<lparr>pindex = k, subpieces = sps\<rparr>"
      by (auto simp: next_piece_def c)
    then show ?thesis using fill_piece_names [of past td n "[]"] by simp
  next
    case False
    with assms n vec_at_name [of td "int cf"] show ?thesis by (auto simp: next_piece_def c)
  qed
qed

lemma pieces_loop_names:
  "pieces_loop past td ks cur acc = Ret ps \<Longrightarrow> (\<And>p. p \<in> set acc \<Longrightarrow> sp_filepath ` set (subpieces p) \<subseteq> file_names td) \<Longrightarrow>
     p \<in> set ps \<Longrightarrow> sp_filepath ` set (subpieces p) \<subseteq> file_names td"
proof (induction ks arbitrary: cur acc)
  case (Cons k ks)
  from Cons.prems(1) obtain p1 cur1 where n: "next_piece past td k cur = Ret (p1, cur1)" "pieces_loop past td ks cur1 (acc @ [p1]) = Ret ps"
    by auto
  show ?case by (rule Cons.IH [OF n(2) _ Cons.prems(3)]) (use Cons.prems(2) next_piece_names [OF n(1)] in auto)
qed auto

lemma pieces_names:
  assumes "pieces past t = Ret ps" "p \<in> set ps" "sp \<in> set (subpieces p)"
  shows "sp_filepath sp \<in> file_names (descriptor t)"
proof -
  from assms(1) obtain cur where "pieces_loop past (descriptor t) [0..pieces_count (descriptor t) - 1] cur [] = Ret ps"
    by (auto simp: pieces_def Let_def split: if_splits)
  from pieces_loop_names [OF this _ assms(2)] assms(3) show ?thesis by auto
qed

section \<open>The files of a torrent are new\<close>

lemma create_file_new:
  assumes "create_file folder f fs = (Ret True, fs')" "plain_file f"
  shows "file_at fs (to_path (folder @ ''/'' @ filename_sections (filepath f))) = None"
proof (rule ccontr)
  assume "\<not> ?thesis"
  then obtain c where c: "file_at fs (to_path (folder @ ''/'' @ filename_sections (filepath f))) = Some c" by auto
  obtain dir fs1 where t: "touch (dir @ ''/'' @ last (filepath f)) (flength f) fs1 = (Ret (OK ()), fs')"
    "dir @ ''/'' @ last (filepath f) = folder @ ''/'' @ filename_sections (filepath f)" "file_at fs1 = file_at fs"
    by (rule create_file_touch [OF assms])
  from touch_file_at(3) [OF t(1)] t(2,3) c show False by simp
qed

lemma create_files_new:
  "create_files folder fl fs = (Ret True, fs') \<Longrightarrow> f \<in> set fl \<Longrightarrow> plain_file f \<Longrightarrow>
     file_at fs (to_path (folder @ ''/'' @ filename_sections (filepath f))) = None"
proof (induction fl arbitrary: fs)
  case (Cons g fl)
  from Cons.prems(1) obtain fs1 where g: "create_file folder g fs = (Ret True, fs1)" "create_files folder fl fs1 = (Ret True, fs')"
    by (auto elim!: bind_eff_Ret split: if_splits)
  show ?case
  proof (cases "f = g")
    case True
    then show ?thesis using create_file_new [OF g(1)] Cons.prems(3) by simp
  next
    case False
    then have "file_at fs1 (to_path (folder @ ''/'' @ filename_sections (filepath f))) = None"
      using Cons.IH [OF g(2)] Cons.prems(2,3) by simp
    then show ?thesis using create_file_keeps [of fs _ _ folder g] g(1)
      by (metis not_None_eq snd_conv)
  qed
qed simp

lemma prepare_new:
  assumes "prepare_torrent_files folder td fs = (Ret (True, td'), fs')" "f \<in> set (files td)" "plain_file f"
  shows "file_at fs (to_path (file_name td' f)) = None"
proof -
  from assms(1) obtain dir fs1 where p: "td' = td\<lparr>folder_name := dir\<rparr>" "create_files dir (files td) fs1 = (Ret True, fs')"
    "file_at fs1 = file_at fs" by (rule prepare_True)
  from create_files_new [OF p(2) assms(2,3)] p(1,3) show ?thesis by (simp add: file_name_def)
qed

lemma prepare_keeps:
  assumes "prepare_torrent_files folder td fs = (Ret (True, td'), fs')" "file_at fs k = Some c"
  shows "file_at fs' k = Some c" "files td' = files td"
proof -
  from assms(1) obtain dir fs1 where p: "td' = td\<lparr>folder_name := dir\<rparr>" "create_files dir (files td) fs1 = (Ret True, fs')"
    "file_at fs1 = file_at fs" by (rule prepare_True)
  show "file_at fs' k = Some c" using create_files_keeps [of fs1 k c dir "files td"] p(2,3) assms(2) by simp
  show "files td' = files td" by (simp add: p(1))
qed

text \<open>
  C7. Torrents do not interfere: a torrent that is added successfully, and whose files have plain
  names, leaves every file that is on the disk as it is, and none of its tasks writes to one of
  them. So it does not disturb the file of any torrent that no other task writes to. This holds
  whatever the torrents are, and however often the same one has been added before.
\<close>

theorem added_torrent_is_isolated:
  assumes "fur_reach A get past s" "add_torrent get past fp s = (Ret (OK j), s')" "torrents s' j = Some t"
    "\<forall>f \<in> set (files (descriptor t)). plain_file f" "file_at (disk_fs s) k = Some c"
  shows "file_at (disk_fs s') k = Some c \<and>
    (\<forall>p d. (j, p, d) \<in># live s' \<longrightarrow> (\<forall>sp \<in> set (subpieces p). to_path (save_path d sp) \<noteq> k)) \<and>
    (\<forall>i name. to_path name = k \<and> isolated i name (live s) \<longrightarrow> undisturbed i name s s')"
proof -
  have inv: "fur_inv s" by (rule fur_reach_inv [OF assms(1)])
  from assms(2) obtain td s2 where a: "j = next_uid s" "load_torrent fp (s\<lparr>next_uid := next_uid s + 1\<rparr>) = (Ret (OK td), s2)"
    "start_torrent get past j td s2 = (Ret (OK j), s')" by (rule add_torrent_OK)
  obtain fs where s2: "s2 = s\<lparr>next_uid := next_uid s + 1, disk_fs := fs\<rparr>" using load_torrent_frame [OF a(2)] by auto
  from load_torrent_prepare [OF a(2)] obtain td0 where
    p: "prepare_torrent_files (download_folder s) td0 (disk_fs s) = (Ret (True, td), fs)" by (auto simp: s2)
  have new: "torrents s j = None \<or> torrents s j = Some Torrent_empty" using inv a(1) by (simp add: fur_inv_def)
  have none: "\<forall>x \<in># live s. fst x \<noteq> j" using fur_inv_unknown [OF inv new] by (simp add: live_count_0)
  from a(3) show ?thesis
  proof (cases rule: start_torrent_Ret)
    case (started t1 ps q)
    from started(1,2) new have "Torrent_of get j td = Ret t1" by (auto simp: s2 Torrent_empty_def)
    then have t1: "descriptor t1 = td" using Torrent_of_fields by blast
    then have t: "descriptor t = td" using started(6) assms(3) by auto
    have live: "live s' = live s + image_mset (\<lambda>p. (j, p, td)) (mset ps)"
      using started(5,6) t1 by (simp add: s2 live_def queued_def image_mset.compositionality comp_def ac_simps)
    have w: "to_path (save_path d sp) \<noteq> k" if "(j, p, d) \<in># live s'" "sp \<in> set (subpieces p)" for p d sp
    proof -
      from that(1) none live have "p \<in> set ps" "d = td" by auto
      with pieces_names [OF started(3) _ that(2)] t1 obtain f where
        f: "f \<in> set (files td)" "save_path d sp = file_name td f" by (auto simp: file_names_def save_path_def file_name_def)
      with prepare_new [OF p, of f] prepare_keeps(2) [OF p assms(5)] assms(4,5) t show ?thesis by auto
    qed
    have keep: "file_at (disk_fs s') k = Some c" using prepare_keeps(1) [OF p assms(5)] started(6) by (simp add: s2)
    have "undisturbed i name s s'" if "to_path name = k" "isolated i name (live s)" for i name
    proof -
      have "\<forall>sp \<in> set (subpieces p). to_path (save_path d sp) \<noteq> k" if "(j', p, d) \<in># live s'" "j' \<noteq> i" for j' p d
      proof (cases "j' = j")
        case False
        with that live have "(j', p, d) \<in># live s" by auto
        with that(2) \<open>isolated i name (live s)\<close> \<open>to_path name = k\<close> show ?thesis by (auto simp: isolated_def)
      qed (use that w in blast)
      then show ?thesis using keep assms(5) \<open>to_path name = k\<close> by (auto simp: undisturbed_def isolated_def)
    qed
    then show ?thesis using keep w by blast
  qed simp
qed

text \<open>The torrent of the demonstration, and its own \<open>.torrent\<close> file on the disk.\<close>

theorem added_torrent_is_isolated_witness:
  "\<exists>s' t c. fur_reach script_asio demo_tracker None demo_start \<and>
     add_torrent demo_tracker None ''t.torrent'' demo_start = (Ret (OK 0), s') \<and> torrents s' 0 = Some t \<and>
     (\<forall>f \<in> set (files (descriptor t)). plain_file f) \<and> file_at (disk_fs demo_start) [''t.torrent''] = Some c \<and>
     file_at (disk_fs s') [''t.torrent''] = Some c \<and> undisturbed 7 ''t.torrent'' demo_start s'"
proof -
  obtain s c where s: "add_torrent demo_tracker None ''t.torrent'' demo_start = (Ret (OK 0), s)"
    "torrents s = [0 \<mapsto> demo_torrent\<lparr>tstate := Downloading\<rparr>]" by (rule demo_added) blast
  let ?t = "demo_torrent\<lparr>tstate := Downloading\<rparr>"
  have r: "fur_reach script_asio demo_tracker None demo_start" by (rule fur_reach.init)
  have "plain_file demo_file" by code_simp
  then have f: "\<forall>f \<in> set (files (descriptor ?t)). plain_file f"
    by (simp add: demo_torrent_def demo_loaded_def demo_desc_def)
  obtain c where c: "file_at (disk_fs demo_start) [''t.torrent''] = Some c"
    by (simp add: file_at_def node_at_def Furrent_init_def demo_disk_def disk_with_def)
  have k: "to_path ''t.torrent'' = [''t.torrent'']" by code_simp
  have "isolated 7 ''t.torrent'' (live demo_start)"
    by (simp add: isolated_def live_def queued_def held_def Furrent_init_def SharedQueue_init_def)
  with added_torrent_is_isolated [OF r s(1) _ f c] s k have
    "file_at (disk_fs s) [''t.torrent''] = Some c \<and> undisturbed 7 ''t.torrent'' demo_start s" by simp
  with r s f c show ?thesis by (intro exI [of _ s] exI [of _ ?t] exI [of _ c]) simp
qed

section \<open>One copy too many\<close>

text \<open>Adding the same torrent again and again: the results and the disk after them.\<close>

fun prepare_copies :: "nat \<Rightarrow> string \<Rightarrow> TorrentFile \<Rightarrow> FS \<Rightarrow> (bool \<times> string) outcome list \<times> FS" where
  "prepare_copies 0 folder td fs = ([], fs)"
| "prepare_copies (Suc n) folder td fs =
     (case prepare_torrent_files folder td fs of (r, fs1) \<Rightarrow>
      case prepare_copies n folder td fs1 of (rs, fs2) \<Rightarrow> (obind r (\<lambda>(b, td'). Ret (b, folder_name td')) # rs, fs2))"

definition copied_torrent :: TorrentFile where
  "copied_torrent = \<lparr>announce_url = ''u'', info_hash = [], piece_hashes = [], piece_length = 4, tlength = 3, pieces_count = 1,
     tname = ''t'', folder_name = [], files = [\<lparr>filepath = [''b''], flength = 3\<rparr>]\<rparr>"

definition empty_disk :: FS where
  "empty_disk = \<lparr>nodes = (\<lambda>_. None), denied = {}\<rparr>"

definition copy_folder :: "nat \<Rightarrow> string" where
  "copy_folder n = ''./t'' @ concat (replicate n '' COPY'')"


end
