(* ===== verification/Client_Spec.thy ===== *)
theory Client_Spec
  imports Demo_Run "HOL-Library.Sublist"
begin

text \<open>
  What the client promises about its torrents, without threads, queue, disk and network: a book
  with an entry for each torrent, and the few ways in which an entry changes. Every run of the
  client is, seen through the book, a run of this contract.
\<close>

section \<open>Runs and refinement\<close>

inductive run :: "('s \<Rightarrow> bool) \<Rightarrow> ('e \<Rightarrow> 's \<Rightarrow> 's \<Rightarrow> bool) \<Rightarrow> 'e list \<Rightarrow> 's \<Rightarrow> bool" for init step where
  start: "init s \<Longrightarrow> run init step [] s"
| step: "run init step es s \<Longrightarrow> step e s s' \<Longrightarrow> run init step (es @ [e]) s'"

text \<open>
  A view of the detailed states under which every detailed step is a step of the abstract system
  with the same event, or is not visible.
\<close>

locale refinement_map =
  fixes cinit :: "'c \<Rightarrow> bool" and cstep :: "'e \<Rightarrow> 'c \<Rightarrow> 'c \<Rightarrow> bool" and cinv :: "'c \<Rightarrow> bool"
    and view :: "'c \<Rightarrow> 'a" and ainit :: "'a \<Rightarrow> bool" and astep :: "'e \<Rightarrow> 'a \<Rightarrow> 'a \<Rightarrow> bool"
  assumes init_inv: "cinit c \<Longrightarrow> cinv c"
    and init_view: "cinit c \<Longrightarrow> ainit (view c)"
    and step_inv: "cinv c \<Longrightarrow> cstep e c c' \<Longrightarrow> cinv c'"
    and step_view: "cinv c \<Longrightarrow> cstep e c c' \<Longrightarrow> view c' = view c \<or> astep e (view c) (view c')"
begin

lemma run_inv: "run cinit cstep es c \<Longrightarrow> cinv c"
  by (induction rule: run.induct) (auto intro: init_inv step_inv)

lemma run_view: "run cinit cstep es c \<Longrightarrow> \<exists>es'. subseq es' es \<and> run ainit astep es' (view c)"
proof (induction rule: run.induct)
  case (start c)
  then show ?case using run.start [of ainit, OF init_view [OF start]] by (intro exI [of _ "[]"]) auto
next
  case (step es c e c')
  then obtain es' where es': "subseq es' es" "run ainit astep es' (view c)" by blast
  from step_view [OF run_inv [OF step.hyps(1)] step.hyps(2)] show ?case
  proof
    assume "view c' = view c"
    moreover have "subseq es' (es @ [e])" using es'(1) by (rule subseq_rev_drop_many)
    ultimately show ?thesis using es'(2) by auto
  next
    assume "astep e (view c) (view c')"
    from run.step [OF es'(2) this] es'(1) show ?thesis by (intro exI [of _ "es' @ [e]"]) (simp add: subseq_append)
  qed
qed

text \<open>What holds in every run of the abstract system holds of every view.\<close>

lemma transport: "(\<And>es a. run ainit astep es a \<Longrightarrow> P a) \<Longrightarrow> run cinit cstep es c \<Longrightarrow> P (view c)"
  using run_view by blast

end

section \<open>The contract\<close>

record entry =
  goal :: int
  todo :: nat
  finished :: int
  status :: TorrentState

type_synonym book = "TorrentID \<rightharpoonup> entry"

text \<open>
  A torrent is accepted with a task for each of its pieces, or refused. A task that is delivered is
  finished, once. A torrent is completed when nothing is left to do and all its pieces are finished.
  A removal drops tasks and stops the torrent.
\<close>

inductive contract_step :: "fur_event \<Rightarrow> book \<Rightarrow> book \<Rightarrow> bool" where
  accepted: "b i = None \<Longrightarrow>
    contract_step Add b (b(i \<mapsto> \<lparr>goal = int n, todo = n, finished = 0, status = Downloading\<rparr>))"
| refused: "b i = None \<Longrightarrow> contract_step Add b (b(i \<mapsto> \<lparr>goal = g, todo = 0, finished = 0, status = Error\<rparr>))"
| delivered: "b i = Some x \<Longrightarrow> todo x = Suc n \<Longrightarrow> status x \<noteq> Error \<Longrightarrow>
    contract_step Work b (b(i \<mapsto> x\<lparr>todo := n, finished := finished x + 1\<rparr>))"
| completes: "b i = Some x \<Longrightarrow> todo x = 0 \<Longrightarrow> finished x = goal x \<Longrightarrow> status x \<noteq> Error \<Longrightarrow>
    contract_step Work b (b(i \<mapsto> x\<lparr>status := Completed\<rparr>))"
| dropped: "b i = Some x \<Longrightarrow> n \<le> todo x \<Longrightarrow> contract_step Remove b (b(i \<mapsto> x\<lparr>todo := n\<rparr>))"
| stopped: "b i = Some x \<Longrightarrow> status x \<noteq> Error \<Longrightarrow> contract_step Remove b (b(i \<mapsto> x\<lparr>status := Stopped\<rparr>))"

definition entry_ok :: "entry \<Rightarrow> bool" where
  "entry_ok x \<longleftrightarrow> 0 \<le> finished x \<and> int (todo x) + finished x \<le> max 0 (goal x) \<and>
     (status x = Completed \<longrightarrow> finished x = goal x \<and> todo x = 0) \<and> (status x = Error \<longrightarrow> todo x = 0 \<and> finished x = 0)"

lemma contract_step_ok:
  assumes "contract_step e b b'" "\<And>i x. b i = Some x \<Longrightarrow> entry_ok x"
  obtains i x where "b' = b(i \<mapsto> x)" "entry_ok x"
  using assms(1)
proof (cases rule: contract_step.cases)
  case (accepted i n)
  then show thesis by (intro that [OF accepted(2)]) (auto simp: entry_ok_def)
next
  case (refused i g)
  then show thesis by (intro that [OF refused(2)]) (auto simp: entry_ok_def)
next
  case (delivered i x n)
  then show thesis using assms(2) [of i x] by (intro that [OF delivered(2)]) (auto simp: entry_ok_def)
next
  case (completes i x)
  then show thesis using assms(2) [of i x] by (intro that [OF completes(2)]) (auto simp: entry_ok_def)
next
  case (dropped i x n)
  then show thesis using assms(2) [of i x] by (intro that [OF dropped(2)]) (auto simp: entry_ok_def)
next
  case (stopped i x)
  then show thesis using assms(2) [of i x] by (intro that [OF stopped(2)]) (auto simp: entry_ok_def)
qed

lemma contract_run_ok: "run (\<lambda>b. b = Map.empty) contract_step es b \<Longrightarrow> b i = Some x \<Longrightarrow> entry_ok x"
proof (induction arbitrary: i x rule: run.induct)
  case (step es b e b')
  from step.hyps(2) step.IH obtain j y where "b' = b(j \<mapsto> y)" "entry_ok y" by (rule contract_step_ok)
  then show ?case using step.prems step.IH by (auto split: if_splits)
qed simp

section \<open>The book of the client\<close>

text \<open>Entries that were only made by looking up an unknown torrent are not shown.\<close>

definition entry_of :: "nat \<Rightarrow> Torrent \<Rightarrow> entry" where
  "entry_of n t = \<lparr>goal = pieces_count (descriptor t), todo = n, finished = pieces_processed t, status = tstate t\<rparr>"

definition book_of :: "Furrent \<Rightarrow> book" where
  "book_of s i =
     (case torrents s i of None \<Rightarrow> None
      | Some t \<Rightarrow> if t = Torrent_empty then None else Some (entry_of (live_count i s) t))"

definition book_inv :: "Furrent \<Rightarrow> bool" where
  "book_inv s \<longleftrightarrow> fur_inv s \<and>
     (\<forall>i t. torrents s i = Some t \<and> tstate t = Error \<longrightarrow> peers t = []) \<and>
     (\<forall>i t. mpc s = M_Loaded i \<and> torrents s i = Some t \<longrightarrow> tstate t \<noteq> Error)"

definition is_start :: "Furrent \<Rightarrow> bool" where
  "is_start s \<longleftrightarrow> (\<exists>hw fs. s = Furrent_init hw fs)"

lemma book_same: "torrents s' = torrents s \<Longrightarrow> live s' = live s \<Longrightarrow> book_of s' = book_of s"
  by (rule ext) (simp add: book_of_def live_count_def split: option.split)

lemma book_update:
  assumes "torrents s' = (torrents s)(i \<mapsto> t)" "t \<noteq> Torrent_empty" "\<And>j. j \<noteq> i \<Longrightarrow> live_count j s' = live_count j s"
  shows "book_of s' = (book_of s)(i \<mapsto> entry_of (live_count i s') t)"
  by (rule ext) (use assms in \<open>simp add: book_of_def split: option.split\<close>)

lemma book_hidden:
  assumes "torrents s' = (torrents s)(i \<mapsto> Torrent_empty)" "torrents s i = None \<or> torrents s i = Some Torrent_empty" "live s' = live s"
  shows "book_of s' = book_of s"
  by (rule ext) (use assms in \<open>auto simp: book_of_def live_count_def split: option.split\<close>)

lemma Torrent_empty_peers: "peers Torrent_empty = []"
  by (simp add: Torrent_empty_def)

lemma peers_not_empty: "peers t \<noteq> [] \<Longrightarrow> t \<noteq> Torrent_empty"
  by (auto simp: Torrent_empty_def)

text \<open>The two ways in which a step keeps the invariant and is allowed by the contract.\<close>

definition allowed :: "fur_event \<Rightarrow> Furrent \<Rightarrow> Furrent \<Rightarrow> bool" where
  "allowed ev s s' \<longleftrightarrow> book_inv s' \<and> (book_of s' = book_of s \<or> contract_step ev (book_of s) (book_of s'))"

lemma allowed_same:
  assumes "book_inv s" "fur_inv s'" "torrents s' = torrents s" "live s' = live s" "\<And>i. mpc s' = M_Loaded i \<Longrightarrow> mpc s = M_Loaded i"
  shows "allowed ev s s'"
proof -
  have "book_inv s'" using assms(1,2,5) unfolding book_inv_def assms(3) by blast
  with book_same [OF assms(3,4)] show ?thesis by (simp add: allowed_def)
qed

lemma allowed_update:
  assumes "book_inv s" "fur_inv s'" "torrents s' = (torrents s)(i \<mapsto> t)"
    "tstate t = Error \<Longrightarrow> peers t = [] \<and> mpc s' \<noteq> M_Loaded i" "\<And>j. j \<noteq> i \<Longrightarrow> mpc s' = M_Loaded j \<Longrightarrow> mpc s = M_Loaded j"
    "book_of s' = book_of s \<or> contract_step ev (book_of s) (book_of s')"
  shows "allowed ev s s'"
proof -
  have "tstate u \<noteq> Error" if "mpc s' = M_Loaded j" "torrents s' j = Some u" for j u
    using that assms(1,3-5) by (cases "j = i") (auto simp: book_inv_def)
  moreover have "peers u = []" if "torrents s' j = Some u" "tstate u = Error" for j u
    using that assms(1,3,4) by (cases "j = i") (auto simp: book_inv_def)
  ultimately have "book_inv s'" using assms(2) unfolding book_inv_def by blast
  with assms(6) show ?thesis by (simp add: allowed_def)
qed

lemma allowed_book:
  assumes inv: "book_inv s" and u: "t < main_thread s" "wpc s t = W_Processed task k" "worker_book t task k s = Ret s'"
  shows "allowed Work s s'"
proof -
  have f: "fur_inv s" using inv by (simp add: book_inv_def)
  let ?i = "pt_tid task"
  have "task_args task \<in># live s" using held_in_live [OF u(1), of task] u(2) by simp
  from fur_inv_task [OF f this] obtain tor where tor: "torrents s ?i = Some tor" "peers tor \<noteq> []"
    by (auto simp: task_args_def)
  from worker_book_live [OF u tor(1)] obtain tor' n where b: "live s' + {#task_args task#} = live s"
      "atomic_add_peer_score k tor = Ret tor'" "n = pieces_processed tor' + 1"
      "torrents s' = (torrents s)(?i \<mapsto> tor'\<lparr>pieces_processed := n\<rparr>)" "mpc s' = mpc s" by blast
  note sc = acc_ok_score(2) [OF b(2)]
  have cnt: "live_count j s = live_count j s' + (if j = ?i then 1 else 0)" for j
    using arg_cong [OF b(1), of "\<lambda>M. size (filter_mset (\<lambda>x. fst x = j) M)"] by (auto simp: live_count_def task_args_def)
  have err: "tstate tor \<noteq> Error" using inv tor by (auto simp: book_inv_def)
  have "book_of s ?i = Some (entry_of (live_count ?i s) tor)" using tor peers_not_empty [OF tor(2)] by (simp add: book_of_def)
  from contract_step.delivered [where b = "book_of s", OF this, of "live_count ?i s'"]
  have "contract_step Work (book_of s) ((book_of s)(?i \<mapsto> entry_of (live_count ?i s') (tor'\<lparr>pieces_processed := n\<rparr>)))"
    using cnt [of ?i] err sc b(3) by (simp add: entry_of_def)
  moreover have "book_of s' = (book_of s)(?i \<mapsto> entry_of (live_count ?i s') (tor'\<lparr>pieces_processed := n\<rparr>))"
    using cnt sc tor(2) by (intro book_update [OF b(4)] peers_not_empty) simp_all
  ultimately show ?thesis using err sc b(5)
    by (intro allowed_update [OF inv fur_inv_book [OF f u] b(4)]) auto
qed

lemma allowed_finish:
  assumes inv: "book_inv s" and u: "t < main_thread s" "wpc s t = W_Counted i n"
  shows "allowed Work s (worker_finish t i n s)"
proof -
  have f: "fur_inv s" using inv by (simp add: book_inv_def)
  have "counted (wpc s t) = Some (i, n)" using u(2) by simp
  with f u(1) obtain tor where tor: "torrents s i = Some tor" "peers tor \<noteq> []" "1 \<le> n" "n \<le> pieces_processed tor"
    by (rule fur_inv_counted)
  note live = worker_finish_live [OF u tor(1)] and f' = fur_inv_finish [OF f u]
  show ?thesis
  proof (cases "n = pieces_count (descriptor tor)")
    case True
    let ?t = "tor\<lparr>tstate := Completed\<rparr>" and ?s = "worker_finish t i n s"
    have err: "tstate tor \<noteq> Error" using inv tor by (auto simp: book_inv_def)
    have ts: "torrents ?s = (torrents s)(i \<mapsto> ?t)" using live(2) True by simp
    have "live_count j ?s = live_count j s" for j by (simp add: live_count_def live(1))
    then have "book_of ?s = (book_of s)(i \<mapsto> entry_of (live_count i s) ?t)"
      using book_update [OF ts peers_not_empty] tor(2) by simp
    moreover have "int (live_count i s) + pieces_processed tor \<le> n"
      using fur_inv_acc [OF f tor(1)] True tor(3) by (simp add: acc_ok_def)
    with tor(4) have "live_count i s = 0" "pieces_processed tor = n" by simp_all
    then have "contract_step Work (book_of s) ((book_of s)(i \<mapsto> entry_of (live_count i s) ?t))"
      using contract_step.completes [of "book_of s" i "entry_of (live_count i s) tor"] tor(1,2) err True peers_not_empty [OF tor(2)]
      by (simp add: book_of_def entry_of_def)
    ultimately show ?thesis using live(8) by (intro allowed_update [OF inv f' ts]) simp_all
  next
    case False
    then show ?thesis using live by (intro allowed_same [OF inv f']) simp_all
  qed
qed

lemma allowed_add:
  assumes inv: "book_inv s" and "add_torrent get past fp s = (Ret r, s')" "mpc s = M_Idle"
  shows "allowed Add s s'"
proof -
  have f: "fur_inv s" using inv by (simp add: book_inv_def)
  note f' = fur_inv_add [OF f assms(2)]
  let ?i = "next_uid s"
  have new: "torrents s ?i = None \<or> torrents s ?i = Some Torrent_empty" using f by (simp add: fur_inv_def)
  then have none: "book_of s ?i = None" by (auto simp: book_of_def)
  from assms(2) show ?thesis
  proof (cases rule: add_torrent_Ret)
    case (failed e fs)
    then show ?thesis by (intro allowed_same [OF inv f']) (simp_all add: live_def)
  next
    case (loaded td fs)
    from loaded(2) show ?thesis
    proof (cases rule: start_torrent_Ret)
      case (no_peers t)
      let ?t = "t\<lparr>tstate := Error\<rparr>"
      have ts: "torrents s' = (torrents s)(?i \<mapsto> ?t)" "live s' = live s" "mpc s' = M_Idle"
        using no_peers(4) assms(3) by (simp_all add: live_def)
      have "pieces_processed t = 0" using no_peers(1) new Torrent_of_fields [of get ?i td t] by (auto simp: Torrent_empty_def)
      moreover have "live_count j s' = live_count j s" for j by (simp add: live_count_def ts(2))
      ultimately have "book_of s' = book_of s \<or> contract_step Add (book_of s) (book_of s')"
        using book_hidden [OF _ new ts(2)] book_update [OF ts(1)] ts(1) fur_inv_unknown [OF f new]
          contract_step.refused [where b = "book_of s", OF none, of "pieces_count (descriptor t)"]
        by (cases "?t = Torrent_empty") (auto simp: entry_of_def)
      then show ?thesis using no_peers(2) ts(3) by (intro allowed_update [OF inv f' ts(1)]) simp_all
    next
      case (started t ps q)
      from started(1,2) new have t: "Torrent_of get ?i td = Ret t" by (auto simp: Torrent_empty_def)
      let ?t = "t\<lparr>tstate := Downloading\<rparr>"
      have ts: "torrents s' = (torrents s)(?i \<mapsto> ?t)" "mpc s' = M_Idle" using started(6) assms(3) by simp_all
      obtain M where M: "live s' = live s + M" "\<forall>x \<in># M. fst x = ?i" by (rule add_torrent_tasks [OF assms(2)])
      have "live s' = live s + image_mset (\<lambda>p. (?i, p, descriptor t)) (mset ps)"
        using started(5,6) by (simp add: live_def queued_def image_mset.compositionality comp_def ac_simps)
      then have n: "size M = length ps" using M(1) by simp
      have "filter_mset (\<lambda>x. fst x = j) M = (if j = ?i then M else {#})" for j
        using M(2) by (auto simp: filter_mset_eq_conv)
      then have cnt: "live_count j s' = (if j = ?i then length ps else live_count j s)" for j
        using M(1) n fur_inv_unknown [OF f new] by (simp add: live_count_def)
      have "book_of s' = (book_of s)(?i \<mapsto> entry_of (length ps) ?t)"
        using book_update [OF ts(1)] started(2) cnt by (simp add: peers_not_empty)
      moreover have "entry_of (length ps) ?t = \<lparr>goal = int (length ps), todo = length ps, finished = 0, status = Downloading\<rparr>"
        using Torrent_of_fields [OF t] pieces_length [OF started(3)] by (simp add: entry_of_def)
      ultimately show ?thesis using contract_step.accepted [where b = "book_of s", OF none, of "length ps"] ts(2)
        by (intro allowed_update [OF inv f' ts(1)]) simp_all
    qed
  qed
qed

lemma allowed_remove:
  assumes inv: "book_inv s"
  shows "mpc s = M_Idle \<Longrightarrow> allowed Remove s (remove_tasks i s)"
    "mpc s = M_Mutated i \<Longrightarrow> allowed Remove s (remove_load i s)"
    "mpc s = M_Loaded i \<Longrightarrow> allowed Remove s (remove_store i s)"
proof -
  have f: "fur_inv s" using inv by (simp add: book_inv_def)
  assume m: "mpc s = M_Idle"
  let ?s = "remove_tasks i s"
  have "book_of ?s = book_of s \<or> contract_step Remove (book_of s) (book_of ?s)"
  proof (cases "book_of s i")
    case None
    then have "torrents s j = Some t \<Longrightarrow> t \<noteq> Torrent_empty \<Longrightarrow> live_count j ?s = live_count j s" for j t
      by (cases "j = i") (auto simp: book_of_def remove_tasks_other)
    then have "book_of ?s = book_of s" by (intro ext) (auto simp: book_of_def remove_tasks_simps split: option.splits)
    then show ?thesis ..
  next
    case (Some x)
    then obtain t where t: "torrents s i = Some t" "t \<noteq> Torrent_empty" "x = entry_of (live_count i s) t"
      by (auto simp: book_of_def split: option.splits if_splits)
    have "live_count i ?s \<le> live_count i s"
      unfolding live_count_def by (intro size_mset_mono multiset_filter_mono remove_tasks_sub)
    moreover have "book_of ?s = (book_of s)(i \<mapsto> entry_of (live_count i ?s) t)"
      using t by (intro book_update) (simp_all add: remove_tasks_simps remove_tasks_other fun_upd_idem)
    ultimately show ?thesis using contract_step.dropped [where b = "book_of s", OF Some, of "live_count i ?s"] t(3) by (simp add: entry_of_def)
  qed
  then show "allowed Remove s ?s"
    using inv fur_inv_remove_tasks [OF f m]
    by (auto simp: allowed_def book_inv_def remove_tasks_simps) (simp_all add: remove_tasks_def)
next
  have f: "fur_inv s" using inv by (simp add: book_inv_def)
  assume m: "mpc s = M_Mutated i"
  note f' = fur_inv_remove_load [OF f m]
  show "allowed Remove s (remove_load i s)"
  proof (rule torrent_at_cases [of s i])
    fix t assume t: "torrents s i = Some t" "torrent_at i s = (t, s)"
    let ?s = "remove_load i s"
    have s: "?s = s\<lparr>mpc := if tstate t \<noteq> Completed \<and> tstate t \<noteq> Error then M_Loaded i else M_Idle\<rparr>"
      using t by (simp add: remove_load_def)
    have "book_of ?s = book_of s" by (rule book_same) (simp_all add: s live_def)
    then show "allowed Remove s ?s" using inv f' t(1) by (auto simp: allowed_def book_inv_def s split: if_splits)
  next
    assume t: "torrents s i = None" "torrent_at i s = (Torrent_empty, set_torrent i Torrent_empty s)"
    have s: "remove_load i s = (set_torrent i Torrent_empty s)\<lparr>mpc := M_Idle\<rparr>"
      using t by (simp add: remove_load_def Torrent_empty_def)
    then show "allowed Remove s (remove_load i s)" using book_hidden [of "remove_load i s" s i] t(1)
      by (intro allowed_update [OF inv f', where i = i and t = Torrent_empty]) (simp_all add: live_def Torrent_empty_peers)
  qed
next
  have f: "fur_inv s" using inv by (simp add: book_inv_def)
  assume m: "mpc s = M_Loaded i"
  then obtain t where t: "torrents s i = Some t" "tstate t \<noteq> Error" using inv by (auto simp: book_inv_def fur_inv_def)
  let ?s = "remove_store i s" and ?t = "t\<lparr>tstate := Stopped\<rparr>"
  have s: "?s = (set_torrent i ?t s)\<lparr>mpc := M_Idle\<rparr>" using t by (simp add: remove_store_def torrent_at_known)
  have ne: "t \<noteq> Torrent_empty" "?t \<noteq> Torrent_empty" using t(2) by (cases t; auto simp: Torrent_empty_def)+
  have cnt: "live_count j ?s = live_count j s" for j by (simp add: s live_count_def live_def)
  have "contract_step Remove (book_of s) (book_of ?s)"
    using contract_step.stopped [of "book_of s" i "entry_of (live_count i s) t"] t ne cnt
      book_update [of ?s s i ?t] by (simp add: s book_of_def entry_of_def)
  then show "allowed Remove s ?s" by (intro allowed_update [OF inv fur_inv_remove_store [OF f m], where i = i and t = ?t]) (simp_all add: s)
qed

lemma fur_step_allowed:
  assumes inv: "book_inv s" and st: "fur_step A get past ev s s'"
  shows "allowed ev s s'"
proof -
  have f: "fur_inv s" using inv by (simp add: book_inv_def)
  note f' = fur_inv_step [OF f st]
  from st show ?thesis
  proof (cases rule: fur_step.cases)
    case (loop t)
    then show ?thesis using worker_loop_live [of t s] by (intro allowed_same [OF inv f']) (simp_all add: worker_loop_frame)
  next
    case (wait t)
    then show ?thesis using worker_wait_live [of t s] by (intro allowed_same [OF inv f']) (simp_all add: worker_wait_def)
  next
    case (lookup t task)
    have "task_args task \<in># live s" using held_in_live [OF lookup(2), of task] lookup(3) by simp
    with f obtain tor where "torrents s (pt_tid task) = Some tor" "descriptor tor = pt_descriptor task"
      by (rule fur_inv_task) (simp add: task_args_def)
    from worker_lookup_live [OF lookup(2,3,5) this] worker_lookup_frame(2) [OF lookup(5)] show ?thesis
      by (intro allowed_same [OF inv f']) simp_all
  next
    case (attempt t task ps ws i w)
    then show ?thesis using worker_attempt_live [OF attempt(2,3,5)] worker_attempt_frame(2) [OF attempt(5)]
      by (intro allowed_same [OF inv f']) simp_all
  next
    case (queue e q)
    then show ?thesis using queue_step_work [of e "tasks s" q] by (intro allowed_same [OF inv f']) (auto simp: live_def queued_def)
  next
    case (spurious q)
    then show ?thesis using queue_step_work [of SpuriousWake "tasks s" q]
      by (intro allowed_same [OF inv f']) (auto simp: live_def queued_def)
  next
    case (folder d r)
    then show ?thesis using set_download_folder_frame [of d s "Ret r" s'] by (intro allowed_same [OF inv f']) simp_all
  next
    case join
    then show ?thesis using shutdown_join_frame [OF join(3)] by (intro allowed_same [OF inv f']) simp_all
  qed (use inv f' in \<open>auto intro: allowed_book allowed_finish allowed_add allowed_remove allowed_same simp: main_ready_def shutdown_frame\<close>)
qed

interpretation client: refinement_map is_start "fur_step A get past" book_inv book_of "\<lambda>b. b = Map.empty" contract_step
  for A :: "'w asio" and get past
proof
  fix c e c'
  show "book_inv c" "book_of c = Map.empty" if "is_start c"
    using that fur_inv_init by (auto simp: is_start_def book_inv_def book_of_def Furrent_init_def)
  show "book_inv c'" "book_of c' = book_of c \<or> contract_step e (book_of c) (book_of c')"
    if "book_inv c" "fur_step A get past e c c'" using fur_step_allowed [OF that] by (simp_all add: allowed_def)
qed

text \<open>
  C4. The client implements the contract: every run of the client, however its threads are
  interleaved and whatever network, tracker and disk do, is seen through its book a run of the
  contract, in which some of the events are not visible. So a torrent enters the book with one
  task for each of its pieces, each task is finished at most once, a torrent becomes completed only
  when all its pieces are finished and none is left, and a refused torrent stays refused.
\<close>

theorem client_implements_contract:
  assumes "run is_start (fur_step A get past) es s"
  shows "\<exists>es'. subseq es' es \<and> run (\<lambda>b. b = Map.empty) contract_step es' (book_of s) \<and>
    (\<forall>i x. book_of s i = Some x \<longrightarrow> entry_ok x)"
proof -
  have "entry_ok x" if "book_of s i = Some x" for i x
    using client.transport [OF _ assms, where P = "\<lambda>b. \<forall>i x. b i = Some x \<longrightarrow> entry_ok x"] contract_run_ok that by blast
  with client.run_view [OF assms] show ?thesis by blast
qed

lemma reach_run: "fur_reach A get past s \<Longrightarrow> \<exists>es. run is_start (fur_step A get past) es s"
proof (induction rule: fur_reach.induct)
  case (init hw fs)
  have "is_start (Furrent_init hw fs)" by (auto simp: is_start_def)
  from run.start [of is_start, OF this] show ?case by blast
next
  case (step s ev s')
  then show ?case using run.step [of is_start "fur_step A get past"] by blast
qed

theorem client_implements_contract_witness:
  "\<exists>es s es' x. run is_start (fur_step script_asio demo_tracker None) es s \<and> subseq es' es \<and>
     run (\<lambda>b. b = Map.empty) contract_step es' (book_of s) \<and> book_of s 0 = Some x \<and> entry_ok x \<and>
     status x = Completed \<and> finished x = 1"
proof -
  obtain s0 s t where d: "fur_reach script_asio demo_tracker None s0"
    "session script_asio demo_tracker None 0 (file_name demo_loaded demo_file) s0 s"
    "torrents s 0 = Some t" "tstate t = Completed" "descriptor t = demo_loaded" by (rule demo_run_completes)
  obtain es where r: "run is_start (fur_step script_asio demo_tracker None) es s"
    using reach_run [OF session_reach [OF d(1,2)]] by blast
  have "t \<noteq> Torrent_empty" using d(4) by (auto simp: Torrent_empty_def)
  then have b: "book_of s 0 = Some (entry_of (live_count 0 s) t)" using d(3) by (simp add: book_of_def)
  from client_implements_contract [OF r] obtain es' where es': "subseq es' es"
    "run (\<lambda>b. b = Map.empty) contract_step es' (book_of s)" "entry_ok (entry_of (live_count 0 s) t)" using b by blast
  moreover have "pieces_processed t = 1"
    using es'(3) d(4,5) by (simp add: entry_ok_def entry_of_def demo_loaded_def demo_desc_def)
  ultimately show ?thesis using r b d(4)
    by (intro exI [of _ es] exI [of _ s] exI [of _ es'] exI [of _ "entry_of (live_count 0 s) t"]) (simp add: entry_of_def)
qed

end
