(* ===== verification/Client_Shutdown.thy ===== *)
theory Client_Shutdown
  imports Demo_Run
begin

text \<open>
  The end of the client: the destructor makes the queue stop blocking, sets the flag of the group
  and joins the workers. The client uses the shared queue only through its operations, so what is
  proved of the queue holds of the client's; with it, the destructor returns unless a worker is
  inside the loop that tries its peers.
\<close>

section \<open>The client's queue is a shared queue\<close>

lemma reaches_emplace:
  assumes "reaches UNIV q" "pcs q t = Idle" "shared_emplace f x t q = Ret q'"
  shows "reaches UNIV q'"
proof -
  have "shared_emplace (\<lambda>_ :: nat. f x) 0 t q = Ret q'" using assms(3) by (simp add: shared_emplace_def queue_emplace_def)
  from queue_step.emplace [OF assms(2) this] show ?thesis by (rule reaches.step [OF assms(1)]) simp
qed

lemma reaches_notify:
  "reaches UNIV q \<Longrightarrow> pcs q t = NotifyNewWork \<Longrightarrow> reaches UNIV (notify_new_work t q)"
  by (rule reaches.step [OF _ queue_step.notify_new]) simp_all

lemma reaches_emplace_all:
  assumes "reaches UNIV q" "pcs q t = Idle" "emplace_all t i td ps q = Ret q'"
  shows "reaches UNIV q' \<and> pcs q' t = Idle"
  using assms
proof (induction ps arbitrary: q)
  case (Cons p ps)
  then obtain q1 where q1: "shared_emplace PieceTask_of (i, p, td) t q = Ret q1"
      "emplace_all t i td ps (notify_new_work t q1) = Ret q'"
    by (cases "shared_emplace PieceTask_of (i, p, td) t q") (auto simp: emplace_task_def)
  from q1(1) have "pcs q1 t = NotifyNewWork" by (cases "queue_emplace PieceTask_of (i, p, td) (work q)") (auto simp: shared_emplace_def)
  with reaches_notify reaches_emplace [OF Cons.prems(1,2) q1(1)] have "reaches UNIV (notify_new_work t q1)" by blast
  then show ?case using q1(2) by (intro Cons.IH) (simp_all add: notify_new_work_def)
qed simp

lemma reaches_force:
  assumes "reaches UNIV q" "pcs q t = Idle"
  shows "reaches UNIV (notify_new_work t (force_wakeup t q))"
  by (rule reaches_notify, rule reaches.step [OF assms(1) queue_step.force [OF assms(2)]]) (simp_all add: force_wakeup_def)

lemma start_torrent_queue:
  assumes "start_torrent get past i td s = (Ret r, s')"
  shows "tasks s' = tasks s \<or> (\<exists>ps d q. emplace_all (main_thread s) i d ps (tasks s) = Ret q \<and>
           tasks s' = notify_new_work (main_thread s) (force_wakeup (main_thread s) q))"
    and "wpc s' = wpc s" "mpc s' = mpc s" "workers s' = workers s"
  using assms by (cases rule: start_torrent_Ret; auto)+

lemma add_torrent_queue:
  assumes "add_torrent get past file s = (Ret r, s')"
  shows "tasks s' = tasks s \<or> (\<exists>i ps d q. emplace_all (main_thread s) i d ps (tasks s) = Ret q \<and>
           tasks s' = notify_new_work (main_thread s) (force_wakeup (main_thread s) q))"
    and "wpc s' = wpc s" "mpc s' = mpc s" "workers s' = workers s"
proof -
  from assms have "(tasks s' = tasks s \<or> (\<exists>i ps d q. emplace_all (main_thread s) i d ps (tasks s) = Ret q \<and>
      tasks s' = notify_new_work (main_thread s) (force_wakeup (main_thread s) q))) \<and>
    wpc s' = wpc s \<and> mpc s' = mpc s \<and> workers s' = workers s"
  proof (cases rule: add_torrent_Ret)
    case (loaded td fs)
    let ?s2 = "s\<lparr>next_uid := next_uid s + 1, disk_fs := fs\<rparr>"
    have "main_thread ?s2 = main_thread s" "tasks ?s2 = tasks s" "wpc ?s2 = wpc s" "mpc ?s2 = mpc s" "workers ?s2 = workers s"
      by simp_all
    with start_torrent_queue [OF loaded(2)] show ?thesis by metis
  qed simp
  then show "tasks s' = tasks s \<or> (\<exists>i ps d q. emplace_all (main_thread s) i d ps (tasks s) = Ret q \<and>
      tasks s' = notify_new_work (main_thread s) (force_wakeup (main_thread s) q))"
    "wpc s' = wpc s" "mpc s' = mpc s" "workers s' = workers s" by blast+
qed

text \<open>Every step of the client is a sequence of steps of its queue.\<close>

lemma fur_step_queue:
  assumes q: "reaches UNIV (tasks s)" and "fur_step A get past ev s s'"
  shows "reaches UNIV (tasks s')"
  using assms(2)
proof (cases rule: fur_step.cases)
  case (loop t)
  obtain r q' where "try_extract LIFOPolicy_extract t (tasks s) = (r, q')" by (rule prod.exhaust)
  moreover from queue_step.extraction [OF loop(5) this] have "reaches UNIV q'" by (rule reaches.step [OF q]) simp
  ultimately show ?thesis using q loop by (auto simp: worker_loop_def split: Result.split)
next
  case (wait t)
  from queue_step.wait_work [OF wait(5)] have "reaches UNIV (wait_work t (tasks s))" by (rule reaches.step [OF q]) simp
  then show ?thesis using wait by (simp add: worker_wait_def)
next
  case (lookup t task)
  then show ?thesis using q
    by (auto simp: worker_lookup_def torrent_at_def intro: reaches_emplace split: option.splits if_splits)
next
  case (attempt t task ps ws i w)
  then show ?thesis using q worker_attempt_frame(3) [OF attempt(5)] by simp
next
  case (book t task i)
  then show ?thesis using q by (auto simp: worker_book_def torrent_at_def Let_def split: option.splits)
next
  case (finish t i n)
  then show ?thesis using q by (auto simp: worker_finish_def torrent_at_def split: option.splits)
next
  case (queue e q')
  then show ?thesis using reaches.step [OF q] by simp
next
  case (spurious q')
  then show ?thesis using reaches.step [OF q] by simp
next
  case (add f r)
  then have "pcs (tasks s) (main_thread s) = Idle" by (simp add: main_ready_def)
  with add_torrent_queue(1) [OF add(4)] reaches_emplace_all [OF q] reaches_force q show ?thesis by metis
next
  case (remove i)
  then have "pcs (tasks s) (main_thread s) = Idle" by (simp add: main_ready_def)
  then show ?thesis using remove by (auto simp: remove_tasks_def intro!: reaches.step [OF q queue_step.mutate])
next
  case (remove_read i)
  then show ?thesis using q by (auto simp: remove_load_def torrent_at_def split: option.splits)
next
  case (remove_write i)
  then show ?thesis using q by (auto simp: remove_store_def torrent_at_def split: option.splits)
next
  case (folder d r)
  then show ?thesis using q set_download_folder_frame(7) by simp
next
  case shutdown
  then have "pcs (tasks s) (main_thread s) = Idle" by (simp add: main_ready_def)
  then show ?thesis using shutdown by (auto simp: shutdown_skip_def intro!: reaches.step [OF q queue_step.skip])
next
  case signal
  then show ?thesis using q by (simp add: shutdown_signal_def)
next
  case join
  then show ?thesis using q by (auto elim!: shutdown_join_state)
qed

lemma fur_reach_queue: "fur_reach A get past s \<Longrightarrow> reaches UNIV (tasks s)"
  by (induction rule: fur_reach.induct) (auto intro: fur_step_queue reaches.init simp: Furrent_init_def)

section \<open>Threads and their places\<close>

text \<open>Nobody waits for the queue to be empty, and only the workers and the main thread use it.\<close>

definition pc_ok :: "nat \<Rightarrow> 'a SharedQueue \<Rightarrow> bool" where
  "pc_ok n q \<longleftrightarrow> (\<forall>t. pcs q t \<noteq> BlockedEmpty \<and> pcs q t \<noteq> WokenEmpty) \<and> (\<forall>t > n. pcs q t = Idle)"

lemma pc_ok_upd [simp]: "pc_ok n (q\<lparr>work := w\<rparr>) = pc_ok n q" "pc_ok n (q\<lparr>skip_waiting := b\<rparr>) = pc_ok n q"
  by (simp_all add: pc_ok_def)

lemma pc_ok_at: "pc_ok n q \<Longrightarrow> t \<le> n \<Longrightarrow> p \<noteq> BlockedEmpty \<Longrightarrow> p \<noteq> WokenEmpty \<Longrightarrow> pc_ok n (at t p q)"
  by (simp add: pc_ok_def)

lemma pc_ok_ops:
  assumes "pc_ok n q" "t \<le> n"
  shows "pc_ok n (notify_new_work t q)" "pc_ok n (notify_dispatched t q)" "pc_ok n (wait_work t q)"
    "pc_ok n (force_wakeup t q)" "pc_ok n (begin_skip_waiting t q)" "pc_ok n (shared_mutate m st t q)"
    "pc_ok n (snd (try_extract pol t q))"
proof -
  show "pc_ok n (notify_new_work t q)" "pc_ok n (notify_dispatched t q)"
    using assms by (simp_all add: pc_ok_def notify_new_work_def notify_dispatched_def)
  show "pc_ok n (wait_work t q)" "pc_ok n (force_wakeup t q)" "pc_ok n (begin_skip_waiting t q)"
      "pc_ok n (shared_mutate m st t q)" "pc_ok n (snd (try_extract pol t q))"
    using assms
    by (simp_all add: wait_work_def force_wakeup_def begin_skip_waiting_def shared_mutate_def try_extract_def
        split_beta Let_def pc_ok_at)
qed

lemma pc_ok_emplace: "pc_ok n q \<Longrightarrow> t \<le> n \<Longrightarrow> shared_emplace f x t q = Ret q' \<Longrightarrow> pc_ok n q'"
  by (auto simp: shared_emplace_def pc_ok_at)

lemma pc_ok_emplace_all: "emplace_all t i td ps q = Ret q' \<Longrightarrow> pc_ok n q \<Longrightarrow> t \<le> n \<Longrightarrow> pc_ok n q'"
  by (induction ps arbitrary: q) (auto simp: emplace_task_def intro: pc_ok_ops pc_ok_emplace)

lemma pc_ok_step:
  assumes ok: "pc_ok n q" and "queue_step e q q'" "e = Notify \<or> e = Wake \<or> e = SpuriousWake"
  shows "pc_ok n q'"
proof -
  have le: "t \<le> n" if "pcs q t \<noteq> Idle" for t using ok that by (metis linorder_not_less pc_ok_def)
  have ne: "pcs q t \<noteq> WokenEmpty" "pcs q t \<noteq> BlockedEmpty" for t using ok by (simp_all add: pc_ok_def)
  from assms(2,3) show ?thesis
    by (cases rule: queue_step.cases) (simp_all add: pc_ok_ops [OF ok le] pc_ok_at [OF ok le] ne)
qed

lemma skip_waiting_ops:
  "skip_waiting (notify_new_work t q) = skip_waiting q" "skip_waiting (notify_dispatched t q) = skip_waiting q"
  "skip_waiting (wait_work t q) = skip_waiting q" "skip_waiting (wait_empty t q) = skip_waiting q"
  "skip_waiting (force_wakeup t q) = skip_waiting q" "skip_waiting (shared_mutate m st t q) = skip_waiting q"
  "skip_waiting (snd (try_extract pol t q)) = skip_waiting q" "skip_waiting (begin_skip_waiting t q)"
  by (simp_all add: notify_new_work_def notify_dispatched_def wait_work_def wait_empty_def force_wakeup_def
      shared_mutate_def try_extract_def begin_skip_waiting_def split_beta Let_def)

lemma skip_waiting_emplace: "shared_emplace f x t q = Ret q' \<Longrightarrow> skip_waiting q' = skip_waiting q"
  by (auto simp: shared_emplace_def)

lemma skip_waiting_emplace_all: "emplace_all t i td ps q = Ret q' \<Longrightarrow> skip_waiting q' = skip_waiting q"
proof (induction ps arbitrary: q)
  case (Cons p ps)
  then obtain q1 where "shared_emplace PieceTask_of (i, p, td) t q = Ret q1"
      "emplace_all t i td ps (notify_new_work t q1) = Ret q'" by (auto simp: emplace_task_def)
  with Cons.IH skip_waiting_emplace show ?case by (metis skip_waiting_ops(1))
qed simp

lemma skip_waiting_step: "queue_step e q q' \<Longrightarrow> e = Notify \<or> e = Wake \<or> e = SpuriousWake \<Longrightarrow> skip_waiting q' = skip_waiting q"
  by (erule queue_stepE) (simp_all add: skip_waiting_ops)

text \<open>How far the destructor is.\<close>

fun stage :: "main_pc \<Rightarrow> nat" where
  "stage M_Skipping = 1"
| "stage M_Joining = 2"
| "stage M_Done = 3"
| "stage _ = 0"

text \<open>A worker that has returned is finished, the others run; the flags are set in their order.\<close>

definition sched_inv :: "Furrent \<Rightarrow> bool" where
  "sched_inv s \<longleftrightarrow> pc_ok (main_thread s) (tasks s) \<and>
     (stage (mpc s) < 3 \<longrightarrow>
        (\<forall>t < main_thread s. snd (threads (workers s) ! t) = (if wpc s t = W_Exit then Finished else Running))) \<and>
     (1 \<le> stage (mpc s) \<longrightarrow> skip_waiting (tasks s)) \<and>
     (2 \<le> stage (mpc s) \<longrightarrow> should_terminate (workers s))"

lemma sched_inv_same:
  assumes "sched_inv s" "pc_ok (main_thread s) (tasks s')" "skip_waiting (tasks s) \<Longrightarrow> skip_waiting (tasks s')"
    "threads (workers s') = threads (workers s)" "should_terminate (workers s') = should_terminate (workers s)"
    "\<And>t. t < main_thread s \<Longrightarrow> wpc s' t = W_Exit \<longleftrightarrow> wpc s t = W_Exit" "stage (mpc s') = stage (mpc s)"
  shows "sched_inv s'"
proof -
  have "main_thread s' = main_thread s" using assms(4) by (simp add: main_thread_def)
  with assms show ?thesis unfolding sched_inv_def by simp
qed

lemma sched_inv_init: "sched_inv (Furrent_init hw fs)"
proof -
  have "snd (threads (workers (Furrent_init hw fs)) ! t) = Running" if "t < main_thread (Furrent_init hw fs)" for t
    using that by (auto simp: Furrent_init_def main_thread_def launch_def ThreadGroup_init_def Let_def threads_cnt_def split: if_splits)
  moreover have "wpc (Furrent_init hw fs) = (\<lambda>_. W_Loop)" "mpc (Furrent_init hw fs) = M_Idle"
    "tasks (Furrent_init hw fs) = SharedQueue_init" by (simp_all add: Furrent_init_def)
  moreover have "pc_ok n SharedQueue_init" for n by (simp add: pc_ok_def SharedQueue_init_def)
  ultimately show ?thesis by (simp add: sched_inv_def)
qed

lemma worker_lookup_exit:
  assumes "worker_lookup t task s = Ret s'"
  shows "workers s' = workers s" "wpc s t = W_Got task \<Longrightarrow> wpc s' u = W_Exit \<longleftrightarrow> wpc s u = W_Exit"
  using assms by (auto simp: worker_lookup_def torrent_at_def split: option.splits if_splits)

lemma worker_attempt_exit:
  assumes "worker_attempt A w i t task ps ws s = Some (Ret s')"
  shows "wpc s t = W_Retry task ps ws \<Longrightarrow> wpc s' u = W_Exit \<longleftrightarrow> wpc s u = W_Exit"
  using assms by (auto simp: worker_attempt_def split: outcome.splits if_splits)

lemma worker_book_exit:
  assumes "worker_book t task i s = Ret s'"
  shows "threads (workers s') = threads (workers s)" "should_terminate (workers s') = should_terminate (workers s)"
    "tasks s' = tasks s" "mpc s' = mpc s" "wpc s t = W_Processed task i \<Longrightarrow> wpc s' u = W_Exit \<longleftrightarrow> wpc s u = W_Exit"
  using assms by (auto simp: worker_book_def torrent_at_def Let_def split: option.splits if_splits)

lemma sched_inv_loop:
  assumes inv: "sched_inv s" and t: "t < main_thread s" "wpc s t = W_Loop"
  shows "sched_inv (worker_loop t s)"
proof (cases "Runner_alive (workers s)")
  case True
  obtain r q where q: "try_extract LIFOPolicy_extract t (tasks s) = (r, q)" by (rule prod.exhaust)
  have "pc_ok (main_thread s) q" "skip_waiting q = skip_waiting (tasks s)"
    using inv t(1) pc_ok_ops(7) [of "main_thread s" "tasks s" t LIFOPolicy_extract] skip_waiting_ops(7) [of LIFOPolicy_extract t "tasks s"]
    by (simp_all add: q sched_inv_def)
  then show ?thesis using True q t by (intro sched_inv_same [OF inv]) (auto simp: worker_loop_def split: Result.split)
next
  case False
  let ?s = "worker_loop t s"
  have s: "wpc ?s = (wpc s)(t := W_Exit)" "tasks ?s = tasks s" "mpc ?s = mpc s" "main_thread ?s = main_thread s"
    "workers ?s = thread_exits t (workers s)" using False by (simp_all add: worker_loop_def)
  have "snd (threads (workers ?s) ! u) = (if wpc ?s u = W_Exit then Finished else Running)"
    if "stage (mpc s) < 3" "u < main_thread s" for u
    using inv that t by (auto simp: s thread_exits_def sched_inv_def main_thread_def nth_list_update)
  moreover have "should_terminate (workers ?s) = should_terminate (workers s)" by (simp add: s thread_exits_def)
  ultimately show ?thesis using inv by (simp add: sched_inv_def s)
qed

lemma sched_inv_step:
  assumes inv: "sched_inv s" and "fur_step A get past ev s s'"
  shows "sched_inv s'"
proof -
  have ok: "pc_ok (main_thread s) (tasks s)" using inv by (simp add: sched_inv_def)
  note same = sched_inv_same [OF inv] and main = pc_ok_ops [OF ok le_refl]
  from assms(2) show ?thesis
  proof (cases rule: fur_step.cases)
    case (loop t)
    then show ?thesis using sched_inv_loop [OF inv] by simp
  next
    case (wait t)
    then show ?thesis by (intro same) (auto simp: worker_wait_def skip_waiting_ops pc_ok_ops [OF ok])
  next
    case (lookup t task)
    have "pc_ok (main_thread s) (tasks s') \<and> skip_waiting (tasks s') = skip_waiting (tasks s)"
      using lookup(5) pc_ok_emplace [OF ok less_imp_le [OF lookup(2)]] ok skip_waiting_emplace
      by (fastforce simp: worker_lookup_def torrent_at_def split: option.splits if_splits)
    then show ?thesis using worker_lookup_exit [OF lookup(5)] worker_lookup_frame(2) [OF lookup(5)] lookup(3)
      by (intro same) simp_all
  next
    case (attempt t task ps ws i w)
    then show ?thesis using worker_attempt_frame(1-4) [OF attempt(5)] worker_attempt_exit [OF attempt(5)]
      by (intro same) (simp_all add: ok)
  next
    case (book t task i)
    then show ?thesis using worker_book_exit [OF book(4)] by (intro same) (simp_all add: ok)
  next
    case (finish t i n)
    then show ?thesis by (intro same) (auto simp: ok worker_finish_def torrent_at_def split: option.splits)
  next
    case (queue e q)
    then have e: "e = Notify \<or> e = Wake \<or> e = SpuriousWake" by blast
    show ?thesis using queue pc_ok_step [OF ok queue(3) e] skip_waiting_step [OF queue(3) e] by (intro same) simp_all
  next
    case (spurious q)
    then show ?thesis using pc_ok_step [OF ok spurious(3)] skip_waiting_step [OF spurious(3)] by (intro same) simp_all
  next
    case (add f r)
    have "pc_ok (main_thread s) (tasks s') \<and> skip_waiting (tasks s') = skip_waiting (tasks s)"
      using add_torrent_queue(1) [OF add(4)] pc_ok_emplace_all [OF _ ok le_refl] skip_waiting_emplace_all ok
      by (auto simp: skip_waiting_ops intro!: pc_ok_ops)
    then show ?thesis using add_torrent_queue(2-4) [OF add(4)] by (intro same) simp_all
  next
    case (remove i)
    then show ?thesis by (intro same) (auto simp: remove_tasks_def main skip_waiting_ops main_ready_def)
  next
    case (remove_read i)
    then show ?thesis by (intro same) (auto simp: ok remove_load_def torrent_at_def split: option.splits)
  next
    case (remove_write i)
    then show ?thesis by (intro same) (auto simp: ok remove_store_def torrent_at_def split: option.splits)
  next
    case (folder d r)
    then show ?thesis using set_download_folder_frame [of d s "Ret r" s'] by (intro same) (simp_all add: ok)
  next
    case shutdown
    then show ?thesis using inv by (simp add: sched_inv_def shutdown_frame) (simp add: shutdown_skip_def main skip_waiting_ops main_ready_def)
  next
    case signal
    then show ?thesis using inv by (simp add: sched_inv_def shutdown_frame) (simp add: shutdown_signal_def set_terminate_def)
  next
    case join
    from join(3) obtain g where "terminate (workers s) = Some (Ret (), g)" "s' = s\<lparr>workers := g, mpc := M_Done\<rparr>"
      "length (threads g) = length (threads (workers s))" by (rule shutdown_join_state)
    then show ?thesis using inv join(2)
      by (auto simp: sched_inv_def main_thread_def terminate_def set_terminate_def)
  qed
qed

lemma fur_reach_sched: "fur_reach A get past s \<Longrightarrow> sched_inv s"
  by (induction rule: fur_reach.induct) (auto intro: sched_inv_init sched_inv_step)

section \<open>The destructor returns\<close>

text \<open>How many steps a thread has left at most when it does not download.\<close>

fun pc_rank :: "pc \<Rightarrow> nat" where
  "pc_rank Idle = 0"
| "pc_rank BlockedWork = 2"
| "pc_rank BlockedEmpty = 2"
| "pc_rank _ = 1"

fun worker_rank :: "worker \<Rightarrow> nat" where
  "worker_rank W_Exit = 0"
| "worker_rank W_Loop = 1"
| "worker_rank _ = 2"

fun calm_worker :: "worker \<Rightarrow> bool" where
  "calm_worker (W_Got task) \<longleftrightarrow> False"
| "calm_worker (W_Retry task ps ws) \<longleftrightarrow> False"
| "calm_worker (W_Processed task i) \<longleftrightarrow> False"
| "calm_worker _ \<longleftrightarrow> True"

definition calm :: "Furrent \<Rightarrow> bool" where
  "calm s \<longleftrightarrow> (\<forall>t < main_thread s. calm_worker (wpc s t))"

definition thread_rank :: "Furrent \<Rightarrow> nat \<Rightarrow> nat" where
  "thread_rank s t = worker_rank (wpc s t) + pc_rank (pcs (tasks s) t)"

definition shutdown_rank :: "Furrent \<Rightarrow> nat" where
  "shutdown_rank s = (\<Sum>t \<le> main_thread s. thread_rank s t)"

lemma shutdown_rank_less:
  assumes "main_thread s' = main_thread s" "u \<le> main_thread s" "thread_rank s' u < thread_rank s u"
    and "\<And>t. t \<le> main_thread s \<Longrightarrow> thread_rank s' t \<le> thread_rank s t"
  shows "shutdown_rank s' < shutdown_rank s"
  unfolding shutdown_rank_def assms(1) by (rule sum_strict_mono_ex1) (use assms in auto)

lemma shutdown_rank_bound: "shutdown_rank s \<le> 4 * (main_thread s + 1)"
proof -
  have "worker_rank w \<le> 2" "pc_rank p \<le> 2" for w p by (cases w; simp) (cases p; simp)
  then have "thread_rank s t \<le> 4" for t unfolding thread_rank_def by (metis add_mono numeral_Bit0)
  then have "(\<Sum>t \<le> main_thread s. thread_rank s t) \<le> (\<Sum>t \<le> main_thread s. 4)" by (intro sum_mono)
  then show ?thesis by (simp add: shutdown_rank_def)
qed

lemma notify_rank:
  "pc_rank (pcs (notify_new_work t q) u) \<le> pc_rank (pcs q u)" "pc_rank (pcs (notify_dispatched t q) u) \<le> pc_rank (pcs q u)"
  by (simp_all add: notify_new_work_def notify_dispatched_def)

text \<open>Once the queue does not block any more, every step inside it brings its thread closer to leaving it.\<close>

lemma queue_step_rank:
  assumes "queue_step e q q'" "e = Notify \<or> e = Wake \<or> e = SpuriousWake" "skip_waiting q"
  shows "\<exists>t. pcs q t \<noteq> Idle \<and> pc_rank (pcs q' t) < pc_rank (pcs q t) \<and> (\<forall>u. pc_rank (pcs q' u) \<le> pc_rank (pcs q u))"
  using assms
proof (cases rule: queue_step.cases)
  case (notify_new t)
  then show ?thesis using notify_rank(1) by (intro exI [of _ t]) (auto simp: notify_new_work_def)
next
  case (notify_disp t)
  then show ?thesis using notify_rank(2) by (intro exI [of _ t]) (auto simp: notify_dispatched_def)
next
  case (recheck_work t)
  then show ?thesis using assms(3) by (intro exI [of _ t]) (auto simp: wait_work_def)
next
  case (recheck_empty t)
  then show ?thesis using assms(3) by (intro exI [of _ t]) (auto simp: wait_empty_def)
next
  case (spurious_work t)
  then show ?thesis by (intro exI [of _ t]) auto
next
  case (spurious_empty t)
  then show ?thesis by (intro exI [of _ t]) auto
qed auto

lemma rank_move:
  assumes "t < main_thread s" "main_thread s' = main_thread s" "wpc s' = (wpc s)(t := w)"
    and "worker_rank w < worker_rank (wpc s t)" "calm_worker w" "pcs (tasks s') = pcs (tasks s)" "calm s"
  shows "calm s'" "shutdown_rank s' < shutdown_rank s"
  using assms by (auto simp: calm_def thread_rank_def intro!: shutdown_rank_less [of s' s t])

lemma rank_queue:
  assumes "pc_ok (main_thread s) (tasks s)" "skip_waiting (tasks s)" "queue_step e (tasks s) q"
    "e = Notify \<or> e = Wake \<or> e = SpuriousWake"
  shows "shutdown_rank (s\<lparr>tasks := q\<rparr>) < shutdown_rank s"
proof -
  from queue_step_rank [OF assms(3,4,2)] obtain t where t: "pcs (tasks s) t \<noteq> Idle"
      "pc_rank (pcs q t) < pc_rank (pcs (tasks s) t)" "\<forall>u. pc_rank (pcs q u) \<le> pc_rank (pcs (tasks s) u)" by blast
  then have "t \<le> main_thread s" using assms(1) by (metis linorder_not_less pc_ok_def)
  with t show ?thesis by (intro shutdown_rank_less [of _ s t]) (simp_all add: thread_rank_def)
qed

lemma calm_step:
  assumes inv: "sched_inv s" and m: "mpc s = M_Joining" and c: "calm s" and "fur_step A get past ev s s'"
  shows "mpc s' = M_Done \<or> mpc s' = M_Joining \<and> calm s' \<and> shutdown_rank s' < shutdown_rank s"
proof -
  have ok: "pc_ok (main_thread s) (tasks s)" and skip: "skip_waiting (tasks s)" and dead: "\<not> Runner_alive (workers s)"
    using inv m by (simp_all add: sched_inv_def Runner_alive_def)
  have calm_at: "calm_worker (wpc s t)" if "t < main_thread s" for t using c that by (simp add: calm_def)
  have not_ready: "\<not> main_ready s" using m by (simp add: main_ready_def)
  from assms(4) show ?thesis
  proof (cases rule: fur_step.cases)
    case (loop t)
    then have "wpc s' = (wpc s)(t := W_Exit)" "tasks s' = tasks s" "main_thread s' = main_thread s" "mpc s' = mpc s"
      using dead by (simp_all add: worker_loop_def)
    then show ?thesis using rank_move [OF loop(3) _ _ _ _ _ c, of s' W_Exit] loop(4) m by simp
  next
    case (wait t)
    have "pcs (wait_work t (tasks s)) = pcs (tasks s)" using skip wait(5) by (auto simp: wait_work_def)
    then show ?thesis using wait rank_move [OF wait(3) _ _ _ _ _ c, of s' W_Loop] m by (simp add: worker_wait_def)
  next
    case (finish t i n)
    have "wpc s' = (wpc s)(t := W_Loop)" "tasks s' = tasks s" "main_thread s' = main_thread s" "mpc s' = mpc s"
      using finish by (auto simp: worker_finish_def torrent_at_def split: option.splits)
    then show ?thesis using rank_move [OF finish(3) _ _ _ _ _ c, of s' W_Loop] finish(4) m by simp
  next
    case (queue e q)
    then show ?thesis using rank_queue [OF ok skip queue(3)] m c by (auto simp: calm_def)
  next
    case (spurious q)
    then show ?thesis using rank_queue [OF ok skip spurious(3)] m c by (auto simp: calm_def)
  next
    case (lookup t task)
    then show ?thesis using calm_at [of t] by simp
  next
    case (attempt t task ps ws i w)
    then show ?thesis using calm_at [of t] by simp
  next
    case (book t task i)
    then show ?thesis using calm_at [of t] by simp
  next
    case join
    then show ?thesis using shutdown_join_frame(6) by blast
  qed (use m not_ready in simp_all)
qed

text \<open>As long as the destructor has not returned there is something to do, and not only by a spurious wake-up.\<close>

lemma join_all_finished: "\<forall>t \<in> set ts. snd t = Finished \<Longrightarrow> \<exists>ts'. join_all ts = Some (Ret (), ts')"
  by (simp add: join_all_Ret_iff)

lemma calm_progress:
  assumes inv: "sched_inv s" and q: "reaches UNIV (tasks s)" and m: "mpc s = M_Joining" and c: "calm s"
  shows "\<exists>ev s'. ev \<noteq> Spurious \<and> fur_step A get past ev s s'"
proof -
  have ok: "pc_ok (main_thread s) (tasks s)" and skip: "skip_waiting (tasks s)" using inv m by (simp_all add: sched_inv_def)
  have busy: ?thesis if "queue_step e (tasks s) q'" "e = Notify \<or> e = Wake" for e q'
    using fur_step.queue [OF that] by blast
  show ?thesis
  proof (cases "\<forall>t < main_thread s. wpc s t = W_Exit")
    case True
    then have "\<forall>x \<in> set (threads (workers s)). snd x = Finished"
      using inv m by (simp add: sched_inv_def all_set_conv_all_nth main_thread_def)
    then obtain ts where "join_all (threads (workers s)) = Some (Ret (), ts)" using join_all_finished by blast
    then obtain s' where "shutdown_join s = Some (Ret s')" by (simp add: shutdown_join_def terminate_def)
    from fur_step.join [OF m this] show ?thesis by blast
  next
    case False
    then obtain t where t: "t < main_thread s" "wpc s t \<noteq> W_Exit" by blast
    show ?thesis
    proof (cases "pcs (tasks s) t")
      case Idle
      from c t(1) have "calm_worker (wpc s t)" by (simp add: calm_def)
      then show ?thesis
        using fur_step.loop [OF t(1) _ Idle] fur_step.wait [OF t(1) _ Idle] fur_step.finish [OF t(1)] t(2)
        by (cases "wpc s t") (simp_all, blast+)
    next
      case BlockedWork
      with skip reaches_work_wakeup [OF q] obtain u where "pcs (tasks s) u = NotifyNewWork" by (auto simp: work_wakeup_inv_def)
      from busy [OF queue_step.notify_new [OF this]] show ?thesis by blast
    next
      case NotifyNewWork
      from busy [OF queue_step.notify_new [OF this]] show ?thesis by blast
    next
      case NotifyDispatched
      from busy [OF queue_step.notify_disp [OF this]] show ?thesis by blast
    next
      case WokenWork
      from busy [OF queue_step.recheck_work [OF this]] show ?thesis by blast
    qed (use ok in \<open>simp_all add: pc_ok_def\<close>)
  qed
qed

text \<open>The runs of the client while the destructor has not returned.\<close>

inductive shutdown_run :: "'w asio \<Rightarrow> http \<Rightarrow> int option \<Rightarrow> Furrent \<Rightarrow> nat \<Rightarrow> Furrent \<Rightarrow> bool" for A get past s where
  here: "shutdown_run A get past s 0 s"
| more: "shutdown_run A get past s n s' \<Longrightarrow> mpc s' = M_Joining \<Longrightarrow> fur_step A get past ev s' s'' \<Longrightarrow>
    shutdown_run A get past s (Suc n) s''"

lemma shutdown_run_rank:
  assumes "shutdown_run A get past s n s'" "fur_reach A get past s" "mpc s = M_Joining" "calm s"
  shows "fur_reach A get past s' \<and> (mpc s' = M_Done \<and> n \<le> shutdown_rank s + 1 \<or>
    mpc s' = M_Joining \<and> calm s' \<and> n + shutdown_rank s' \<le> shutdown_rank s)"
  using assms
proof (induction rule: shutdown_run.induct)
  case (more n s' ev s'')
  then have "fur_reach A get past s'" "calm s'" "n + shutdown_rank s' \<le> shutdown_rank s" by auto
  with calm_step [OF fur_reach_sched more.hyps(2) _ more.hyps(3)] fur_reach.step [OF _ more.hyps(3)] show ?case by force
qed simp


text \<open>From a quiet state the main thread gets to the point where it joins the workers.\<close>

lemma shutdown_signalled:
  assumes "fur_reach A get past s" "mpc s = M_Idle" "pcs (tasks s) = (\<lambda>_. Idle)"
  obtains s' where "fur_reach A get past s'" "mpc s' = M_Joining" "wpc s' = wpc s" "main_thread s' = main_thread s"
    "disk_fs s' = disk_fs s"
proof -
  let ?s1 = "shutdown_skip s" and ?m = "main_thread s"
  let ?s2 = "?s1\<lparr>tasks := notify_new_work ?m (tasks ?s1)\<rparr>"
  have "main_ready s" using assms(2,3) by (simp add: main_ready_def)
  from fur_reach.step [OF assms(1) fur_step.shutdown [OF this]] have r1: "fur_reach A get past ?s1" .
  have "pcs (tasks ?s1) ?m = NotifyNewWork" by (simp add: shutdown_skip_def begin_skip_waiting_def force_wakeup_def)
  from fur_step.queue [OF queue_step.notify_new [OF this]] have r2: "fur_reach A get past ?s2"
    by (intro fur_reach.step [OF r1]) simp
  have "mpc ?s2 = M_Skipping" "pcs (tasks ?s2) (main_thread ?s2) = Idle"
    by (simp_all add: shutdown_frame notify_new_work_def)
  from fur_reach.step [OF r2 fur_step.signal [OF this]] show thesis
    by (rule that) (simp_all add: shutdown_frame)
qed


text \<open>
  C31. The loop over the peers never looks at the termination flag: while every attempt fails, a
  worker stays in it, and the destructor waits. A state is reachable in which the main thread
  joins the workers and from which runs of any length lead back to it.
\<close>

theorem shutdown_waits_for_peers:
  "\<exists>s. fur_reach script_asio demo_tracker None s \<and> mpc s = M_Joining \<and>
     (\<forall>n. shutdown_run script_asio demo_tracker None s n s)"
proof -
  obtain s0 s3 where d: "fur_reach script_asio demo_tracker None s0" "session script_asio demo_tracker None 0 (file_name demo_loaded demo_file) s0 s3"
    "wpc s3 = (\<lambda>_. W_Loop)(0 := W_Retry demo_job [demo_address] [1])" "pcs (tasks s3) = (\<lambda>_. Idle)"
    "workers s3 = workers demo_start" "mpc s3 = M_Idle" by (rule demo_retry)
  from shutdown_signalled [OF session_reach [OF d(1,2)] d(6,4)] obtain s where
    s: "fur_reach script_asio demo_tracker None s" "mpc s = M_Joining" "wpc s = wpc s3" "main_thread s = main_thread s3" by metis
  have m: "main_thread s3 = 1" using demo_workers(1) d(5) by (simp add: main_thread_def)
  have w: "wpc s 0 = W_Retry demo_job [demo_address] [1]" using s(3) d(3) by simp
  then have "set_wpc 0 (W_Retry demo_job [demo_address] [1]) s = s" by (simp add: set_wpc_def fun_upd_idem)
  then have "worker_attempt script_asio (script_of []) 0 0 demo_job [demo_address] [1] s = Some (Ret s)"
    by (simp add: worker_attempt_def vec_at_def demo_silent)
  from fur_step.attempt [OF _ w _ this] have "fur_step script_asio demo_tracker None Attempt s s"
    using s(4) m by (simp add: may_draw_def)
  then have "shutdown_run script_asio demo_tracker None s n s" for n
    by (induction n) (auto intro: shutdown_run.intros s(2))
  with s(1,2) show ?thesis by blast
qed

end
