(* ===== verification/Client_Progress.thy ===== *)
theory Client_Progress
  imports Client_Shutdown
begin

text \<open>
  Queued work is taken up: while the client is not being shut down, the workers and their
  notifications, however they are scheduled, come to rest after a bounded number of steps between
  attempts on peers, and at rest the queue is empty or every worker is trying its peers.
\<close>

section \<open>More about reachable states\<close>

text \<open>No operation pauses a torrent.\<close>

definition no_pause :: "Furrent \<Rightarrow> bool" where
  "no_pause s \<longleftrightarrow> (\<forall>i t. torrents s i = Some t \<longrightarrow> tstate t \<noteq> Paused)"

lemma no_pause_update: "no_pause s \<Longrightarrow> torrents s' = torrents s \<or> torrents s' = (torrents s)(i \<mapsto> t) \<and> tstate t \<noteq> Paused \<Longrightarrow> no_pause s'"
  by (auto simp: no_pause_def split: if_splits)

lemma no_pause_at:
  assumes "no_pause s" "torrent_at i s = (t, s1)"
  shows "no_pause s1" "tstate t \<noteq> Paused"
  using assms by (auto simp: no_pause_def torrent_at_def Torrent_empty_def split: option.splits if_splits)

lemma no_pause_add:
  assumes "no_pause s" "add_torrent get past fp s = (Ret r, s')"
  shows "no_pause s'"
  using assms(2)
proof (cases rule: add_torrent_Ret)
  case (failed e fs)
  then show ?thesis by (intro no_pause_update [OF assms(1)]) simp
next
  case (loaded td fs)
  from loaded(2) show ?thesis
    by (cases rule: start_torrent_Ret) (auto intro!: no_pause_update [OF assms(1), of _ "next_uid s"])
qed

lemma no_pause_step:
  assumes "no_pause s" "fur_step A get past ev s s'"
  shows "no_pause s'"
  using assms(2)
proof (cases rule: fur_step.cases)
  case (loop t)
  then show ?thesis using worker_loop_live(2) [of t s] by (intro no_pause_update [OF assms(1)]) simp
next
  case (wait t)
  then show ?thesis by (intro no_pause_update [OF assms(1)]) (simp add: worker_wait_def)
next
  case (lookup t task)
  obtain tor s1 where a: "torrent_at (pt_tid task) s = (tor, s1)" by (rule prod.exhaust)
  from lookup(5) have "torrents s' = torrents s1" by (auto simp: worker_lookup_def a split: if_splits)
  then show ?thesis by (intro no_pause_update [OF no_pause_at(1) [OF assms(1) a]]) simp
next
  case (attempt t task ps ws i w)
  then show ?thesis using worker_attempt_live(2) [OF attempt(2,3,5)] by (intro no_pause_update [OF assms(1)]) simp
next
  case (book t task k)
  from book(4) obtain n tor s1 tor' m where a: "torrent_at (pt_tid task) (s\<lparr>workers := n\<rparr>) = (tor, s1)"
    "atomic_add_peer_score k tor = Ret tor'" "torrents s' = (torrents s1)(pt_tid task \<mapsto> tor'\<lparr>pieces_processed := m\<rparr>)"
    by (auto simp: worker_book_def Let_def split: prod.splits)
  have "no_pause (s\<lparr>workers := n\<rparr>)" using assms(1) by (simp add: no_pause_def)
  note p = no_pause_at [OF this a(1)]
  then show ?thesis using a(3) acc_ok_score(2) [OF a(2)] by (intro no_pause_update [OF p(1)]) auto
next
  case (finish t i n)
  obtain tor s1 where a: "torrent_at i s = (tor, s1)" by (rule prod.exhaust)
  show ?thesis by (rule no_pause_update [OF no_pause_at(1) [OF assms(1) a], of _ i "tor\<lparr>tstate := Completed\<rparr>"])
      (auto simp: finish worker_finish_def a)
next
  case (add f r)
  then show ?thesis using no_pause_add [OF assms(1)] by simp
next
  case (remove_read i)
  obtain tor s1 where a: "torrent_at i s = (tor, s1)" by (rule prod.exhaust)
  show ?thesis by (rule no_pause_update [OF no_pause_at(1) [OF assms(1) a]]) (auto simp: remove_read remove_load_def a)
next
  case (remove_write i)
  obtain tor s1 where a: "torrent_at i s = (tor, s1)" by (rule prod.exhaust)
  show ?thesis by (rule no_pause_update [OF no_pause_at(1) [OF assms(1) a], of _ i "tor\<lparr>tstate := Stopped\<rparr>"])
      (auto simp: remove_write remove_store_def a)
next
  case (folder d r)
  then show ?thesis using set_download_folder_frame(1) [of d s "Ret r" s'] by (intro no_pause_update [OF assms(1)]) simp
next
  case join
  then show ?thesis using shutdown_join_frame(2) [OF join(3)] by (intro no_pause_update [OF assms(1)]) simp
qed (use assms(1) in \<open>simp_all add: no_pause_def remove_tasks_simps shutdown_frame\<close>)

lemma fur_reach_no_pause: "fur_reach A get past s \<Longrightarrow> no_pause s"
proof (induction rule: fur_reach.induct)
  case (init hw fs)
  then show ?case by (simp add: no_pause_def Furrent_init_def)
qed (rule no_pause_step)

text \<open>Until the destructor sets them the flags are not set, and no worker has returned.\<close>

definition open_inv :: "Furrent \<Rightarrow> bool" where
  "open_inv s \<longleftrightarrow> (stage (mpc s) = 0 \<longrightarrow> \<not> skip_waiting (tasks s)) \<and>
     (stage (mpc s) < 2 \<longrightarrow> Runner_alive (workers s) \<and> (\<forall>t. wpc s t \<noteq> W_Exit)) \<and>
     length (states (workers s)) = main_thread s \<and> (\<forall>t task k. wpc s t = W_Processed task k \<longrightarrow> 0 \<le> k)"

lemma open_inv_same:
  assumes inv: "open_inv s" and "skip_waiting (tasks s') = skip_waiting (tasks s)"
    "should_terminate (workers s') = should_terminate (workers s)" "length (states (workers s')) = length (states (workers s))"
    "main_thread s' = main_thread s" "stage (mpc s') = stage (mpc s)" "\<And>t. wpc s' t = W_Exit \<Longrightarrow> wpc s t = W_Exit"
    "\<And>t task k. wpc s' t = W_Processed task k \<Longrightarrow> wpc s t = W_Processed task k \<or> 0 \<le> k"
  shows "open_inv s'"
  unfolding open_inv_def
proof (intro conjI impI allI)
  fix t task k assume "wpc s' t = W_Processed task k"
  from assms(8) [OF this] inv show "0 \<le> k" by (auto simp: open_inv_def)
qed (use assms in \<open>auto simp: open_inv_def Runner_alive_def\<close>)

lemma launch_lengths: "length (states (snd (launch hw st n ThreadGroup_init))) = length (threads (snd (launch hw st n ThreadGroup_init)))"
  by (simp add: launch_def ThreadGroup_init_def Let_def)

lemma open_inv_init: "open_inv (Furrent_init hw fs)"
  by (simp add: open_inv_def Furrent_init_def main_thread_def launch_lengths SharedQueue_init_def Runner_alive_def)
    (simp add: launch_def ThreadGroup_init_def Let_def)

lemma open_inv_loop:
  assumes inv: "open_inv s" and t: "t < main_thread s"
  shows "open_inv (worker_loop t s)"
proof (cases "Runner_alive (workers s)")
  case True
  obtain r q where q: "try_extract LIFOPolicy_extract t (tasks s) = (r, q)" by (rule prod.exhaust)
  have "skip_waiting q = skip_waiting (tasks s)" using skip_waiting_ops(7) [of LIFOPolicy_extract t "tasks s"] by (simp add: q)
  then show ?thesis using True q by (intro open_inv_same [OF inv]) (auto simp: worker_loop_def split: Result.splits if_splits)
next
  case False
  then have "\<not> stage (mpc s) < 2" using inv by (auto simp: open_inv_def)
  then show ?thesis using False inv by (auto simp: open_inv_def worker_loop_def thread_exits_def main_thread_def)
qed

lemma open_inv_step:
  assumes inv: "open_inv s" and np: "no_pause s" and "fur_step A get past ev s s'"
  shows "open_inv s'"
  using assms(3)
proof (cases rule: fur_step.cases)
  case (loop t)
  then show ?thesis using open_inv_loop [OF inv] by simp
next
  case (wait t)
  then show ?thesis by (intro open_inv_same [OF inv]) (auto simp: worker_wait_def skip_waiting_ops split: if_splits)
next
  case (lookup t task)
  obtain tor s1 where a: "torrent_at (pt_tid task) s = (tor, s1)" by (rule prod.exhaust)
  have "s' = set_wpc t (W_Retry task (peers tor) (distribution tor)) s1"
    using lookup(5) no_pause_at(2) [OF np a] by (simp add: worker_lookup_def a)
  moreover have "s1 = s \<or> s1 = s\<lparr>torrents := (torrents s)(pt_tid task \<mapsto> tor)\<rparr>" using a by (auto simp: torrent_at_def split: option.splits)
  ultimately show ?thesis by (intro open_inv_same [OF inv]) (auto split: if_splits)
next
  case (attempt t task ps ws i w)
  have "0 \<le> i" using attempt(4) by (auto simp: may_draw_def split: if_splits)
  with attempt(5) show ?thesis by (intro open_inv_same [OF inv]) (auto simp: worker_attempt_def split: outcome.splits if_splits)
next
  case (book t task k)
  obtain n ts w where "s' = s\<lparr>workers := (workers s)\<lparr>states := (states (workers s))[t := n]\<rparr>, torrents := ts, wpc := (wpc s)(t := W_Counted (pt_tid task) w)\<rparr>"
    using book(4) by (auto simp: worker_book_def Let_def torrent_at_def set_wpc_def set_torrent_def split: option.splits)
  then show ?thesis by (intro open_inv_same [OF inv]) (auto simp: main_thread_def split: if_splits)
next
  case (finish t i n)
  then show ?thesis
    by (intro open_inv_same [OF inv]) (auto simp: worker_finish_def torrent_at_def set_torrent_def split: option.splits if_splits)
next
  case (add f r)
  then have "skip_waiting (tasks s') = skip_waiting (tasks s)"
    using add_torrent_queue(1) [OF add(4)] skip_waiting_emplace_all by (auto simp: skip_waiting_ops)
  then show ?thesis using add_torrent_queue(2-4) [OF add(4)] by (intro open_inv_same [OF inv]) (simp_all add: main_thread_def)
next
  case (folder d r)
  then show ?thesis using set_download_folder_frame [of d s "Ret r" s'] by (intro open_inv_same [OF inv]) simp_all
next
  case (remove i)
  then show ?thesis
    by (intro open_inv_same [OF inv]) (auto simp: main_ready_def remove_tasks_def skip_waiting_ops)
next
  case (remove_read i)
  then show ?thesis by (intro open_inv_same [OF inv]) (auto simp: remove_load_def torrent_at_def split: option.splits)
next
  case (remove_write i)
  then show ?thesis
    by (intro open_inv_same [OF inv]) (auto simp: remove_store_def torrent_at_def set_torrent_def split: option.splits)
next
  case (queue e q)
  then show ?thesis using skip_waiting_step [OF queue(3)] by (intro open_inv_same [OF inv]) auto
next
  case (spurious q)
  then show ?thesis using skip_waiting_step [OF spurious(3)] by (intro open_inv_same [OF inv]) auto
next
  case shutdown
  then show ?thesis using inv by (auto simp: open_inv_def main_ready_def shutdown_skip_def)
next
  case signal
  then show ?thesis using inv by (auto simp: open_inv_def shutdown_signal_def set_terminate_def main_thread_def)
next
  case join
  from join(3) obtain g where "terminate (workers s) = Some (Ret (), g)" "s' = s\<lparr>workers := g, mpc := M_Done\<rparr>"
    "length (threads g) = length (threads (workers s))" by (rule shutdown_join_state)
  then show ?thesis using inv by (auto simp: open_inv_def terminate_def set_terminate_def main_thread_def)
qed

lemma fur_reach_open: "fur_reach A get past s \<Longrightarrow> open_inv s"
proof (induction rule: fur_reach.induct)
  case (step s ev s')
  then show ?case using open_inv_step fur_reach_no_pause by blast
qed (rule open_inv_init)

section \<open>The steps between attempts are bounded\<close>

text \<open>
  How many steps a thread can still take by itself. The first argument says that the queue is
  empty: then a worker goes on to wait and blocks, otherwise it goes on to take a task.
\<close>

fun work_rank :: "bool \<Rightarrow> worker \<Rightarrow> nat" where
  "work_rank e W_Loop = (if e then 4 else 2)"
| "work_rank e W_Wait = (if e then 2 else 3)"
| "work_rank e (W_Got task) = 1"
| "work_rank e (W_Counted i n) = 5"
| "work_rank e (W_Processed task k) = 6"
| "work_rank e _ = 0"

fun rest_rank :: "bool \<Rightarrow> worker \<Rightarrow> pc \<Rightarrow> nat" where
  "rest_rank e w Idle = work_rank e w"
| "rest_rank e w BlockedWork = (if w = W_Loop then 0 else work_rank e w)"
| "rest_rank e w WokenWork = (if w = W_Loop then (if e then 1 else 4) else work_rank e w + 1)"
| "rest_rank e w _ = work_rank e w + 1"

definition pending :: "Furrent \<Rightarrow> nat" where
  "pending s = card {t. t \<le> main_thread s \<and> pcs (tasks s) t = NotifyNewWork} + length (work (tasks s))"

definition potential :: "Furrent \<Rightarrow> nat" where
  "potential s = 8 * (main_thread s + 1) * pending s +
     (\<Sum>t \<le> main_thread s. rest_rank (work (tasks s) = []) (wpc s t) (pcs (tasks s) t))"

lemma rest_rank_bound: "rest_rank e w p \<le> 7"
proof -
  have "work_rank e w \<le> 6" by (cases w) auto
  then show ?thesis by (cases p) auto
qed

lemma rest_sum_bound: "(\<Sum>t \<le> n. rest_rank e (f t) (g t)) \<le> 7 * (n + 1)"
  using sum_mono [of "{..n}" "\<lambda>t. rest_rank e (f t) (g t)" "\<lambda>_. 7"] rest_rank_bound by simp

lemma potential_bound: "potential s \<le> 8 * (main_thread s + 1) * (main_thread s + 2 + length (work (tasks s)))"
proof -
  have "card {t. t \<le> main_thread s \<and> pcs (tasks s) t = NotifyNewWork} \<le> card {..main_thread s}" by (rule card_mono) auto
  then have "pending s \<le> main_thread s + 1 + length (work (tasks s))" by (simp add: pending_def)
  then have "8 * (main_thread s + 1) * pending s \<le> 8 * (main_thread s + 1) * (main_thread s + 1 + length (work (tasks s)))"
    by (rule mult_le_mono2)
  moreover note rest_sum_bound [of "work (tasks s) = []" "wpc s" "pcs (tasks s)" "main_thread s"]
  ultimately show ?thesis unfolding potential_def by (simp add: algebra_simps)
qed

lemma potential_pending:
  assumes "main_thread s' = main_thread s" "pending s' < pending s"
  shows "potential s' < potential s"
proof -
  let ?n = "main_thread s"
  from assms(2) have "Suc (pending s') \<le> pending s" by simp
  then have "8 * (?n + 1) * Suc (pending s') \<le> 8 * (?n + 1) * pending s" by (rule mult_le_mono2)
  moreover note rest_sum_bound [of "work (tasks s') = []" "wpc s'" "pcs (tasks s')" ?n]
  ultimately show ?thesis unfolding potential_def assms(1) by simp
qed

lemma notifying_mono:
  assumes "\<And>u. p' u = NotifyNewWork \<Longrightarrow> p u = NotifyNewWork"
  shows "card {u. u \<le> (n :: nat) \<and> p' u = NotifyNewWork} \<le> card {u. u \<le> n \<and> p u = NotifyNewWork}"
  by (rule card_mono) (use assms in auto)

text \<open>A step of one thread that leaves the queued tasks alone.\<close>

lemma potential_move:
  assumes s': "main_thread s' = main_thread s" "work (tasks s') = work (tasks s)" and t: "t \<le> main_thread s"
    and others: "\<And>u. u \<noteq> t \<Longrightarrow> wpc s' u = wpc s u \<and> pcs (tasks s') u = pcs (tasks s) u"
    and new: "pcs (tasks s') t = NotifyNewWork \<Longrightarrow> pcs (tasks s) t = NotifyNewWork"
    and less: "rest_rank (work (tasks s) = []) (wpc s' t) (pcs (tasks s') t) < rest_rank (work (tasks s) = []) (wpc s t) (pcs (tasks s) t)"
  shows "potential s' < potential s"
proof -
  have "pcs (tasks s) u = NotifyNewWork" if "pcs (tasks s') u = NotifyNewWork" for u
    using that others [of u] new by (cases "u = t") simp_all
  then have "pending s' \<le> pending s" unfolding pending_def s' by (intro add_right_mono notifying_mono)
  then have "8 * (main_thread s + 1) * pending s' \<le> 8 * (main_thread s + 1) * pending s" by (rule mult_le_mono2)
  moreover have "(\<Sum>u \<le> main_thread s. rest_rank (work (tasks s) = []) (wpc s' u) (pcs (tasks s') u)) <
      (\<Sum>u \<le> main_thread s. rest_rank (work (tasks s) = []) (wpc s u) (pcs (tasks s) u))"
  proof (rule sum_strict_mono_ex1)
    show "\<forall>u \<in> {..main_thread s}. rest_rank (work (tasks s) = []) (wpc s' u) (pcs (tasks s') u)
        \<le> rest_rank (work (tasks s) = []) (wpc s u) (pcs (tasks s) u)"
    proof
      fix u show "rest_rank (work (tasks s) = []) (wpc s' u) (pcs (tasks s') u) \<le> rest_rank (work (tasks s) = []) (wpc s u) (pcs (tasks s) u)"
        using others [of u] less by (cases "u = t") simp_all
    qed
  qed (use t less in auto)
  ultimately show ?thesis unfolding potential_def s' by linarith
qed

lemma potential_loop:
  assumes t: "t < main_thread s" "wpc s t = W_Loop" "pcs (tasks s) t = Idle" and alive: "Runner_alive (workers s)"
  shows "potential (worker_loop t s) < potential s"
proof (cases "work (tasks s)")
  case Nil
  have "try_extract LIFOPolicy_extract t (tasks s) = (ERROR Empty, at t NotifyDispatched (tasks s))"
    using Nil by (cases "tasks s") (simp add: try_extract_def queue_extract_def queue_size_def)
  then have "worker_loop t s = set_wpc t W_Wait (s\<lparr>tasks := at t NotifyDispatched (tasks s)\<rparr>)"
    using alive by (simp add: worker_loop_def)
  then show ?thesis using t Nil by (intro potential_move [of _ s t]) simp_all
next
  case (Cons task w)
  define q where "q = (let q1 = (tasks s)\<lparr>work := w\<rparr> in if w = [] then at t NotifyDispatched q1 else q1)"
  have q: "try_extract LIFOPolicy_extract t (tasks s) = (OK task, q)" "work q = w" "pcs q t \<noteq> NotifyNewWork"
    "\<And>u. u \<noteq> t \<Longrightarrow> pcs q u = pcs (tasks s) u"
    using Cons t(3) by (simp_all add: q_def try_extract_def queue_extract_def queue_size_def LIFOPolicy_extract_def Let_def)
  then have l: "worker_loop t s = set_wpc t (W_Got task) (s\<lparr>tasks := q\<rparr>)" using alive by (simp add: worker_loop_def)
  have "pcs (tasks s) u = NotifyNewWork" if "pcs q u = NotifyNewWork" for u
    using that q(3,4) by (cases "u = t") simp_all
  then have "card {u. u \<le> main_thread s \<and> pcs q u = NotifyNewWork} \<le> card {u. u \<le> main_thread s \<and> pcs (tasks s) u = NotifyNewWork}"
    by (rule notifying_mono)
  then show ?thesis unfolding l using Cons q(2) by (intro potential_pending) (simp_all add: pending_def)
qed

lemma potential_queue:
  assumes ok: "pc_ok (main_thread s) (tasks s)" and skip: "\<not> skip_waiting (tasks s)"
    and "queue_step e (tasks s) q" "e = Notify \<or> e = Wake"
  shows "potential (s\<lparr>tasks := q\<rparr>) < potential s"
proof -
  have le: "t \<le> main_thread s" if "pcs (tasks s) t \<noteq> Idle" for t using ok that by (metis linorder_not_less pc_ok_def)
  have ne: "pcs (tasks s) t \<noteq> WokenEmpty" "pcs (tasks s) t \<noteq> BlockedEmpty" for t using ok by (simp_all add: pc_ok_def)
  from assms(3,4) show ?thesis
  proof (cases rule: queue_step.cases)
    case (notify_new t)
    let ?S = "{u. u \<le> main_thread s \<and> pcs (tasks s) u = NotifyNewWork}"
    have "{u. u \<le> main_thread s \<and> pcs q u = NotifyNewWork} = ?S - {t}" using notify_new by (auto simp: notify_new_work_def)
    moreover have "card (?S - {t}) < card ?S" using le [of t] notify_new(3) by (intro card_Diff1_less) auto
    ultimately show ?thesis using notify_new(2) by (intro potential_pending) (simp_all add: pending_def)
  next
    case (notify_disp t)
    then show ?thesis using le [of t] ne by (intro potential_move [of _ s t]) (auto simp: notify_dispatched_def)
  next
    case (recheck_work t)
    then show ?thesis using le [of t] skip by (intro potential_move [of _ s t]) (auto simp: wait_work_def split: if_splits)
  qed (use ne in simp_all)
qed

lemma inner_step:
  assumes inv: "open_inv s" "no_pause s" "pc_ok (main_thread s) (tasks s)" and m: "stage (mpc s) = 0"
    and st: "fur_step A get past ev s s'" "ev = Work \<or> ev = Queue"
  shows "potential s' < potential s \<and> mpc s' = mpc s"
proof -
  have skip: "\<not> skip_waiting (tasks s)" and alive: "Runner_alive (workers s)" using inv(1) m by (simp_all add: open_inv_def)
  from st show ?thesis
  proof (cases rule: fur_step.cases)
    case (loop t)
    then show ?thesis using potential_loop [OF loop(3-5) alive] by (simp add: worker_loop_frame)
  next
    case (wait t)
    then have "potential s' < potential s" using skip
      by (intro potential_move [of _ s t]) (auto simp: worker_wait_def wait_work_def split: if_splits)
    then show ?thesis using wait by (simp add: worker_wait_def)
  next
    case (lookup t task)
    obtain tor s1 where a: "torrent_at (pt_tid task) s = (tor, s1)" by (rule prod.exhaust)
    have "s' = set_wpc t (W_Retry task (peers tor) (distribution tor)) s1"
      using lookup(5) no_pause_at(2) [OF inv(2) a] by (simp add: worker_lookup_def a)
    moreover have "s1 = s \<or> s1 = s\<lparr>torrents := (torrents s)(pt_tid task \<mapsto> tor)\<rparr>" using a by (auto simp: torrent_at_def split: option.splits)
    ultimately have "main_thread s' = main_thread s" "tasks s' = tasks s" "mpc s' = mpc s"
      "wpc s' = (wpc s)(t := W_Retry task (peers tor) (distribution tor))" by auto
    with lookup show ?thesis using potential_move [of s' s t] by simp
  next
    case (book t task k)
    obtain n ts w where "s' = s\<lparr>workers := (workers s)\<lparr>states := (states (workers s))[t := n]\<rparr>, torrents := ts, wpc := (wpc s)(t := W_Counted (pt_tid task) w)\<rparr>"
      using book(4) by (auto simp: worker_book_def Let_def torrent_at_def set_wpc_def set_torrent_def split: option.splits)
    then have "main_thread s' = main_thread s" "tasks s' = tasks s" "mpc s' = mpc s" "wpc s' = (wpc s)(t := W_Counted (pt_tid task) w)"
      by (simp_all add: main_thread_def)
    with book show ?thesis using potential_move [of s' s t] by (cases "pcs (tasks s) t") simp_all
  next
    case (finish t i n)
    have "main_thread s' = main_thread s" "tasks s' = tasks s" "mpc s' = mpc s" "wpc s' = (wpc s)(t := W_Loop)"
      using finish by (auto simp: worker_finish_def torrent_at_def split: option.splits)
    with finish show ?thesis using potential_move [of s' s t] by (cases "pcs (tasks s) t") simp_all
  next
    case (queue e q)
    then show ?thesis using potential_queue [OF inv(3) skip queue(3,4)] by simp
  qed (use st(2) in simp_all)
qed

section \<open>At rest\<close>

text \<open>The counters of pieces have not reached the end of their range.\<close>

definition roomy :: "Furrent \<Rightarrow> bool" where
  "roomy s \<longleftrightarrow> (\<forall>n \<in> set (states (workers s)). in_int64 (n + 1)) \<and>
     (\<forall>i t. torrents s i = Some t \<longrightarrow> in_int64 (pieces_processed t + 1))"

lemma book_possible:
  assumes inv: "fur_inv s" "open_inv s" "roomy s" and t: "t < main_thread s" "wpc s t = W_Processed task k"
  shows "\<exists>s'. worker_book t task k s = Ret s'"
proof -
  have "task_args task \<in># live s" using held_in_live [OF t(1), of task] t(2) by simp
  from fur_inv_task [OF inv(1) this] obtain tor where tor: "torrents s (pt_tid task) = Some tor" by (auto simp: task_args_def)
  have k: "0 \<le> k" and n: "t < length (states (workers s))" using inv(2) t by (auto simp: open_inv_def)
  have "\<exists>tor'. atomic_add_peer_score k tor = Ret tor'"
    using k by (cases "k < int (length (peers_score tor))") (simp_all add: atomic_add_peer_score_def vec_at_def)
  then obtain tor' where tor': "atomic_add_peer_score k tor = Ret tor'" by blast
  have "in_int64 (states (workers s) ! t + 1)" "in_int64 (pieces_processed tor' + 1)"
    using inv(3) n tor acc_ok_score(2) [OF tor'] by (auto simp: roomy_def)
  then have "add64 (states (workers s) ! t) 1 = Ret (states (workers s) ! t + 1)"
    "add64 (pieces_processed tor') 1 = Ret (pieces_processed tor' + 1)" by simp_all
  then show ?thesis using n tor tor' by (simp add: worker_book_def torrent_at_def)
qed

lemma inner_progress:
  assumes reach: "fur_reach A get past s" and m: "stage (mpc s) = 0" "roomy s"
    and t: "t < main_thread s" "\<nexists>task ps ws. wpc s t = W_Retry task ps ws" and w: "work (tasks s) \<noteq> []"
  shows "\<exists>ev s'. (ev = Work \<or> ev = Queue) \<and> fur_step A get past ev s s'"
proof -
  note op = fur_reach_open [OF reach] and np = fur_reach_no_pause [OF reach]
  have ok: "pc_ok (main_thread s) (tasks s)" using fur_reach_sched [OF reach] by (simp add: sched_inv_def)
  have busy: ?thesis if "queue_step e (tasks s) q'" "e = Notify \<or> e = Wake" for e q'
    using fur_step.queue [OF that] by blast
  show ?thesis
  proof (cases "pcs (tasks s) t")
    case Idle
    have live: "wpc s t \<noteq> W_Exit" using op m(1) by (simp add: open_inv_def)
    have look: "\<exists>s'. worker_lookup t task s = Ret s'" for task
      using no_pause_at(2) [OF np] by (cases "torrent_at (pt_tid task) s") (auto simp: worker_lookup_def)
    have book: "\<exists>s'. worker_book t task k s = Ret s'" if "wpc s t = W_Processed task k" for task k
      using book_possible [OF fur_reach_inv [OF reach] op m(2) t(1) that] .
    show ?thesis
    proof (cases "wpc s t")
      case W_Loop
      from fur_step.loop [OF t(1) this Idle] show ?thesis by blast
    next
      case W_Wait
      from fur_step.wait [OF t(1) this Idle] show ?thesis by blast
    next
      case (W_Got task)
      from look [of task] fur_step.lookup [OF t(1) W_Got Idle] show ?thesis by blast
    next
      case (W_Processed task k)
      from book [OF this] fur_step.book [OF t(1) this] show ?thesis by blast
    next
      case (W_Counted i n)
      from fur_step.finish [OF t(1) this] show ?thesis by blast
    qed (use t(2) live in simp_all)
  next
    case BlockedWork
    with w reaches_work_wakeup [OF fur_reach_queue [OF reach]] obtain u where "pcs (tasks s) u = NotifyNewWork"
      by (auto simp: work_wakeup_inv_def)
    from busy [OF queue_step.notify_new [OF this]] show ?thesis by blast
  next
    case NotifyNewWork
    from busy [OF queue_step.notify_new [OF this]] show ?thesis by blast
  next
    case NotifyDispatched
    from busy [OF queue_step.notify_disp [OF this]] show ?thesis by blast
  next
    case WokenWork
    from busy [OF queue_step.recheck_work [OF this]] show ?thesis by blast
  qed (use ok in \<open>simp_all add: pc_ok_def\<close>)
qed

text \<open>The runs of workers and notifications without attempts on peers.\<close>

inductive inner_run :: "'w asio \<Rightarrow> http \<Rightarrow> int option \<Rightarrow> Furrent \<Rightarrow> nat \<Rightarrow> Furrent \<Rightarrow> bool" for A get past s where
  here: "inner_run A get past s 0 s"
| more: "inner_run A get past s n s' \<Longrightarrow> fur_step A get past ev s' s'' \<Longrightarrow> ev = Work \<or> ev = Queue \<Longrightarrow>
    inner_run A get past s (Suc n) s''"

lemma inner_run_potential:
  assumes "inner_run A get past s n s'" "fur_reach A get past s" "stage (mpc s) = 0"
  shows "fur_reach A get past s' \<and> mpc s' = mpc s \<and> n + potential s' \<le> potential s"
  using assms
proof (induction rule: inner_run.induct)
  case (more n s' ev s'')
  then have r: "fur_reach A get past s'" "mpc s' = mpc s" "n + potential s' \<le> potential s" by simp_all
  have "pc_ok (main_thread s') (tasks s')" using fur_reach_sched [OF r(1)] by (simp add: sched_inv_def)
  from inner_step [OF fur_reach_open [OF r(1)] fur_reach_no_pause [OF r(1)] this _ more.hyps(2,3)] more.prems(2) r(2)
  have "potential s'' < potential s'" "mpc s'' = mpc s" by simp_all
  with r fur_reach.step [OF r(1) more.hyps(2)] show ?case by simp
qed simp

text \<open>
  C6. Queued work is taken up, under every schedule: while the client is not being shut down, the
  workers and the notifications can take only a bounded number of steps without an attempt on a
  peer, and when they have come to rest the queue is empty or every worker is trying its peers. In
  particular no task stays in the queue because a worker sleeps through a notification.
\<close>

theorem queued_work_is_taken:
  assumes "fur_reach A get past s" "stage (mpc s) = 0" "inner_run A get past s n s'" "roomy s'"
  shows "n \<le> 8 * (main_thread s + 1) * (main_thread s + 2 + length (work (tasks s))) \<and>
    ((\<exists>ev s''. (ev = Work \<or> ev = Queue) \<and> fur_step A get past ev s' s'') \<or> work (tasks s') = [] \<or>
     (\<forall>t < main_thread s'. \<exists>task ps ws. wpc s' t = W_Retry task ps ws))"
proof -
  note r = inner_run_potential [OF assms(3,1,2)]
  then have "n \<le> potential s" by simp
  also note potential_bound
  finally show ?thesis using inner_progress [of A get past s'] r assms(2,4) by metis
qed

text \<open>The run of the demonstration: the one worker takes the one task.\<close>

theorem queued_work_is_taken_witness:
  "\<exists>s s'. fur_reach script_asio demo_tracker None s \<and> length (work (tasks s)) = 1 \<and> main_thread s = 1 \<and> stage (mpc s) = 0 \<and>
     inner_run script_asio demo_tracker None s 1 s' \<and> roomy s' \<and> (1 :: nat) \<le> 8 * (1 + 1) * (1 + 2 + 1) \<and>
     ((\<exists>ev s''. (ev = Work \<or> ev = Queue) \<and> fur_step script_asio demo_tracker None ev s' s'') \<or> work (tasks s') = [] \<or>
      (\<forall>t < main_thread s'. \<exists>task ps ws. wpc s' t = W_Retry task ps ws))"
proof -
  obtain s c where s: "add_torrent demo_tracker None ''t.torrent'' demo_start = (Ret (OK 0), s)"
    "torrents s = [0 \<mapsto> demo_torrent\<lparr>tstate := Downloading\<rparr>]" "work (tasks s) = [demo_job]"
    "pcs (tasks s) = (\<lambda>_. Idle)" "wpc s = (\<lambda>_. W_Loop)" "workers s = workers demo_start" "mpc s = M_Idle"
    "file_at (disk_fs s) (to_path (file_name demo_loaded demo_file)) = Some c" "length c = 3" by (rule demo_added)
  have w: "main_thread s = 1" "Runner_alive (workers s)" "states (workers s) = [0]"
    using demo_workers s(6) by (simp_all add: main_thread_def)
  have "fur_step script_asio demo_tracker None Add demo_start s"
    by (rule fur_step.add [OF _ _ s(1)]) (simp_all add: main_ready_def unlocked_def Furrent_init_def SharedQueue_init_def)
  then have r: "fur_reach script_asio demo_tracker None s" by (rule fur_reach.step [OF fur_reach.init])
  let ?s = "worker_loop 0 s"
  have "fur_step script_asio demo_tracker None Work s ?s" by (rule fur_step.loop) (simp_all add: w s(4,5))
  from inner_run.more [OF inner_run.here this] have i: "inner_run script_asio demo_tracker None s 1 ?s" by simp
  have "torrents ?s = torrents s" "workers ?s = workers s"
    using worker_loop_live(2) [of 0 s] w s(5) by (auto simp: worker_loop_def split: prod.split Result.split)
  then have room: "roomy ?s" by (simp add: roomy_def w(3) s(2) demo_torrent_def in_int64_def int64_max_def int64_min_def)
  have st: "stage (mpc s) = 0" by (simp add: s(7))
  from queued_work_is_taken [OF r st i room] r st i room w(1) s(3) show ?thesis
    by (intro exI [of _ s] exI [of _ ?s]) simp
qed

end
