(* ===== verification/Gui.thy ===== *)
theory Gui
  imports Demo_Run Complex_Main
begin

text \<open>
  The window and the program (gui/gui.hpp, gui/gui.cpp, gui/colors.hpp, main.cpp, config.hpp,
  util/singleton.hpp). Drawing and input are raylib's: what its calls report during one frame is
  a record \<open>ui\<close> that the definitions take as an argument, and of what is drawn only the contents
  of a row are kept, not where they are drawn. The steps of the program interleave the phases of a
  frame with the workers. The lemmas say that the rows of the window follow the torrents of the
  client, so that refreshing them never fails, and when the progress of a row is defined.
\<close>

section \<open>The window\<close>

record FileDialog =
  fileDialogActive :: bool
  SelectFilePressed :: bool
  fileNameText :: string
  dirPathText :: string

record GuiTorrentDialogState =
  play :: bool
  delete_torrent :: bool
  dialog_torrent :: TorrentGuiData

text \<open>Of the scroll vector only the vertical part is used; a float is a rational number.\<close>

record GuiScrollTorrentState =
  scroll :: rat
  rows :: "TorrentGuiData list"
  torrent_dialog_state :: GuiTorrentDialogState

record Window =
  title :: string
  width :: int
  height :: int
  button_file_dialog :: bool
  file_loader :: FileDialog
  scroller :: GuiScrollTorrentState

text \<open>
  What raylib reports in a frame: the button that opens the dialog, what the file dialog and the
  scroll panel do to their states, the test of a file's extension, the movement of the wheel, the
  delete button of each row, and the button of the message box (a negative number for none).
\<close>

record ui =
  open_button :: bool
  GuiFileDialog :: "FileDialog \<Rightarrow> FileDialog"
  IsFileExtension :: "string \<Rightarrow> string \<Rightarrow> bool"
  GuiScrollPanel :: "rat \<Rightarrow> rat"
  GetMouseWheelMove :: rat
  delete_button :: "nat \<Rightarrow> bool"
  GuiMessageBox :: int

definition no_torrent :: TorrentGuiData where
  "no_torrent = \<lparr>gd_tid = 0, gd_state = Loading, gd_filename = '''', gd_processed = 0, gd_count = 0\<rparr>"

definition Window_init :: "string \<Rightarrow> int \<Rightarrow> int \<Rightarrow> FileDialog \<Rightarrow> Window" where
  "Window_init t w h loader =
     \<lparr>title = t, width = w, height = h, button_file_dialog = False, file_loader = loader,
      scroller = \<lparr>scroll = 0, rows = [],
        torrent_dialog_state = \<lparr>play = False, delete_torrent = False, dialog_torrent = no_torrent\<rparr>\<rparr>\<rparr>"

definition set_rows :: "TorrentGuiData list \<Rightarrow> Window \<Rightarrow> Window" where
  "set_rows rs w = w\<lparr>scroller := (scroller w)\<lparr>rows := rs\<rparr>\<rparr>"

definition set_dialog :: "bool \<Rightarrow> TorrentGuiData \<Rightarrow> Window \<Rightarrow> Window" where
  "set_dialog open_it t w = w\<lparr>scroller := (scroller w)\<lparr>torrent_dialog_state :=
     (torrent_dialog_state (scroller w))\<lparr>delete_torrent := open_it, dialog_torrent := t\<rparr>\<rparr>\<rparr>"

section \<open>What is drawn\<close>

definition DOWNLOADING_COLOR_HEX :: int where "DOWNLOADING_COLOR_HEX = cast_int32 0x0091FFFF"
definition STOP_COLOR_HEX :: int where "STOP_COLOR_HEX = cast_int32 0xFFAF7AFF"
definition DONE_COLOR_HEX :: int where "DONE_COLOR_HEX = cast_int32 0x00FF5EFF"
definition ERROR_COLOR_HEX :: int where "ERROR_COLOR_HEX = cast_int32 0xFFA590FF"

definition item_name :: "TorrentGuiData \<Rightarrow> string" where
  "item_name t = (let name = ''Name: '' @ gd_filename t in
     if length name > 20 then take 20 name @ ''...'' else name)"

definition item_progress :: "TorrentGuiData \<Rightarrow> int outcome" where
  "item_progress t = obind (mul64 (gd_processed t) 100) (\<lambda>n. div64 n (gd_count t))"

text \<open>The colour, the text before and after the bar, and its value; nothing in the other states.\<close>

record ProgressBar =
  bar_color :: int
  bar_left :: string
  bar_right :: string
  bar_value :: int

definition item_bar :: "TorrentState \<Rightarrow> int \<Rightarrow> ProgressBar option" where
  "item_bar st progress =
     (let bar = (\<lambda>color label. Some \<lparr>bar_color = color, bar_left = int_to_string progress @ ''% '',
                    bar_right = label, bar_value = progress\<rparr>)
      in case st of
           Downloading \<Rightarrow> bar DOWNLOADING_COLOR_HEX ''#6#Downloading''
         | Completed \<Rightarrow> bar DONE_COLOR_HEX ''#112#Downloaded''
         | Stopped \<Rightarrow> bar STOP_COLOR_HEX ''#132#Stopped''
         | Error \<Rightarrow> bar ERROR_COLOR_HEX ''#113#Error''
         | _ \<Rightarrow> None)"

definition render_torrent_item :: "TorrentGuiData \<Rightarrow> (string \<times> ProgressBar option) outcome" where
  "render_torrent_item t = obind (item_progress t) (\<lambda>progress. Ret (item_name t, item_bar (gd_state t) progress))"

text \<open>
  The loop over the rows: those above the visible part are skipped. The result is what is drawn
  and the row whose delete button is pressed, the last one if there are several.
\<close>

fun render_torrents ::
  "ui \<Rightarrow> rat \<Rightarrow> rat \<Rightarrow> nat \<Rightarrow> TorrentGuiData list \<Rightarrow> TorrentGuiData option \<Rightarrow>
     ((string \<times> ProgressBar option) list \<times> TorrentGuiData option) outcome" where
  "render_torrents f y pos k [] pressed = Ret ([], pressed)"
| "render_torrents f y pos k (t # ts) pressed =
     (if pos + 50 < \<bar>y\<bar> then render_torrents f y (pos + 50) (k + 1) ts pressed
      else obind (render_torrent_item t) (\<lambda>item.
           obind (render_torrents f y (pos + 50) (k + 1) ts (if delete_button f k then Some t else pressed)) (\<lambda>(items, p).
             Ret (item # items, p))))"

definition render_base :: "ui \<Rightarrow> Window \<Rightarrow> ((string \<times> ProgressBar option) list \<times> Window) outcome" where
  "render_base f w =
     (let y = GuiScrollPanel f (scroll (scroller w));
          w1 = w\<lparr>button_file_dialog := open_button f, scroller := (scroller w)\<lparr>scroll := y\<rparr>\<rparr>
      in obind (render_torrents f y 5 0 (rows (scroller w1)) None) (\<lambda>(items, pressed).
           let w2 = (case pressed of Some t \<Rightarrow> set_dialog True t w1 | None \<Rightarrow> w1)
           in Ret (items, if GetMouseWheelMove f \<noteq> 0
                then w2\<lparr>scroller := (scroller w2)\<lparr>scroll := scroll (scroller w2) + GetMouseWheelMove f * 20\<rparr>\<rparr> else w2)))"

section \<open>The program\<close>

text \<open>
  Where the main thread is in \<open>Window::run\<close>: at the head of the loop, refreshing row \<open>k\<close>, before
  each of the three parts of a frame, inside the removal of a torrent, or past the loop.
\<close>

datatype gui_pc = G_Frame | G_Update nat | G_Base | G_File | G_Confirm | G_Removing TorrentID | G_Closed

record App =
  client :: Furrent
  window :: Window
  gpc :: gui_pc

text \<open>\<open>Singleton::instance\<close>: the object is constructed by the first call.\<close>

definition instance_of :: "'a \<Rightarrow> 'a option \<Rightarrow> 'a \<times> 'a option" where
  "instance_of fresh obj = (case obj of None \<Rightarrow> (fresh, Some fresh) | Some x \<Rightarrow> (x, Some x))"

definition DOWNLOAD_FOLDER :: string where
  "DOWNLOAD_FOLDER = ''output''"

text \<open>\<open>find_last_of\<close> gives the largest \<open>size_t\<close> when there is no slash, and one more is zero.\<close>

definition path_base :: "string \<Rightarrow> string" where
  "path_base argv_0 = rev (dropWhile (\<lambda>c. c \<noteq> CHR ''/'') (rev argv_0))"

definition main_start :: "int \<Rightarrow> FS \<Rightarrow> string \<Rightarrow> FileDialog \<Rightarrow> App outcome" where
  "main_start hardware_concurrency fs argv_0 loader =
     (let furrent = fst (instance_of (Furrent_init hardware_concurrency fs) None) in
      case set_download_folder (path_base argv_0 @ DOWNLOAD_FOLDER) furrent of
        (Ret (OK _), c) \<Rightarrow> Ret \<lparr>client = c, window = Window_init ''Furrent'' 800 600 loader, gpc = G_Frame\<rparr>
      | (Ret (ERROR _), c) \<Rightarrow> Throw logic_error
      | (Throw x, c) \<Rightarrow> Throw x
      | (UB u, c) \<Rightarrow> UB u)"

text \<open>The three functions that main hands to the window. The directory is not used.\<close>

definition insert_fn :: "http \<Rightarrow> int option \<Rightarrow> string \<Rightarrow> string \<Rightarrow> (Furrent, TorrentGuiData option) eff" where
  "insert_fn get past file_path dir_path =
     bind_eff (add_torrent get past file_path) (\<lambda>added.
       case added of ERROR e \<Rightarrow> ret None
       | OK i \<Rightarrow> (\<lambda>c. bind_eff (lift_outcome (get_gui_data i c)) (\<lambda>d. ret (Some d)) c))"

definition update_fn :: "TorrentID \<Rightarrow> Furrent \<Rightarrow> TorrentGuiData outcome" where
  "update_fn i c = get_gui_data i c"

definition remove_fn :: "TorrentGuiData \<Rightarrow> Furrent \<Rightarrow> Furrent" where
  "remove_fn t c = remove_torrent (gd_tid t) c"

text \<open>One turn of the loop that refreshes the rows.\<close>

definition update_row :: "nat \<Rightarrow> App \<Rightarrow> App outcome" where
  "update_row k a =
     (let rs = rows (scroller (window a)) in
      obind (update_fn (gd_tid (rs ! k)) (client a)) (\<lambda>d. Ret (a\<lparr>window := set_rows (rs[k := d]) (window a)\<rparr>)))"

definition poll_dialog :: "ui \<Rightarrow> Window \<Rightarrow> FileDialog" where
  "poll_dialog f w = (let l = GuiFileDialog f (file_loader w) in if button_file_dialog w then l\<lparr>fileDialogActive := True\<rparr> else l)"

definition render_file_dialog :: "http \<Rightarrow> int option \<Rightarrow> ui \<Rightarrow> (App, unit) eff" where
  "render_file_dialog get past f a =
     (let w = window a; l = poll_dialog f w in
      if \<not> SelectFilePressed l then (Ret (), a\<lparr>window := w\<lparr>file_loader := l\<rparr>\<rparr>)
      else if \<not> IsFileExtension f (fileNameText l) ''.torrent''
      then (Ret (), a\<lparr>window := w\<lparr>file_loader := l\<lparr>SelectFilePressed := False, fileDialogActive := True\<rparr>\<rparr>\<rparr>)
      else case insert_fn get past (fileNameText l) (dirPathText l) (client a) of
        (Ret item, c) \<Rightarrow>
          (let w1 = (case item of Some d \<Rightarrow> set_rows (rows (scroller w) @ [d]) w | None \<Rightarrow> w)
           in (Ret (), a\<lparr>client := c,
                 window := w1\<lparr>file_loader := l\<lparr>SelectFilePressed := False, fileDialogActive := False\<rparr>\<rparr>\<rparr>))
      | (Throw x, c) \<Rightarrow> (Throw x, a\<lparr>client := c, window := w\<lparr>file_loader := l\<rparr>\<rparr>)
      | (UB u, c) \<Rightarrow> (UB u, a\<lparr>client := c, window := w\<lparr>file_loader := l\<rparr>\<rparr>))"

text \<open>The dialog before a removal: its answer, and the rows that are erased afterwards.\<close>

definition answer_dialog :: "ui \<Rightarrow> Window \<Rightarrow> Window \<times> TorrentGuiData option" where
  "answer_dialog f w =
     (let d = torrent_dialog_state (scroller w); response = GuiMessageBox f in
      if \<not> delete_torrent d then (w, None)
      else if response = 0 \<or> response = 1 \<or> response = 2
      then (set_dialog False (dialog_torrent d) w, if response = 1 then Some (dialog_torrent d) else None)
      else (w, None))"

definition erase_rows :: "TorrentID \<Rightarrow> Window \<Rightarrow> Window" where
  "erase_rows i w = set_rows (filter (\<lambda>t. gd_tid t \<noteq> i) (rows (scroller w))) w"

text \<open>The whole function, when no worker acts during the removal.\<close>

definition render_confirm_dialog :: "ui \<Rightarrow> App \<Rightarrow> App" where
  "render_confirm_dialog f a =
     (case answer_dialog f (window a) of
        (w, None) \<Rightarrow> a\<lparr>window := w\<rparr>
      | (w, Some t) \<Rightarrow> a\<lparr>client := remove_fn t (client a), window := erase_rows (gd_tid t) w\<rparr>)"

text \<open>
  The steps of the program: the workers at any time, the phases of a frame in their order, and
  the destructor of the client after the loop.
\<close>

inductive app_step :: "'w asio \<Rightarrow> http \<Rightarrow> int option \<Rightarrow> App \<Rightarrow> App \<Rightarrow> bool" for A get past where
  workers: "fur_step A get past ev (client a) c \<Longrightarrow> ev \<in> {Work, Attempt, Queue, Spurious} \<Longrightarrow> app_step A get past a (a\<lparr>client := c\<rparr>)"
| frame: "gpc a = G_Frame \<Longrightarrow> app_step A get past a (a\<lparr>gpc := if clock_elapsed \<ge> (30 :: int) then G_Update 0 else G_Base\<rparr>)"
| update: "gpc a = G_Update k \<Longrightarrow> k < length (rows (scroller (window a))) \<Longrightarrow> update_row k a = Ret a' \<Longrightarrow>
    app_step A get past a (a'\<lparr>gpc := G_Update (k + 1)\<rparr>)"
| updated: "gpc a = G_Update k \<Longrightarrow> k = length (rows (scroller (window a))) \<Longrightarrow> app_step A get past a (a\<lparr>gpc := G_Base\<rparr>)"
| base: "gpc a = G_Base \<Longrightarrow> render_base f (window a) = Ret (items, w) \<Longrightarrow> app_step A get past a (a\<lparr>window := w, gpc := G_File\<rparr>)"
| load: "gpc a = G_File \<Longrightarrow> main_ready (client a) \<Longrightarrow> unlocked (client a) \<Longrightarrow> render_file_dialog get past f a = (Ret (), a') \<Longrightarrow>
    app_step A get past a (a'\<lparr>gpc := G_Confirm\<rparr>)"
| keep: "gpc a = G_Confirm \<Longrightarrow> answer_dialog f (window a) = (w, None) \<Longrightarrow> app_step A get past a (a\<lparr>window := w, gpc := G_Frame\<rparr>)"
| remove: "gpc a = G_Confirm \<Longrightarrow> main_ready (client a) \<Longrightarrow> answer_dialog f (window a) = (w, Some t) \<Longrightarrow>
    app_step A get past a (a\<lparr>client := remove_tasks (gd_tid t) (client a), window := w, gpc := G_Removing (gd_tid t)\<rparr>)"
| removing: "gpc a = G_Removing i \<Longrightarrow> mpc (client a) \<noteq> M_Idle \<Longrightarrow> fur_step A get past Remove (client a) c \<Longrightarrow>
    app_step A get past a (a\<lparr>client := c\<rparr>)"
| removed: "gpc a = G_Removing i \<Longrightarrow> mpc (client a) = M_Idle \<Longrightarrow>
    app_step A get past a (a\<lparr>window := erase_rows i (window a), gpc := G_Frame\<rparr>)"
| close: "gpc a = G_Frame \<Longrightarrow> app_step A get past a (a\<lparr>gpc := G_Closed\<rparr>)"
| ending: "gpc a = G_Closed \<Longrightarrow> fur_step A get past Shutdown (client a) c \<Longrightarrow> app_step A get past a (a\<lparr>client := c\<rparr>)"

inductive app_reach :: "'w asio \<Rightarrow> http \<Rightarrow> int option \<Rightarrow> App \<Rightarrow> bool" for A get past where
  start: "main_start hw fs argv_0 loader = Ret a \<Longrightarrow> app_reach A get past a"
| step: "app_reach A get past a \<Longrightarrow> app_step A get past a a' \<Longrightarrow> app_reach A get past a'"

section \<open>The client under the window\<close>

lemma set_rows_simps [simp]:
  "rows (scroller (set_rows rs w)) = rs" "rows (scroller (set_dialog b t w)) = rows (scroller w)"
  "rows (scroller (w\<lparr>file_loader := l\<rparr>)) = rows (scroller w)"
  by (simp_all add: set_rows_def set_dialog_def)

lemma render_base_rows: "render_base f w = Ret (items, w') \<Longrightarrow> rows (scroller w') = rows (scroller w)"
  by (auto simp: render_base_def Let_def split: if_splits option.splits)

lemma answer_dialog_rows: "answer_dialog f w = (w', r) \<Longrightarrow> rows (scroller w') = rows (scroller w)"
  by (auto simp: answer_dialog_def Let_def split: if_splits)

text \<open>The file dialog: nothing, or a call of \<open>add_torrent\<close> and possibly a new row.\<close>

lemma render_file_dialog_Ret:
  assumes "render_file_dialog get past f a = (Ret (), a')"
  obtains (nothing) "client a' = client a" "rows (scroller (window a')) = rows (scroller (window a))"
    | (failed) fp e where "add_torrent get past fp (client a) = (Ret (ERROR e), client a')"
        "rows (scroller (window a')) = rows (scroller (window a))"
    | (added) fp i d where "add_torrent get past fp (client a) = (Ret (OK i), client a')"
        "get_gui_data i (client a') = Ret d" "rows (scroller (window a')) = rows (scroller (window a)) @ [d]"
proof -
  define l where "l = poll_dialog f (window a)"
  note simps = render_file_dialog_def Let_def l_def [symmetric]
  show thesis
  proof (cases "SelectFilePressed l \<and> IsFileExtension f (fileNameText l) ''.torrent''")
    case False
    with assms have "client a' = client a" "rows (scroller (window a')) = rows (scroller (window a))"
      by (auto simp: simps split: if_splits)
    then show thesis by (rule nothing)
  next
    case True
    obtain out c where oc: "insert_fn get past (fileNameText l) (dirPathText l) (client a) = (out, c)" by (rule prod.exhaust)
    with assms True obtain item where "out = Ret item" by (cases out) (auto simp: simps)
    with oc have i: "insert_fn get past (fileNameText l) (dirPathText l) (client a) = (Ret item, c)" by simp
    have a': "client a' = c" "rows (scroller (window a')) = rows (scroller (window a)) @ (case item of Some d \<Rightarrow> [d] | None \<Rightarrow> [])"
      using assms True i by (auto simp: simps split: option.splits)
    from i obtain r c1 where r: "add_torrent get past (fileNameText l) (client a) = (Ret r, c1)"
        "(case r of ERROR e \<Rightarrow> ret None
          | OK i \<Rightarrow> (\<lambda>c. bind_eff (lift_outcome (get_gui_data i c)) (\<lambda>d. ret (Some d)) c)) c1 = (Ret item, c)"
      unfolding insert_fn_def by (rule bind_eff_Ret)
    show thesis
    proof (cases r)
      case (ERROR e)
      with r a' show thesis by (intro failed) auto
    next
      case (OK i)
      with r(2) obtain d where "get_gui_data i c1 = Ret d" "item = Some d" "c = c1"
        by (cases "get_gui_data i c1") (auto simp: bind_eff_def lift_outcome_def ret_def)
      with OK r(1) a' show thesis by (intro added) auto
    qed
  qed
qed

lemma main_start_client:
  assumes "main_start hw fs argv_0 loader = Ret a"
  shows "fur_reach A get past (client a)" "rows (scroller (window a)) = []" "gpc a = G_Frame"
proof -
  obtain r c where c: "set_download_folder (path_base argv_0 @ DOWNLOAD_FOLDER) (Furrent_init hw fs) = (r, c)" by (rule prod.exhaust)
  with assms have "r = Ret (OK ())" "a = \<lparr>client = c, window = Window_init ''Furrent'' 800 600 loader, gpc = G_Frame\<rparr>"
    by (auto simp: main_start_def instance_of_def Let_def split: outcome.splits Result.splits)
  moreover have "main_ready (Furrent_init hw fs)" by (simp add: main_ready_def Furrent_init_def SharedQueue_init_def)
  ultimately show "fur_reach A get past (client a)" "rows (scroller (window a)) = []" "gpc a = G_Frame"
    using fur_reach.step [OF fur_reach.init fur_step.folder] c by (auto simp: Window_init_def)
qed

text \<open>Every step of the program is a step of the client or leaves it alone.\<close>

lemma app_step_client:
  assumes "app_step A get past a a'"
  shows "client a' = client a \<or> (\<exists>ev. fur_step A get past ev (client a) (client a'))"
  using assms
proof (cases rule: app_step.cases)
  case (load f a2)
  from load(5) show ?thesis
    by (cases rule: render_file_dialog_Ret) (use load fur_step.add [OF load(3,4)] in \<open>auto; blast\<close>)+
next
  case (remove f w t)
  then have "fur_step A get past Remove (client a) (client a')" using fur_step.remove [OF remove(3)] by simp
  then show ?thesis by blast
qed (auto simp: update_row_def Let_def)

lemma app_reach_client: "app_reach A get past a \<Longrightarrow> fur_reach A get past (client a)"
proof (induction rule: app_reach.induct)
  case (step a a')
  then show ?case using app_step_client [OF step.hyps(2)] fur_reach.step by metis
qed (rule main_start_client)

section \<open>Rows and torrents\<close>

text \<open>The entries of the table stay, with their descriptors; counters do not go back.\<close>

definition grows :: "Furrent \<Rightarrow> Furrent \<Rightarrow> bool" where
  "grows s s' \<longleftrightarrow> next_uid s \<le> next_uid s' \<and>
     (\<forall>i t. i < next_uid s \<and> torrents s i = Some t \<longrightarrow>
        (\<exists>t'. torrents s' i = Some t' \<and> descriptor t' = descriptor t \<and> pieces_processed t \<le> pieces_processed t'))"

lemma grows_same: "torrents s' = torrents s \<Longrightarrow> next_uid s' = next_uid s \<Longrightarrow> grows s s'"
  by (simp add: grows_def)

lemma grows_update:
  assumes "torrents s' = (torrents s)(i \<mapsto> t')" "next_uid s \<le> next_uid s'"
    "\<And>t. i < next_uid s \<Longrightarrow> torrents s i = Some t \<Longrightarrow> descriptor t' = descriptor t \<and> pieces_processed t \<le> pieces_processed t'"
  shows "grows s s'"
  using assms by (auto simp: grows_def)

lemma add_torrent_torrents:
  assumes "add_torrent get past fp s = (Ret r, s')"
  shows "next_uid s' = next_uid s + 1"
    "torrents s' = torrents s \<or> (\<exists>t. torrents s' = (torrents s)(next_uid s \<mapsto> t))"
proof -
  from assms have "next_uid s' = next_uid s + 1 \<and> (torrents s' = torrents s \<or> (\<exists>t. torrents s' = (torrents s)(next_uid s \<mapsto> t)))"
  proof (cases rule: add_torrent_Ret)
    case (loaded td fs)
    from loaded(2) show ?thesis by (cases rule: start_torrent_Ret) auto
  qed simp
  then show "next_uid s' = next_uid s + 1" "torrents s' = torrents s \<or> (\<exists>t. torrents s' = (torrents s)(next_uid s \<mapsto> t))"
    by simp_all
qed

lemma torrent_at_grows: "torrent_at i s = (t, s') \<Longrightarrow> grows s s' \<and> torrents s' i = Some t \<and> next_uid s' = next_uid s"
  by (auto simp: torrent_at_def grows_def split: option.splits)

lemma growsE:
  assumes "grows s s'" "i < next_uid s" "torrents s i = Some t"
  obtains t' where "torrents s' i = Some t'" "descriptor t' = descriptor t" "pieces_processed t \<le> pieces_processed t'"
  using assms by (auto simp: grows_def)

lemma grows_trans: "grows s s' \<Longrightarrow> grows s' s'' \<Longrightarrow> grows s s''"
  unfolding grows_def [of s s'']
proof (intro conjI allI impI)
  assume g: "grows s s'" "grows s' s''"
  then have le: "next_uid s \<le> next_uid s'" "next_uid s' \<le> next_uid s''" by (simp_all add: grows_def)
  then show "next_uid s \<le> next_uid s''" by simp
  fix i t assume i: "i < next_uid s \<and> torrents s i = Some t"
  with g(1) obtain t' where t': "torrents s' i = Some t'" "descriptor t' = descriptor t" "pieces_processed t \<le> pieces_processed t'"
    by (elim growsE) auto
  moreover from i le have "i < next_uid s'" by simp
  with g(2) t'(1) obtain t'' where "torrents s'' i = Some t''" "descriptor t'' = descriptor t'"
    "pieces_processed t' \<le> pieces_processed t''" by (elim growsE) auto
  ultimately show "\<exists>t'. torrents s'' i = Some t' \<and> descriptor t' = descriptor t \<and> pieces_processed t \<le> pieces_processed t'"
    by auto
qed

text \<open>Looking up an entry and replacing it by one with the same descriptor.\<close>

lemma grows_at:
  assumes "torrent_at i s = (t, s1)" "torrents s' = torrents s1 \<or> torrents s' = (torrents s1)(i \<mapsto> t')"
    "descriptor t' = descriptor t" "pieces_processed t \<le> pieces_processed t'" "next_uid s' = next_uid s1"
  shows "grows s s'"
proof -
  note g = torrent_at_grows [OF assms(1)]
  have "grows s1 s'"
    using assms(2)
  proof
    assume "torrents s' = (torrents s1)(i \<mapsto> t')"
    then show ?thesis by (rule grows_update) (use assms(3-5) g in auto)
  qed (simp add: grows_same assms(5))
  with g show ?thesis by (blast intro: grows_trans)
qed

lemma fur_step_grows:
  assumes inv: "fur_inv s" and "fur_step A get past ev s s'"
  shows "grows s s'"
  using assms(2)
proof (cases rule: fur_step.cases)
  case (loop t)
  then show ?thesis using worker_loop_live [OF loop(3,4)] by (simp add: grows_same)
next
  case (wait t)
  then show ?thesis by (simp add: grows_same worker_wait_def)
next
  case (lookup t task)
  obtain tor s1 where a: "torrent_at (pt_tid task) s = (tor, s1)" by (rule prod.exhaust)
  from lookup(5) have "torrents s' = torrents s1" "next_uid s' = next_uid s1"
    by (auto simp: worker_lookup_def a split: if_splits)
  then show ?thesis by (intro grows_at [OF a, of _ tor]) simp_all
next
  case (attempt t task ps ws i w)
  then show ?thesis using worker_attempt_live [OF attempt(2,3,5)] by (simp add: grows_same)
next
  case (book t task k)
  have "task_args task \<in># live s" using held_in_live [OF book(2), of task] book(3) by simp
  from fur_inv_task [OF inv this] obtain tor where tor: "torrents s (pt_tid task) = Some tor" by (auto simp: task_args_def)
  from worker_book_live [OF book(2-4) tor] obtain tor' n where b: "next_uid s' = next_uid s"
    "atomic_add_peer_score k tor = Ret tor'" "n = pieces_processed tor' + 1"
    "torrents s' = (torrents s)(pt_tid task \<mapsto> tor'\<lparr>pieces_processed := n\<rparr>)" by blast
  show ?thesis by (rule grows_update [OF b(4)]) (use acc_ok_score(2) [OF b(2)] b tor in auto)
next
  case (finish t i n)
  obtain tor s1 where a: "torrent_at i s = (tor, s1)" by (rule prod.exhaust)
  show ?thesis
    by (rule grows_at [OF a, of _ "tor\<lparr>tstate := Completed\<rparr>"]) (auto simp: finish worker_finish_def a)
next
  case (add f r)
  then show ?thesis using add_torrent_torrents [OF add(4)]
    by (auto intro: grows_update simp: grows_def)
next
  case (remove_read i)
  obtain tor s1 where a: "torrent_at i s = (tor, s1)" by (rule prod.exhaust)
  show ?thesis by (rule grows_at [OF a, of _ tor]) (auto simp: remove_read remove_load_def a)
next
  case (remove_write i)
  obtain tor s1 where a: "torrent_at i s = (tor, s1)" by (rule prod.exhaust)
  show ?thesis by (rule grows_at [OF a, of _ "tor\<lparr>tstate := Stopped\<rparr>"]) (auto simp: remove_write remove_store_def a)
next
  case (folder d r)
  then show ?thesis using set_download_folder_frame [of d s "Ret r" s'] by (simp add: grows_same)
next
  case join
  then show ?thesis using shutdown_join_frame [OF join(3)] by (simp add: grows_same)
qed (simp_all add: grows_same remove_tasks_simps shutdown_frame)

text \<open>What a row shows was true when it was read, and the entry it was read from is still there.\<close>

definition row_ok :: "Furrent \<Rightarrow> TorrentGuiData \<Rightarrow> bool" where
  "row_ok c r \<longleftrightarrow> gd_tid r < next_uid c \<and>
     (\<exists>t. torrents c (gd_tid r) = Some t \<and> gd_filename r = tname (descriptor t) \<and> gd_count r = pieces_count (descriptor t) \<and>
        0 \<le> gd_processed r \<and> gd_processed r \<le> max 0 (gd_count r) \<and> gd_processed r \<le> pieces_processed t \<and>
        (gd_state r = Completed \<longrightarrow> gd_processed r = gd_count r))"

definition app_inv :: "App \<Rightarrow> bool" where
  "app_inv a \<longleftrightarrow> distinct (map gd_tid (rows (scroller (window a)))) \<and>
     (\<forall>r \<in> set (rows (scroller (window a))). row_ok (client a) r)"

lemma row_ok_grows:
  assumes "row_ok c r" "grows c c'"
  shows "row_ok c' r"
proof -
  from assms(1) obtain t where t: "gd_tid r < next_uid c" "torrents c (gd_tid r) = Some t" "gd_filename r = tname (descriptor t)"
    "gd_count r = pieces_count (descriptor t)" "0 \<le> gd_processed r" "gd_processed r \<le> max 0 (gd_count r)"
    "gd_processed r \<le> pieces_processed t" "gd_state r = Completed \<longrightarrow> gd_processed r = gd_count r" by (auto simp: row_ok_def)
  from assms(2) t(1,2) obtain t' where "torrents c' (gd_tid r) = Some t'" "descriptor t' = descriptor t"
    "pieces_processed t \<le> pieces_processed t'" by (rule growsE)
  moreover have "next_uid c \<le> next_uid c'" using assms(2) by (simp add: grows_def)
  ultimately show ?thesis using t by (auto simp: row_ok_def)
qed

lemma row_ok_read:
  assumes "fur_inv c" "get_gui_data i c = Ret d" "i < next_uid c"
  shows "row_ok c d" "gd_tid d = i"
proof -
  from assms(2) obtain t where t: "torrents c i = Some t" "d = \<lparr>gd_tid = i, gd_state = tstate t, gd_filename = tname (descriptor t),
      gd_processed = pieces_processed t, gd_count = pieces_count (descriptor t)\<rparr>"
    by (auto simp: get_gui_data_def split: option.splits)
  with fur_inv_acc [OF assms(1) t(1)] assms(3) show "row_ok c d" by (auto simp: row_ok_def acc_ok_def)
  show "gd_tid d = i" by (simp add: t(2))
qed

lemma row_ok_readable: "row_ok c r \<Longrightarrow> \<exists>d. get_gui_data (gd_tid r) c = Ret d"
  by (auto simp: row_ok_def get_gui_data_def)

lemma app_inv_client:
  assumes "app_inv a" "grows (client a) (client a')" "rows (scroller (window a')) = rows (scroller (window a))"
  shows "app_inv a'"
  using assms row_ok_grows by (auto simp: app_inv_def)

lemma app_inv_load:
  assumes inv: "app_inv a" "fur_inv (client a)" and "fur_inv (client a')" "render_file_dialog get past f a = (Ret (), a')"
  shows "app_inv a'"
  using assms(4)
proof (cases rule: render_file_dialog_Ret)
  case nothing
  then show ?thesis by (intro app_inv_client [OF inv(1)]) (simp_all add: grows_same)
next
  case (failed fp e)
  from add_torrent_torrents [OF failed(1)] have "grows (client a) (client a')" by (auto intro: grows_update simp: grows_def)
  then show ?thesis by (rule app_inv_client [OF inv(1) _ failed(2)])
next
  case (added fp i d)
  have i: "i = next_uid (client a)" by (rule add_torrent_OK [OF added(1)])
  from add_torrent_torrents [OF added(1)] have g: "grows (client a) (client a')" and n: "i < next_uid (client a')"
    using i by (auto intro: grows_update simp: grows_def)
  note d = row_ok_read [OF assms(3) added(2) n]
  have "gd_tid r < i" if "r \<in> set (rows (scroller (window a)))" for r using inv(1) that i by (simp add: app_inv_def row_ok_def)
  then show ?thesis using inv(1) added(3) d row_ok_grows [OF _ g] by (fastforce simp: app_inv_def)
qed

lemma app_inv_update:
  assumes inv: "app_inv a" "fur_inv (client a)" and k: "k < length (rows (scroller (window a)))" "update_row k a = Ret a'"
  shows "app_inv a'"
proof -
  let ?rs = "rows (scroller (window a))"
  from k(2) obtain d where d: "get_gui_data (gd_tid (?rs ! k)) (client a) = Ret d" "a' = a\<lparr>window := set_rows (?rs[k := d]) (window a)\<rparr>"
    by (auto simp: update_row_def update_fn_def Let_def)
  have "gd_tid (?rs ! k) < next_uid (client a)" using inv(1) k(1) by (simp add: app_inv_def row_ok_def)
  note r = row_ok_read [OF inv(2) d(1) this]
  have "map gd_tid (?rs[k := d]) = map gd_tid ?rs" using k(1) r(2) by (simp add: map_update list_update_same_conv)
  then show ?thesis using inv(1) d(2) r(1) set_update_subset_insert [of ?rs k d] by (auto simp: app_inv_def)
qed

lemma app_inv_step:
  assumes "app_reach A get past a" "app_step A get past a a'" "app_inv a"
  shows "app_inv a'"
proof -
  have c: "fur_inv (client a)" "fur_inv (client a')"
    using fur_reach_inv app_reach_client assms(1) app_reach.step [OF assms(1,2)] by blast+
  have g: "grows (client a) (client a')"
    using app_step_client [OF assms(2)] fur_step_grows [OF c(1)] grows_same by metis
  from assms(2) show ?thesis
  proof (cases rule: app_step.cases)
    case (update k a2)
    then have "app_inv a2" using app_inv_update [OF assms(3) c(1)] by simp
    then show ?thesis using update by (simp add: app_inv_def)
  next
    case (load f a2)
    then have "app_inv a2" using app_inv_load [OF assms(3) c(1)] c(2) by simp
    then show ?thesis using load by (simp add: app_inv_def)
  next
    case (base f items w)
    then show ?thesis using render_base_rows by (intro app_inv_client [OF assms(3) g]) auto
  next
    case (keep f w)
    then show ?thesis using answer_dialog_rows by (intro app_inv_client [OF assms(3) g]) auto
  next
    case (remove f w t)
    then show ?thesis using answer_dialog_rows by (intro app_inv_client [OF assms(3) g]) auto
  next
    case (removed i)
    then show ?thesis using assms(3) by (auto simp: app_inv_def erase_rows_def distinct_map_filter)
  qed (use app_inv_client [OF assms(3) g] in simp_all)
qed

lemma app_reach_inv: "app_reach A get past a \<Longrightarrow> app_inv a"
proof (induction rule: app_reach.induct)
  case (start hw fs argv_0 loader a)
  then show ?case using main_start_client(2) by (simp add: app_inv_def)
qed (rule app_inv_step)

end
