(* ===== verification/Gui_Rows.thy ===== *)
theory Gui_Rows
  imports Gui
begin

text \<open>
  The properties of the window, applied to runs of the program: the rows follow the torrents of the
  client, a row of a torrent with pieces shows a percentage, and a torrent with a negative piece
  length is accepted without pieces and makes the window divide by zero.
\<close>

section \<open>Runs with one row\<close>

definition loader_idle :: FileDialog where
  "loader_idle = \<lparr>fileDialogActive = False, SelectFilePressed = False, fileNameText = '''', dirPathText = ''''\<rparr>"

text \<open>The user picks the file in the dialog and does nothing else.\<close>

definition picks :: "string \<Rightarrow> ui" where
  "picks name = \<lparr>open_button = False,
     GuiFileDialog = (\<lambda>l. l\<lparr>SelectFilePressed := True, fileNameText := name\<rparr>),
     IsFileExtension = (\<lambda>name ext. take (length ext) (rev name) = rev ext), GuiScrollPanel = (\<lambda>y. y),
     GetMouseWheelMove = 0, delete_button = (\<lambda>_. False), GuiMessageBox = -1\<rparr>"

definition started :: "FS \<Rightarrow> Furrent" where
  "started fs = snd (set_download_folder ''output'' (Furrent_init 2 fs))"

lemma set_folder_started:
  assumes "fs = disk_with b"
  shows "set_download_folder ''output'' (Furrent_init 2 fs) = (Ret (OK ()), started fs)"
    "started fs = (Furrent_init 2 fs)\<lparr>disk_fs := set_node [''output''] (Some Dir) fs, download_folder := ''output''\<rparr>"
proof -
  have p: "to_path ''output'' = [''output'']" "ancestors [''output''] = [[''output'']]" by code_simp+
  have e: "exists_path ''output'' fs = (Ret (OK False), fs)"
    by (simp add: exists_path_def p assms disk_with_def node_at_def)
  have c: "create_directories ''output'' False fs = (Ret (OK ''output''), set_node [''output''] (Some Dir) fs)"
    by (simp add: create_directories_def p assms disk_with_def node_at_def make_dirs_def Let_def)
  have i: "disk_fs (Furrent_init 2 fs) = fs" by (simp add: Furrent_init_def)
  have "set_download_folder ''output'' (Furrent_init 2 fs) =
      (Ret (OK ()), (Furrent_init 2 fs)\<lparr>disk_fs := set_node [''output''] (Some Dir) fs, download_folder := ''output''\<rparr>)"
    by (simp add: set_download_folder_def bind_eff_def on_disk_def e c i)
  then show "set_download_folder ''output'' (Furrent_init 2 fs) = (Ret (OK ()), started fs)"
    "started fs = (Furrent_init 2 fs)\<lparr>disk_fs := set_node [''output''] (Some Dir) fs, download_folder := ''output''\<rparr>"
    by (simp_all add: started_def)
qed

text \<open>When the client accepts the file, the window has a row for it.\<close>

lemma one_row:
  assumes fs: "fs = disk_with b" and add: "add_torrent get past ''t.torrent'' (started fs) = (Ret (OK 0), c)"
    and d: "get_gui_data 0 c = Ret d"
  obtains a where "app_reach A get past a" "client a = c" "rows (scroller (window a)) = [d]" "gpc a = G_Confirm"
    "torrent_dialog_state (scroller (window a)) = \<lparr>play = False, delete_torrent = False, dialog_torrent = no_torrent\<rparr>"
    "scroll (scroller (window a)) = 0"
proof -
  let ?w = "Window_init ''Furrent'' 800 600 loader_idle"
  let ?a = "\<lparr>client = started fs, window = ?w, gpc = G_Frame\<rparr>"
  let ?f = "picks ''t.torrent''"
  have "path_base ''furrent'' @ DOWNLOAD_FOLDER = ''output''" by code_simp
  then have "main_start 2 fs ''furrent'' loader_idle = Ret ?a"
    using set_folder_started(1) [OF fs] by (simp add: main_start_def instance_of_def)
  then have r0: "app_reach A get past ?a" by (rule app_reach.start)
  have "app_step A get past ?a (?a\<lparr>gpc := G_Base\<rparr>)"
    using app_step.frame [of ?a A get past 0] by simp
  note r1 = app_reach.step [OF r0 this]
  have "rows (scroller ?w) = []" by (simp add: Window_init_def)
  then have "render_base ?f ?w = Ret ([], ?w)"
    by (simp add: render_base_def picks_def Let_def) (simp add: Window_init_def)
  then have "app_step A get past (?a\<lparr>gpc := G_Base\<rparr>) (?a\<lparr>gpc := G_File\<rparr>)"
    using app_step.base [of "?a\<lparr>gpc := G_Base\<rparr>" ?f "[]" ?w A get past] by simp
  note r2 = app_reach.step [OF r1 this]
  let ?l = "loader_idle\<lparr>fileNameText := ''t.torrent''\<rparr>"
  let ?a2 = "\<lparr>client = c, window = (set_rows [d] ?w)\<lparr>file_loader := ?l\<rparr>, gpc = G_File\<rparr>"
  have "insert_fn get past ''t.torrent'' '''' (started fs) = (Ret (Some d), c)"
    by (simp add: insert_fn_def add bind_eff_def d)
  then have "render_file_dialog get past ?f (?a\<lparr>gpc := G_File\<rparr>) = (Ret (), ?a2)"
    by (simp add: render_file_dialog_def picks_def poll_dialog_def loader_idle_def Window_init_def set_rows_def)
  moreover have "main_ready (started fs)" "unlocked (started fs)"
    using set_folder_started(2) [OF fs] by (simp_all add: main_ready_def unlocked_def Furrent_init_def SharedQueue_init_def)
  ultimately have "app_step A get past (?a\<lparr>gpc := G_File\<rparr>) (?a2\<lparr>gpc := G_Confirm\<rparr>)"
    by (intro app_step.load) simp_all
  from app_reach.step [OF r2 this] show thesis by (rule that) (simp_all, simp_all add: Window_init_def set_rows_def)
qed

text \<open>A torrent that has been loaded and whose pieces fit the queue becomes the row of its descriptor.\<close>

lemma added_row:
  assumes fs: "fs = disk_with b" and t: "t = \<lparr>tid = 0, descriptor = td, peers = [demo_address], peers_score = [1],
       update_interval = 60, tstate = Loading, pieces_processed = 0\<rparr>"
    and l: "load_torrent ''t.torrent'' ((started fs)\<lparr>next_uid := 1\<rparr>) =
       (Ret (OK td), (started fs)\<lparr>next_uid := 1, disk_fs := fs'\<rparr>)"
    and ps: "pieces None t = Ret ps" and em: "emplace_all 1 0 td ps SharedQueue_init = Ret q"
  obtains c where "add_torrent demo_tracker None ''t.torrent'' (started fs) = (Ret (OK 0), c)"
    "get_gui_data 0 c = Ret \<lparr>gd_tid = 0, gd_state = Downloading, gd_filename = tname td, gd_processed = 0, gd_count = pieces_count td\<rparr>"
proof -
  let ?s2 = "(started fs)\<lparr>next_uid := 1, disk_fs := fs'\<rparr>"
  have "parse_tracker_response (encode (tracker_reply 60 [demo_address])) = Ret (OK \<lparr>interval = 60, apeers = [demo_address]\<rparr>)"
    by code_simp
  then have an: "Torrent_of demo_tracker 0 td = Ret t"
    by (simp add: Torrent_of_def torrent_announce_def peer_announce_def demo_tracker_def t int64_max_def)
  have init: "torrents (started fs) = Map.empty" "tasks (started fs) = SharedQueue_init" "main_thread (started fs) = 1"
      "next_uid (started fs) = 0"
    using set_folder_started(2) [OF fs] by (simp_all add: Furrent_init_def main_thread_def threads_cnt_def launch_def
        launch_size_def ThreadGroup_init_def Let_def)
  let ?c = "(set_torrent 0 (t\<lparr>tstate := Downloading\<rparr>) ?s2)\<lparr>tasks := notify_new_work 1 (force_wakeup 1 q)\<rparr>"
  have "peers t = [demo_address]" "descriptor t = td" by (simp_all add: t)
  then have "start_torrent demo_tracker None 0 td ?s2 = (Ret (OK 0), ?c)"
    using init an ps em by (simp add: start_torrent_def bind_eff_def set_torrent_def main_thread_def
        del: emplace_all.simps One_nat_def)
  then have "add_torrent demo_tracker None ''t.torrent'' (started fs) = (Ret (OK 0), ?c)"
    using init(4) l by (simp add: add_torrent_def Let_def arith64 int64_max_def int64_min_def bind_eff_def)
  then show thesis by (rule that) (simp add: get_gui_data_def t)
qed

lemma load_started:
  assumes fs: "fs = disk_with (map byte_of_char text)" and d: "decode text = Ret (OK tree)" "TorrentFile_of tree = Ret td"
    and p: "prepare_torrent_files ''output'' td (disk_fs (started fs)) = (Ret (True, td'), fs')"
  shows "load_torrent ''t.torrent'' ((started fs)\<lparr>next_uid := 1\<rparr>) = (Ret (OK td'), (started fs)\<lparr>next_uid := 1, disk_fs := fs'\<rparr>)"
proof -
  let ?s = "(started fs)\<lparr>next_uid := 1\<rparr>"
  have s: "disk_fs ?s = set_node [''output''] (Some Dir) fs" "download_folder ?s = ''output''"
    using set_folder_started(2) [OF fs] by simp_all
  have "to_path ''t.torrent'' = [''t.torrent'']" by code_simp
  then have "load_file_text ''t.torrent'' (disk_fs ?s) = (Ret (OK text), disk_fs ?s)"
    unfolding s(1) unfolding fs by (simp add: load_file_text_def disk_with_def node_at_def set_node_def comp_def)
  then have "on_disk (load_file_text ''t.torrent'') ?s = (Ret (OK text), ?s)" by (simp add: on_disk_def)
  moreover have "on_disk (prepare_torrent_files ''output'' td) ?s = (Ret (True, td'), ?s\<lparr>disk_fs := fs'\<rparr>)"
    using p by (simp add: on_disk_def)
  ultimately show ?thesis using d s(2) by (simp add: load_torrent_def bind_eff_def)
qed

lemma prepare_output:
  assumes "fs = disk_with b"
  obtains fs' where "prepare_torrent_files ''output'' \<lparr>announce_url = u, info_hash = h, piece_hashes = ph, piece_length = pl, tlength = 3,
     pieces_count = n, tname = ''t'', folder_name = '''', files = [demo_file]\<rparr> (disk_fs (started fs)) =
     (Ret (True, \<lparr>announce_url = u, info_hash = h, piece_hashes = ph, piece_length = pl, tlength = 3,
     pieces_count = n, tname = ''t'', folder_name = ''output/t'', files = [demo_file]\<rparr>), fs')"
proof -
  have "fst (prepare_torrent_files ''output'' \<lparr>announce_url = u, info_hash = h, piece_hashes = ph, piece_length = pl, tlength = 3,
     pieces_count = n, tname = ''t'', folder_name = '''', files = [demo_file]\<rparr>
       (set_node [''output''] (Some Dir) (disk_with b))) =
     Ret (True, \<lparr>announce_url = u, info_hash = h, piece_hashes = ph, piece_length = pl, tlength = 3,
     pieces_count = n, tname = ''t'', folder_name = ''output/t'', files = [demo_file]\<rparr>)"
    by code_simp
  then show thesis
    using set_folder_started(2) [OF assms] assms
    by (intro that [of "snd (prepare_torrent_files _ _ _)"]) (simp add: prod_eq_iff)
qed

section \<open>The rows follow the client\<close>

text \<open>The run on the disk with the one-piece torrent, whose row shows nothing downloaded yet.\<close>

lemma demo_row:
  obtains a where "app_reach script_asio demo_tracker None a" "gpc a = G_Confirm"
    "rows (scroller (window a)) = [\<lparr>gd_tid = 0, gd_state = Downloading, gd_filename = ''t'', gd_processed = 0, gd_count = 1\<rparr>]"
proof -
  let ?td = "demo_desc\<lparr>info_hash := demo_hash, folder_name := ''output/t''\<rparr>"
  obtain fs' where "prepare_torrent_files ''output'' (demo_desc\<lparr>info_hash := demo_hash\<rparr>) (disk_fs (started demo_disk)) =
      (Ret (True, ?td), fs')"
    using prepare_output [OF demo_disk_def, of "announce_url demo_desc" demo_hash "piece_hashes demo_desc" 4 1]
    by (auto simp: demo_desc_def)
  from load_started [OF demo_disk_def decode_torrent_tree [OF demo_desc_sane]
      TorrentFile_of_torrent_tree [OF demo_desc_sane(1,2), folded demo_hash_def] this]
  have l: "load_torrent ''t.torrent'' ((started demo_disk)\<lparr>next_uid := 1\<rparr>) =
      (Ret (OK ?td), (started demo_disk)\<lparr>next_uid := 1, disk_fs := fs'\<rparr>)" .
  let ?t = "\<lparr>tid = 0, descriptor = ?td, peers = [demo_address], peers_score = [1],
       update_interval = 60, tstate = Loading, pieces_processed = 0\<rparr>"
  have "one_file ?td demo_file"
    using demo_one_file by (auto simp: one_file_def partition_ok_def demo_loaded_def)
  then have ps: "pieces None ?t = Ret [file_piece ?td demo_file 0]"
    using single_file_pieces [of ?t demo_file None] by (simp add: one_file_def) (simp add: demo_desc_def)
  have "\<exists>q. emplace_all 1 0 ?td [file_piece ?td demo_file 0] SharedQueue_init = Ret q"
    by (simp add: emplace_task_def shared_emplace_def queue_emplace_def SharedQueue_init_def int64_max_def)
  then obtain q where em: "emplace_all 1 0 ?td [file_piece ?td demo_file 0] SharedQueue_init = Ret q" ..
  obtain c where "add_torrent demo_tracker None ''t.torrent'' (started demo_disk) = (Ret (OK 0), c)"
    "get_gui_data 0 c = Ret \<lparr>gd_tid = 0, gd_state = Downloading, gd_filename = tname ?td, gd_processed = 0, gd_count = pieces_count ?td\<rparr>"
    by (rule added_row [OF demo_disk_def refl l ps em])
  then show thesis
    by (rule one_row [OF demo_disk_def, where A = script_asio]) (rule that, simp_all add: demo_desc_def)
qed

text \<open>
  C14. The rows of the window follow the client: in every state the program reaches, no torrent has
  two rows; the torrent of every row is in the client's table, with the name and the number of
  pieces that the row shows and at least as many processed pieces; and reading the data of a row
  again never fails, whatever the workers do and whichever torrents were added and removed.
\<close>

theorem gui_rows_follow_client:
  assumes "app_reach A get past a" "k < length (rows (scroller (window a)))"
  shows "distinct (map gd_tid (rows (scroller (window a)))) \<and>
    (let r = rows (scroller (window a)) ! k in
       (\<exists>t. torrents (client a) (gd_tid r) = Some t \<and> gd_filename r = tname (descriptor t) \<and>
          gd_count r = pieces_count (descriptor t) \<and> gd_processed r \<le> pieces_processed t)) \<and>
    (\<exists>a'. update_row k a = Ret a' \<and> app_inv a')"
proof -
  note inv = app_reach_inv [OF assms(1)]
  have r: "row_ok (client a) (rows (scroller (window a)) ! k)" using inv assms(2) by (simp add: app_inv_def)
  then obtain d where "get_gui_data (gd_tid (rows (scroller (window a)) ! k)) (client a) = Ret d"
    using row_ok_readable by blast
  then obtain a' where u: "update_row k a = Ret a'" by (simp add: update_row_def update_fn_def Let_def)
  have "app_inv a'"
    using app_inv_update [OF inv fur_reach_inv [OF app_reach_client [OF assms(1)]] assms(2) u] .
  with u r inv show ?thesis by (auto simp: app_inv_def row_ok_def Let_def)
qed

theorem gui_rows_follow_client_witness:
  "\<exists>a r. app_reach script_asio demo_tracker None a \<and> rows (scroller (window a)) = [r] \<and>
     (\<exists>t. torrents (client a) (gd_tid r) = Some t \<and> gd_filename r = tname (descriptor t)) \<and>
     (\<exists>a'. update_row 0 a = Ret a')"
proof -
  obtain a where a: "app_reach script_asio demo_tracker None a" "gpc a = G_Confirm"
    "rows (scroller (window a)) = [\<lparr>gd_tid = 0, gd_state = Downloading, gd_filename = ''t'', gd_processed = 0, gd_count = 1\<rparr>]"
    by (rule demo_row)
  have "0 < length (rows (scroller (window a)))" using a(3) by simp
  from gui_rows_follow_client [OF a(1) this] a(1,3) show ?thesis by (intro exI [of _ a]) auto
qed

section \<open>The percentage of a row\<close>

text \<open>
  C15. The percentage of a row: for a torrent with at least one piece, and few enough for the
  product with 100 not to overflow, drawing the row never fails, the percentage is between 0 and
  100, and it is 100 when the row says that the torrent is downloaded.
\<close>

theorem gui_progress_bounds:
  assumes "app_reach A get past a" "r \<in> set (rows (scroller (window a)))" "0 < gd_count r" "gd_count r \<le> int64_max div 100"
  shows "\<exists>p. item_progress r = Ret p \<and> render_torrent_item r = Ret (item_name r, item_bar (gd_state r) p) \<and>
    0 \<le> p \<and> p \<le> 100 \<and> (gd_state r = Completed \<longrightarrow> p = 100)"
proof -
  have r: "0 \<le> gd_processed r" "gd_processed r \<le> gd_count r" "gd_state r = Completed \<longrightarrow> gd_processed r = gd_count r"
    using app_reach_inv [OF assms(1)] assms(2,3) by (auto simp: app_inv_def row_ok_def)
  let ?p = "gd_processed r * 100 div gd_count r"
  have "gd_processed r * 100 \<le> int64_max" using r(2) assms(4) by linarith
  moreover have p: "0 \<le> ?p" "?p \<le> 100"
    using r assms(3) zdiv_mono1 [of "gd_processed r * 100" "gd_count r * 100" "gd_count r"]
    by (simp_all add: pos_imp_zdiv_nonneg_iff)
  moreover have "gd_processed r * 100 sdiv gd_count r = ?p" using r(1) assms(3) by (intro sdiv_nonneg) simp_all
  ultimately have "item_progress r = Ret ?p"
    using r(1) assms(3) by (simp add: item_progress_def arith64 int64_max_def int64_min_def)
  then show ?thesis using p r(3) assms(3) by (intro exI [of _ ?p]) (auto simp: render_torrent_item_def)
qed

theorem gui_progress_bounds_witness:
  "\<exists>a r p. app_reach script_asio demo_tracker None a \<and> r \<in> set (rows (scroller (window a))) \<and> gd_count r = 1 \<and>
     item_progress r = Ret p \<and> 0 \<le> p \<and> p \<le> 100"
proof -
  obtain a where a: "app_reach script_asio demo_tracker None a" "gpc a = G_Confirm"
    "rows (scroller (window a)) = [\<lparr>gd_tid = 0, gd_state = Downloading, gd_filename = ''t'', gd_processed = 0, gd_count = 1\<rparr>]"
    by (rule demo_row)
  have "\<lparr>gd_tid = 0, gd_state = Downloading, gd_filename = ''t'', gd_processed = 0, gd_count = 1\<rparr> \<in>
      set (rows (scroller (window a)))" using a(3) by simp
  from gui_progress_bounds [OF a(1) this] a show ?thesis by (force simp: int64_max_def)
qed

section \<open>A torrent without pieces\<close>

definition negative_desc :: TorrentFile where
  "negative_desc = \<lparr>announce_url = ''t'', info_hash = [], piece_hashes = [], piece_length = -5,
     tlength = 3, pieces_count = 0, tname = ''t'', folder_name = '''', files = [demo_file]\<rparr>"

definition negative_disk :: FS where
  "negative_disk = disk_with (map byte_of_char (encode (torrent_tree negative_desc)))"

lemma negative_accepted:
  obtains h where "TorrentFile_of (torrent_tree negative_desc) = Ret (negative_desc\<lparr>info_hash := h\<rparr>)"
proof -
  have "length (encode (info_tree negative_desc)) \<le> 200" by code_simp
  then have "length (encode (info_tree negative_desc)) < 2 ^ 29" by simp
  note h = compute_info_hash_small [OF this]
  have "split_piece_hashes '''' = OK []" "cast_int32 (-5) = -5" "(-3 :: int) sdiv -5 = 0" by code_simp+
  with h show thesis
    by (intro that [of "sha1 (map byte_of_char (encode (info_tree negative_desc)))"])
      (simp add: TorrentFile_of_def torrent_tree_def info_tree_def file_tree_def negative_desc_def dict_at_def
        read_layout_def read_file_entry_def arith64 int64_max_def int64_min_def)
qed

text \<open>
  C33. The window divides by the number of pieces. A torrent file whose piece length is negative can
  pass the constructor of the descriptor with no pieces at all; the client accepts it and the user
  sees a row for it, and the next frame that draws this row divides by zero.
\<close>

theorem zero_pieces_divide_by_zero:
  "\<exists>a r. app_reach script_asio demo_tracker None a \<and> gpc a = G_Base \<and> rows (scroller (window a)) = [r] \<and>
     gd_count r = 0 \<and> render_base (picks '''') (window a) = UB DivByZero"
proof -
  let ?fs = negative_disk
  obtain h where T: "TorrentFile_of (torrent_tree negative_desc) = Ret (negative_desc\<lparr>info_hash := h\<rparr>)" by (rule negative_accepted)
  let ?td = "negative_desc\<lparr>info_hash := h, folder_name := ''output/t''\<rparr>"
  obtain fs' where p: "prepare_torrent_files ''output'' (negative_desc\<lparr>info_hash := h\<rparr>) (disk_fs (started ?fs)) = (Ret (True, ?td), fs')"
    using prepare_output [OF negative_disk_def, of "''t''" h "[]" "-5" 0] by (auto simp: negative_desc_def)
  have "decode (encode (torrent_tree negative_desc)) = Ret (OK (torrent_tree negative_desc))" by code_simp
  note l = load_started [OF negative_disk_def this T p]
  let ?t = "\<lparr>tid = 0, descriptor = ?td, peers = [demo_address], peers_score = [1],
       update_interval = 60, tstate = Loading, pieces_processed = 0\<rparr>"
  have ps: "pieces None ?t = Ret []" by (simp add: pieces_def negative_desc_def vec_at_def)
  have em: "emplace_all 1 0 ?td [] SharedQueue_init = Ret SharedQueue_init" by simp
  obtain c where c: "add_torrent demo_tracker None ''t.torrent'' (started ?fs) = (Ret (OK 0), c)"
    "get_gui_data 0 c = Ret \<lparr>gd_tid = 0, gd_state = Downloading, gd_filename = tname ?td, gd_processed = 0, gd_count = pieces_count ?td\<rparr>"
    by (rule added_row [OF negative_disk_def refl l ps em])
  let ?r = "\<lparr>gd_tid = 0, gd_state = Downloading, gd_filename = tname ?td, gd_processed = 0, gd_count = pieces_count ?td\<rparr>"
  from c obtain a where a: "app_reach script_asio demo_tracker None a" "rows (scroller (window a)) = [?r]" "gpc a = G_Confirm"
    "torrent_dialog_state (scroller (window a)) = \<lparr>play = False, delete_torrent = False, dialog_torrent = no_torrent\<rparr>"
    "scroll (scroller (window a)) = 0" by (rule one_row [OF negative_disk_def, where A = script_asio])
  have "answer_dialog (picks '''') (window a) = (window a, None)" by (simp add: answer_dialog_def a(4))
  from app_reach.step [OF a(1) app_step.keep [OF a(3) this]]
  have r1: "app_reach script_asio demo_tracker None (a\<lparr>gpc := G_Frame\<rparr>)" by simp
  have "app_step script_asio demo_tracker None (a\<lparr>gpc := G_Frame\<rparr>) (a\<lparr>gpc := G_Base\<rparr>)"
    using app_step.frame [of "a\<lparr>gpc := G_Frame\<rparr>" script_asio demo_tracker None 0] by simp
  from app_reach.step [OF r1 this] have "app_reach script_asio demo_tracker None (a\<lparr>gpc := G_Base\<rparr>)" .
  moreover have "pieces_count ?td = 0" by (simp add: negative_desc_def)
  then have "render_base (picks '''') (window a) = UB DivByZero"
    using a(2,5) by (simp add: render_base_def picks_def Let_def render_torrent_item_def item_progress_def arith64
        int64_max_def int64_min_def)
  ultimately show ?thesis using a(2) \<open>pieces_count ?td = 0\<close> by (intro exI [of _ "a\<lparr>gpc := G_Base\<rparr>"] exI [of _ ?r]) simp
qed

end
