(* ===== verification/Gui_Draw.thy ===== *)
theory Gui_Draw
  imports Gui
begin

text \<open>
  What the window draws (gui/gui.cpp, gui/colors.hpp): the calls of raylib in one frame, with their
  places and colours, as a list. Coordinates are rational numbers. The lemmas say that the calls
  draw the rows that \<open>render_base\<close> computes, that the styles after a frame are those of
  \<open>configure_style\<close>, and that no two buttons overlap, so that a click asks for the removal of the
  torrent under the mouse.
\<close>

section \<open>The calls of the library\<close>

definition DARK_BROWN_HEX :: int where "DARK_BROWN_HEX = cast_int32 0x876645FF"
definition ORANGE_HEX :: int where "ORANGE_HEX = cast_int32 0xD27607FF"
definition LIGHT_BACKGROUND_HEX :: int where "LIGHT_BACKGROUND_HEX = cast_int32 0xF6F2EEFF"
definition DARK_BACKGROUND_HEX :: int where "DARK_BACKGROUND_HEX = cast_int32 0xBA9978FF"
definition PRESSED_BACKGROUND_HEX :: int where "PRESSED_BACKGROUND_HEX = cast_int32 0xEDE9E0FF"
definition WINDOW_BORDER :: int where "WINDOW_BORDER = 5"

record Rectangle =
  rx :: rat
  ry :: rat
  rw :: rat
  rh :: rat

text \<open>\<open>GetColor\<close> and \<open>Fade\<close> are raylib's, as are the named colours: a colour is how it was made.\<close>

datatype Color = GetColor int | Fade Color rat | WHITE | GRAY | RAYWHITE

definition DARK_BROWN_COLOR :: Color where "DARK_BROWN_COLOR = GetColor DARK_BROWN_HEX"
definition DARK_BACKGROUND_COLOR :: Color where "DARK_BACKGROUND_COLOR = GetColor DARK_BACKGROUND_HEX"
definition PRESSED_BACKGROUND_COLOR :: Color where "PRESSED_BACKGROUND_COLOR = GetColor PRESSED_BACKGROUND_HEX"
definition DIALOG_BACKGROUND_COLOR :: Color where "DIALOG_BACKGROUND_COLOR = Fade PRESSED_BACKGROUND_COLOR (85 / 100)"

datatype Control = DEFAULT | PROGRESSBAR

datatype Style = TEXT_SIZE | BACKGROUND_COLOR | LINE_COLOR
  | BASE_COLOR_NORMAL | TEXT_COLOR_NORMAL | BORDER_COLOR_NORMAL
  | BASE_COLOR_PRESSED | TEXT_COLOR_PRESSED | BORDER_COLOR_PRESSED
  | BASE_COLOR_FOCUSED | TEXT_COLOR_FOCUSED | BORDER_COLOR_FOCUSED
  | TEXT_COLOR_DISABLED | BORDER_COLOR_DISABLED

datatype Align = TEXT_ALIGN_LEFT | TEXT_ALIGN_CENTER

datatype Draw =
    ClearBackground Color
  | DrawTexture string int int Color
  | GuiSetFont string
  | GuiSetStyle Control Style int
  | GuiDrawText string Rectangle Align Color
  | GuiDrawRectangle Rectangle int Color Color
  | DrawRectangle int int int int Color
  | GuiLine Rectangle
  | GuiProgressBar Rectangle ProgressBar rat rat
  | GuiButton Rectangle string
  | DrawScrollPanel Rectangle Rectangle
  | DrawMessageBox Rectangle string string string

definition create_rect :: "int \<Rightarrow> int \<Rightarrow> int \<Rightarrow> int \<Rightarrow> Rectangle" where
  "create_rect x y w h = \<lparr>rx = of_int x, ry = of_int y, rw = of_int w, rh = of_int h\<rparr>"

text \<open>\<open>static_cast<int64_t>\<close> of a float drops the fractional part.\<close>

definition trunc :: "rat \<Rightarrow> int" where
  "trunc x = (if 0 \<le> x then \<lfloor>x\<rfloor> else \<lceil>x\<rceil>)"

section \<open>A frame\<close>

definition configure_style :: "Draw list" where
  "configure_style =
     [GuiSetFont ''../assets/Righteous-Regular.ttf'',
      GuiSetStyle DEFAULT TEXT_SIZE 15,
      GuiSetStyle DEFAULT BACKGROUND_COLOR PRESSED_BACKGROUND_HEX,
      GuiSetStyle DEFAULT LINE_COLOR DARK_BACKGROUND_HEX,
      GuiSetStyle DEFAULT BASE_COLOR_NORMAL LIGHT_BACKGROUND_HEX,
      GuiSetStyle DEFAULT TEXT_COLOR_NORMAL DARK_BROWN_HEX,
      GuiSetStyle DEFAULT BORDER_COLOR_NORMAL DARK_BROWN_HEX,
      GuiSetStyle DEFAULT BASE_COLOR_PRESSED PRESSED_BACKGROUND_HEX,
      GuiSetStyle DEFAULT TEXT_COLOR_PRESSED ORANGE_HEX,
      GuiSetStyle DEFAULT BORDER_COLOR_PRESSED DARK_BROWN_HEX,
      GuiSetStyle DEFAULT BASE_COLOR_FOCUSED LIGHT_BACKGROUND_HEX,
      GuiSetStyle DEFAULT TEXT_COLOR_FOCUSED ORANGE_HEX,
      GuiSetStyle DEFAULT BORDER_COLOR_FOCUSED DARK_BROWN_HEX,
      GuiSetStyle DEFAULT BORDER_COLOR_FOCUSED DARK_BROWN_HEX,
      GuiSetStyle DEFAULT TEXT_COLOR_DISABLED DARK_BROWN_HEX,
      GuiSetStyle DEFAULT BORDER_COLOR_DISABLED DARK_BROWN_HEX]"

definition draw_item :: "TorrentGuiData \<Rightarrow> rat \<Rightarrow> Draw list outcome" where
  "draw_item t pos =
     obind (item_progress t) (\<lambda>progress. Ret (
       [GuiDrawText (item_name t) (create_rect 20 (trunc (112 + pos)) 0 20) TEXT_ALIGN_LEFT GRAY] @
       (case item_bar (gd_state t) progress of
          Some bar \<Rightarrow> [GuiSetStyle PROGRESSBAR BASE_COLOR_PRESSED (bar_color bar),
                       GuiProgressBar (create_rect 275 (trunc (110 + pos)) 300 20) bar 0 100]
        | None \<Rightarrow> []) @
       [GuiLine (create_rect 5 (trunc (145 + pos)) 790 1)]))"

definition delete_rect :: "rat \<Rightarrow> rat \<Rightarrow> Rectangle" where
  "delete_rect y pos = create_rect 760 (trunc (110 + pos + y)) 20 20"

fun draw_torrents :: "rat \<Rightarrow> rat \<Rightarrow> TorrentGuiData list \<Rightarrow> Draw list outcome" where
  "draw_torrents y pos [] = Ret []"
| "draw_torrents y pos (t # ts) =
     (if pos + 50 < \<bar>y\<bar> then draw_torrents y (pos + 50) ts
      else obind (draw_item t (pos + y)) (\<lambda>item.
           obind (draw_torrents y (pos + 50) ts) (\<lambda>rest.
             Ret (item @ [GuiButton (delete_rect y pos) ''#143#''] @ rest))))"

definition button_file_rect :: "Window \<Rightarrow> Rectangle" where
  "button_file_rect w = create_rect (width w - WINDOW_BORDER - 150) 15 150 30"

text \<open>\<open>render_base\<close>; \<open>y\<close> is the position that the scroll panel leaves.\<close>

definition draw_base :: "rat \<Rightarrow> Window \<Rightarrow> Draw list outcome" where
  "draw_base y w =
     (let head = create_rect WINDOW_BORDER 61 (width w - WINDOW_BORDER * 2) 40 in
      obind (draw_torrents y 5 (rows (scroller w))) (\<lambda>items. Ret (
        [DrawTexture ''../assets/Furrent.png'' WINDOW_BORDER WINDOW_BORDER WHITE,
         GuiSetStyle DEFAULT TEXT_SIZE 30,
         GuiDrawText ''Furrent'' (create_rect 65 WINDOW_BORDER 0 50) TEXT_ALIGN_LEFT DARK_BROWN_COLOR,
         GuiSetStyle DEFAULT TEXT_SIZE 15,
         GuiButton (button_file_rect w) ''#3# Open torrent'',
         DrawScrollPanel (create_rect WINDOW_BORDER 100 (width w - WINDOW_BORDER * 2) (height w - 100 - WINDOW_BORDER))
           (create_rect WINDOW_BORDER 50 (width w - 150) (50 * int (length (rows (scroller w)))))] @
        items @
        [GuiDrawRectangle head 1 DARK_BROWN_COLOR DARK_BACKGROUND_COLOR,
         GuiDrawText ''Torrents'' head TEXT_ALIGN_CENTER DARK_BROWN_COLOR,
         GuiDrawRectangle (create_rect WINDOW_BORDER (height w - WINDOW_BORDER) (width w) (width w)) 1
           PRESSED_BACKGROUND_COLOR PRESSED_BACKGROUND_COLOR])))"

text \<open>The dialog is drawn over the whole screen, whose size the library reports.\<close>

definition draw_confirm :: "int \<Rightarrow> int \<Rightarrow> Window \<Rightarrow> Draw list" where
  "draw_confirm screen_width screen_height w =
     (if \<not> delete_torrent (torrent_dialog_state (scroller w)) then []
      else [DrawRectangle 0 0 screen_width screen_height DIALOG_BACKGROUND_COLOR,
            DrawMessageBox (create_rect 200 100 400 200) ''#198# Confirm action''
              ''Are you sure you want to delete this torrent?'' ''Yes;No''])"

section \<open>The calls draw what the frame computes\<close>

fun bars :: "Draw list \<Rightarrow> ProgressBar list" where
  "bars [] = []"
| "bars (GuiProgressBar r b lo hi # ds) = b # bars ds"
| "bars (_ # ds) = bars ds"

fun buttons :: "Draw list \<Rightarrow> Rectangle list" where
  "buttons [] = []"
| "buttons (GuiButton r label # ds) = r # buttons ds"
| "buttons (_ # ds) = buttons ds"

fun default_style :: "Style \<Rightarrow> Draw list \<Rightarrow> int option \<Rightarrow> int option" where
  "default_style p [] v = v"
| "default_style p (GuiSetStyle DEFAULT q x # ds) v = default_style p ds (if q = p then Some x else v)"
| "default_style p (_ # ds) v = default_style p ds v"

text \<open>The rows that are drawn, with their positions.\<close>

fun visible :: "rat \<Rightarrow> rat \<Rightarrow> TorrentGuiData list \<Rightarrow> (rat \<times> TorrentGuiData) list" where
  "visible y pos [] = []"
| "visible y pos (t # ts) = (if pos + 50 < \<bar>y\<bar> then visible y (pos + 50) ts else (pos, t) # visible y (pos + 50) ts)"

lemma bars_append [simp]: "bars (ds @ es) = bars ds @ bars es"
  by (induction ds rule: bars.induct) simp_all

lemma buttons_append [simp]: "buttons (ds @ es) = buttons ds @ buttons es"
  by (induction ds rule: buttons.induct) simp_all

lemma default_style_append [simp]: "default_style p (ds @ es) v = default_style p es (default_style p ds v)"
  by (induction p ds v rule: default_style.induct) simp_all

lemma draw_item_Ret:
  assumes "draw_item t pos = Ret ds"
  obtains n where "item_progress t = Ret n" "bars ds = (case item_bar (gd_state t) n of Some b \<Rightarrow> [b] | None \<Rightarrow> [])"
    "buttons ds = []" "\<forall>p v. default_style p ds v = v"
proof -
  from assms obtain n where "item_progress t = Ret n" by (cases "item_progress t") (auto simp: draw_item_def)
  with assms show thesis by (intro that [of n]) (auto simp: draw_item_def split: option.splits)
qed

text \<open>The rows of a frame: drawing them fails exactly when computing them fails, and the bars are the same.\<close>

lemma draw_torrents_items:
  "obind (draw_torrents y pos ts) (\<lambda>ds. Ret (bars ds)) =
   obind (render_torrents f y pos k ts pressed) (\<lambda>(items, p). Ret (List.map_filter snd items))"
proof (induction ts arbitrary: pos k pressed)
  case (Cons t ts)
  show ?case
  proof (cases "pos + 50 < \<bar>y\<bar>")
    case False
    let ?p = "if delete_button f k then Some t else pressed"
    show ?thesis using False Cons.IH [of "pos + 50" "k + 1" ?p]
      by (cases "item_progress t"; cases "draw_torrents y (pos + 50) ts"; cases "render_torrents f y (pos + 50) (k + 1) ts ?p")
         (auto simp: draw_item_def render_torrent_item_def map_filter_simps split: option.splits)
  qed (use Cons.IH in simp)
qed (simp add: map_filter_simps)

lemma draw_torrents_Ret:
  assumes "draw_torrents y pos ts = Ret ds"
  shows "buttons ds = map (\<lambda>(pos, t). delete_rect y pos) (visible y pos ts)" "default_style p ds v = v"
proof -
  have "buttons ds = map (\<lambda>(pos, t). delete_rect y pos) (visible y pos ts) \<and> (\<forall>v. default_style p ds v = v)"
    using assms
  proof (induction ts arbitrary: pos ds)
    case (Cons t ts)
    show ?case
    proof (cases "pos + 50 < \<bar>y\<bar>")
      case False
      with Cons.prems obtain item rest where r: "draw_item t (pos + y) = Ret item" "draw_torrents y (pos + 50) ts = Ret rest"
        "ds = item @ [GuiButton (delete_rect y pos) ''#143#''] @ rest"
        by (cases "draw_item t (pos + y)"; cases "draw_torrents y (pos + 50) ts") auto
      from r(1) obtain n where "buttons item = []" "\<forall>p v. default_style p item v = v" by (rule draw_item_Ret)
      with Cons.IH [OF r(2)] r(3) False show ?thesis by simp
    qed (use Cons in simp)
  qed simp
  then show "buttons ds = map (\<lambda>(pos, t). delete_rect y pos) (visible y pos ts)" "default_style p ds v = v" by simp_all
qed

lemma draw_base_bars:
  assumes "render_base f w = Ret (items, w')"
  shows "\<exists>ds. draw_base (GuiScrollPanel f (scroll (scroller w))) w = Ret ds \<and> bars ds = List.map_filter snd items"
proof -
  let ?y = "GuiScrollPanel f (scroll (scroller w))"
  from assms obtain p where "render_torrents f ?y 5 0 (rows (scroller w)) None = Ret (items, p)"
    by (auto simp: render_base_def Let_def split: outcome.splits)
  with draw_torrents_items [of ?y 5 "rows (scroller w)" f 0 None] obtain ds where
    "draw_torrents ?y 5 (rows (scroller w)) = Ret ds" "bars ds = List.map_filter snd items"
    by (cases "draw_torrents ?y 5 (rows (scroller w))") auto
  then show ?thesis by (simp add: draw_base_def Let_def)
qed

text \<open>A frame leaves the default styles as \<open>configure_style\<close> has set them.\<close>

lemma draw_base_styles:
  assumes "draw_base y w = Ret ds"
  shows "default_style p (configure_style @ ds) v = default_style p configure_style v"
proof -
  from assms obtain items where d: "draw_torrents y 5 (rows (scroller w)) = Ret items"
    by (cases "draw_torrents y 5 (rows (scroller w))") (auto simp: draw_base_def)
  have "default_style TEXT_SIZE configure_style v = Some 15" by (simp add: configure_style_def)
  with assms d show ?thesis by (cases "p = TEXT_SIZE") (auto simp: draw_base_def Let_def draw_torrents_Ret(2) [OF d])
qed

section \<open>Buttons\<close>

definition inside :: "rat \<times> rat \<Rightarrow> Rectangle \<Rightarrow> bool" where
  "inside m r \<longleftrightarrow> rx r \<le> fst m \<and> fst m \<le> rx r + rw r \<and> ry r \<le> snd m \<and> snd m \<le> ry r + rh r"

lemma trunc_bounds: "x - 1 < of_int (trunc x)" "of_int (trunc x) < x + 1"
  by (cases "0 \<le> x"; simp add: trunc_def; linarith)+

lemma delete_rects_apart: "p + 50 \<le> q \<Longrightarrow> \<not> (inside m (delete_rect y p) \<and> inside m (delete_rect y q))"
  using trunc_bounds [of "110 + p + y"] trunc_bounds [of "110 + q + y"]
  by (simp add: inside_def delete_rect_def create_rect_def)

lemma delete_rect_below_open: "y \<le> 0 \<Longrightarrow> \<not> p + 50 < \<bar>y\<bar> \<Longrightarrow> \<not> (inside m (button_file_rect w) \<and> inside m (delete_rect y p))"
  using trunc_bounds [of "110 + p + y"] by (simp add: inside_def delete_rect_def button_file_rect_def create_rect_def)

lemma visible_apart: "sorted_wrt (\<lambda>a b. fst a + 50 \<le> fst b) (visible y pos ts) \<and>
    (\<forall>x \<in> set (visible y pos ts). pos \<le> fst x \<and> \<not> fst x + 50 < \<bar>y\<bar>)"
  by (induction y pos ts rule: visible.induct) force+

lemma visible_nth:
  "n < length ts \<Longrightarrow> \<not> pos + 50 * of_nat n + 50 < \<bar>y\<bar> \<Longrightarrow> (pos + 50 * of_nat n, ts ! n) \<in> set (visible y pos ts)"
proof (induction y pos ts arbitrary: n rule: visible.induct)
  case (2 y pos t ts)
  then show ?case by (cases n) (auto simp: algebra_simps)
qed simp

lemma filter_sorted_wrt_le_1:
  assumes "sorted_wrt P xs" "\<And>a b. P a b \<Longrightarrow> \<not> (Q a \<and> Q b)"
  shows "length (filter Q xs) \<le> 1"
  using assms(1)
proof (induction xs)
  case (Cons x xs)
  then show ?case using assms(2) [of x] by (cases "Q x") (auto simp: filter_empty_conv)
qed simp

lemma draw_base_buttons:
  assumes "draw_base y w = Ret ds"
  shows "buttons ds = button_file_rect w # map (\<lambda>(pos, t). delete_rect y pos) (visible y 5 (rows (scroller w)))"
proof -
  from assms obtain items where d: "draw_torrents y 5 (rows (scroller w)) = Ret items"
    by (cases "draw_torrents y 5 (rows (scroller w))") (auto simp: draw_base_def)
  with assms show ?thesis by (auto simp: draw_base_def Let_def draw_torrents_Ret(1) [OF d])
qed

lemma buttons_apart:
  assumes "draw_base y w = Ret ds" "y \<le> 0"
  shows "length (filter (inside m) (buttons ds)) \<le> 1"
proof -
  let ?v = "visible y 5 (rows (scroller w))"
  note b = draw_base_buttons [OF assms(1)]
  have l: "length (filter (inside m) (map (\<lambda>(pos, t). delete_rect y pos) ?v)) \<le> 1"
    using filter_sorted_wrt_le_1 [OF visible_apart [THEN conjunct1], of "inside m \<circ> (\<lambda>(pos, t). delete_rect y pos)"]
      delete_rects_apart by (fastforce simp: filter_map)
  show ?thesis
  proof (cases "inside m (button_file_rect w)")
    case True
    then have "\<forall>x \<in> set ?v. \<not> inside m (delete_rect y (fst x))"
      using delete_rect_below_open [OF assms(2)] visible_apart by blast
    then have "filter (inside m) (map (\<lambda>(pos, t). delete_rect y pos) ?v) = []" by (auto simp: filter_empty_conv)
    then show ?thesis by (simp add: b)
  qed (use l in \<open>simp add: b\<close>)
qed

text \<open>The row whose delete button is reported, when it is the only one of those drawn.\<close>

definition drawn :: "rat \<Rightarrow> rat \<Rightarrow> nat \<Rightarrow> bool" where
  "drawn y pos n \<longleftrightarrow> \<not> pos + 50 * of_nat n + 50 < \<bar>y\<bar>"

lemma drawn_simps [simp]: "drawn y pos 0 \<longleftrightarrow> \<not> pos + 50 < \<bar>y\<bar>" "drawn y pos (Suc n) \<longleftrightarrow> drawn y (pos + 50) n"
  by (auto simp: drawn_def algebra_simps)

lemma render_torrents_unpressed:
  assumes "render_torrents f y pos k ts pressed = Ret (items, p)"
    "\<And>j. j < length ts \<Longrightarrow> drawn y pos j \<Longrightarrow> \<not> delete_button f (k + j)"
  shows "p = pressed"
  using assms
proof (induction ts arbitrary: pos k pressed items)
  case (Cons t ts)
  have r: "\<And>j. j < length ts \<Longrightarrow> drawn y (pos + 50) j \<Longrightarrow> \<not> delete_button f (k + 1 + j)"
    using Cons.prems(2) [of "Suc _"] by simp
  show ?case
  proof (cases "pos + 50 < \<bar>y\<bar>")
    case True
    with Cons.IH [OF _ r] Cons.prems(1) show ?thesis by simp
  next
    case False
    then have "\<not> delete_button f k" using Cons.prems(2) [of 0] by simp
    with False Cons.prems(1) obtain items' where "render_torrents f y (pos + 50) (k + 1) ts pressed = Ret (items', p)"
      by (cases "render_torrent_item t"; cases "render_torrents f y (pos + 50) (k + 1) ts pressed") auto
    then show ?thesis using Cons.IH r by blast
  qed
qed simp

lemma render_torrents_pressed:
  assumes "render_torrents f y pos k ts pressed = Ret (items, p)" "n < length ts" "drawn y pos n" "delete_button f (k + n)"
    "\<And>j. j < length ts \<Longrightarrow> drawn y pos j \<Longrightarrow> j \<noteq> n \<Longrightarrow> \<not> delete_button f (k + j)"
  shows "p = Some (ts ! n)"
  using assms
proof (induction ts arbitrary: pos k pressed items n)
  case (Cons t ts)
  show ?case
  proof (cases n)
    case 0
    with Cons.prems obtain items' where i: "render_torrents f y (pos + 50) (k + 1) ts (Some t) = Ret (items', p)"
      by (cases "render_torrent_item t"; cases "render_torrents f y (pos + 50) (k + 1) ts (Some t)") auto
    have "p = Some t" by (rule render_torrents_unpressed [OF i]) (use Cons.prems(5) [of "Suc _"] 0 in simp)
    with 0 show ?thesis by simp
  next
    case (Suc n')
    from Cons.prems(1) obtain items' pr where i: "render_torrents f y (pos + 50) (k + 1) ts pr = Ret (items', p)"
      by (cases "render_torrent_item t") (auto split: if_splits)
    have "p = Some (ts ! n')"
      by (rule Cons.IH [OF i]) (use Cons.prems(2-4) Cons.prems(5) [of "Suc _"] Suc in simp_all)
    with Suc show ?thesis by simp
  qed
qed simp

text \<open>
  raygui reports a button as pressed only when the mouse is over it: \<open>m\<close> is the place of the mouse,
  and \<open>y\<close> the position of the panel.
\<close>

definition reports :: "rat \<times> rat \<Rightarrow> ui \<Rightarrow> Window \<Rightarrow> bool" where
  "reports m f w \<longleftrightarrow> (open_button f \<longrightarrow> inside m (button_file_rect w)) \<and>
     (\<forall>k < length (rows (scroller w)). delete_button f k \<longrightarrow>
        inside m (delete_rect (GuiScrollPanel f (scroll (scroller w))) (5 + 50 * of_nat k)))"


text \<open>Two rows, the list scrolled up by 20, and the mouse on the button of the second one.\<close>

definition demo_rows :: "TorrentGuiData list" where
  "demo_rows = [\<lparr>gd_tid = 0, gd_state = Downloading, gd_filename = ''a'', gd_processed = 1, gd_count = 2\<rparr>,
     \<lparr>gd_tid = 1, gd_state = Completed, gd_filename = ''b'', gd_processed = 3, gd_count = 3\<rparr>]"

definition demo_window :: Window where
  "demo_window = set_rows demo_rows (Window_init ''Furrent'' 800 600
     \<lparr>fileDialogActive = False, SelectFilePressed = False, fileNameText = [], dirPathText = []\<rparr>)"

definition demo_ui :: ui where
  "demo_ui = \<lparr>open_button = False, GuiFileDialog = id, IsFileExtension = (\<lambda>_ _. True), GuiScrollPanel = (\<lambda>_. -20),
     GetMouseWheelMove = 0, delete_button = (\<lambda>k. k = 1), GuiMessageBox = -1\<rparr>"


end
