(* ===== verification/Logger.thy ===== *)
theory Logger
  imports Effect
begin

text \<open>
  The logger (log/logger.cpp) and what the program uses of spdlog: the registry of loggers by name,
  and the level below which a message is dropped. The state is the registry and what the sinks
  have received. Whether the log file can be opened is an argument.
\<close>

section \<open>The registry\<close>

datatype level_enum = trace | debug | info | warn | err | critical | off

primrec level_value :: "level_enum \<Rightarrow> nat" where
  "level_value trace = 0"
| "level_value debug = 1"
| "level_value info = 2"
| "level_value warn = 3"
| "level_value err = 4"
| "level_value critical = 5"
| "level_value off = 6"

datatype sink = stdout_color_sink_mt | basic_file_sink_mt string

record logger =
  logger_name :: string
  sinks :: "sink list"
  log_pattern :: string
  log_level :: level_enum

record Log =
  loggers :: "string \<Rightarrow> logger option"
  received :: "(sink \<times> level_enum \<times> string) list"

definition register_logger :: "logger \<Rightarrow> (Log, unit) eff" where
  "register_logger l log =
     (if loggers log (logger_name l) \<noteq> None then (Throw spdlog_ex, log)
      else (Ret (), log\<lparr>loggers := (loggers log)(logger_name l \<mapsto> l)\<rparr>))"

definition get_logger :: "string \<Rightarrow> Log \<Rightarrow> logger option" where
  "get_logger name log = loggers log name"

text \<open>A message of the program: \<open>spdlog::get("custom")\<close> and a call through the pointer it returns.\<close>

definition log_message :: "level_enum \<Rightarrow> string \<Rightarrow> (Log, unit) eff" where
  "log_message lvl msg log =
     (case get_logger ''custom'' log of
        None \<Rightarrow> (UB NullPointer, log)
      | Some l \<Rightarrow> (Ret (), if level_value (log_level l) \<le> level_value lvl
                   then log\<lparr>received := received log @ map (\<lambda>s. (s, lvl, msg)) (sinks l)\<rparr> else log))"

section \<open>The logger of the program\<close>

definition FUR_LOG_FILE :: string where "FUR_LOG_FILE = ''log.txt''"
definition FUR_LOG_FORMAT :: string where "FUR_LOG_FORMAT = ''[%T][%L][%t] %v''"

definition initialize_custom_logger :: "(string \<Rightarrow> bool) \<Rightarrow> bool \<Rightarrow> (Log, logger) eff" where
  "initialize_custom_logger can_open do_file_sink log =
     (if do_file_sink \<and> \<not> can_open FUR_LOG_FILE then (Throw spdlog_ex, log)
      else let l = \<lparr>logger_name = ''custom'',
                    sinks = [stdout_color_sink_mt] @ (if do_file_sink then [basic_file_sink_mt FUR_LOG_FILE] else []),
                    log_pattern = FUR_LOG_FORMAT, log_level = info\<rparr>
           in bind_eff (register_logger l) (\<lambda>_. ret l) log)"

primrec log_messages :: "(level_enum \<times> string) list \<Rightarrow> (Log, unit) eff" where
  "log_messages [] = ret ()"
| "log_messages (m # ms) = bind_eff (log_message (fst m) (snd m)) (\<lambda>_. log_messages ms)"

lemma log_messages_custom:
  assumes "loggers log ''custom'' = Some l" "log_level l = info"
  shows "log_messages ms log =
    (Ret (), log\<lparr>received := received log @
       concat (map (\<lambda>(lvl, msg). map (\<lambda>s. (s, lvl, msg)) (sinks l)) (filter (\<lambda>m. fst m \<notin> {trace, debug}) ms))\<rparr>)"
  using assms
proof (induction ms arbitrary: log)
  case (Cons m ms)
  have "2 \<le> level_value (fst m) \<longleftrightarrow> fst m \<notin> {trace, debug}" by (cases "fst m") simp_all
  with Cons show ?case
    by (auto simp: bind_eff_def log_message_def get_logger_def split: prod.split)
qed (simp add: ret_def)

text \<open>
  Once the logger is initialised no message of the program goes through a null pointer, and the
  sinks receive exactly the messages above the debug level, in their order.
\<close>

theorem initialized_logger_writes:
  assumes "initialize_custom_logger can_open do_file_sink log = (Ret l, log')"
  shows "log_messages ms log' =
    (Ret (), log'\<lparr>received := received log @
       concat (map (\<lambda>(lvl, msg). map (\<lambda>s. (s, lvl, msg)) (sinks l)) (filter (\<lambda>m. fst m \<notin> {trace, debug}) ms))\<rparr>)"
proof -
  from assms have "loggers log' ''custom'' = Some l" "log_level l = info" "received log' = received log"
    by (auto simp: initialize_custom_logger_def register_logger_def bind_eff_def ret_def Let_def split: if_splits)
  then show ?thesis by (simp add: log_messages_custom)
qed

text \<open>The logger can be made once; a message before that is undefined behaviour.\<close>

lemma initialize_custom_logger_twice:
  assumes "loggers log ''custom'' \<noteq> None" "can_open FUR_LOG_FILE"
  shows "initialize_custom_logger can_open do_file_sink log = (Throw spdlog_ex, log)"
  using assms by (auto simp: initialize_custom_logger_def register_logger_def bind_eff_def Let_def)

lemma log_before_initialize: "loggers log ''custom'' = None \<Longrightarrow> log_message lvl msg log = (UB NullPointer, log)"
  by (simp add: log_message_def get_logger_def)

end
