(* ===== verification/Spec2Isabelle.thy ===== *)
theory Spec2Isabelle
  imports Result_Type Wire_Util Bitfield Bencode Bencode_Spec Sha1 Hash Torrent_File Peer Torrent
    Message Policy_Queue Sharing_Queue Effect Platform_IO Thread_Group Socket Downloader Scripted_Peer
    Piece_Task Furrent Client_Inv Peer_Stats Session Demo_Run Completion Isolation Client_Spec Client_Shutdown
    Client_Progress Gui Gui_Rows Gui_Draw Logger
begin

text \<open>
  Furrent is a BitTorrent client. The window (gui/) hands the file the user picks to the client
  (furrent.cpp), which parses it (bencode/, torrent.cpp, hash.cpp), creates the output files
  (platform/io.cpp), asks the tracker for peers (peer.cpp), and puts a task for each piece into a
  queue that several threads share (policy/, mt/). Each worker of a thread group takes a task,
  connects to a peer (download/), requests the blocks of the piece, checks its hash, writes it
  to the disk and counts it; the last piece completes the torrent. Paths below are relative to
  src/src.

  \<^bold>\<open>Conventions.\<close> A call returns, throws, or runs into undefined behaviour: \<open>Ret\<close>, \<open>Throw\<close>
  and \<open>UB\<close> of \<open>outcome\<close> (Fur_Prelude). The source's \<open>Result\<close> is a value inside \<open>Ret\<close>. An
  \<open>int64_t\<close> is an \<open>int\<close> with overflow as undefined behaviour; bytes and the words of SHA-1 are
  machine words. Stateful code maps a state to an outcome and a state (Effect); loops that wait
  for the network may not end, and then their value is \<open>None\<close>. There is no fuel anywhere: the
  other recursions are total.

  \<^bold>\<open>Theories and sources.\<close>
  \<^item> Result_Type: util/result. Wire_Util: download/util. Bitfield: download/bitfield.
  \<^item> Bencode, Bencode_Spec: bencode/, and the grammar that the parser is proved to implement.
  \<^item> Sha1: third_party/smallsha1 (outside src/src). Hash: hash.cpp.
  \<^item> Torrent_File, Torrent: torrent.cpp, the constructor of the descriptor and the torrent object.
  \<^item> Peer: peer.cpp; the HTTP client is the argument \<open>get\<close>.
  \<^item> Message, Socket, Downloader: download/; asio is a record of operations on a world of the
    caller's choice. Scripted_Peer is one such world, a peer whose bytes are fixed in advance.
  \<^item> Policy_Queue, Sharing_Queue, Thread_Group: policy/ and mt/.
  \<^item> Platform_IO: platform/io over a map from paths to directories and files.
  \<^item> Piece_Task, Furrent: furrent.cpp, the tasks, the operations of the client and the steps of the
    workers; Peer_Stats is the picture of the peers that a worker logs.
  \<^item> Client_Inv, Session, Completion, Isolation, Client_Shutdown, Client_Progress: what holds in
    every run of the client. Client_Spec is its contract, a book of torrents that changes in six
    ways, and the proof that the client implements it. Demo_Run is a complete run on a concrete
    disk, tracker and peer.
  \<^item> Gui, Gui_Rows: gui/, main.cpp, config.hpp and util/singleton; raylib is a record of what its
    calls report in a frame. Gui_Draw: the calls that draw a frame, with their places and styles.
  \<^item> Logger: log/logger.cpp and the registry of spdlog.

  \<^bold>\<open>Concurrency.\<close> \<open>queue_step\<close> has a step for each section under the mutex of the queue and
  another for the notification after it, with spurious wake-ups. \<open>fur_step\<close> has these steps for the
  client's queue and steps of the workers and of the main thread: a worker extracts, copies the
  peers of the torrent, makes an attempt on one peer, adds to the counter, and sets the state, with
  the others running in between. The label of a step tells an attempt from the other work, since
  attempts may go on for ever and the rest may not; \<open>remove_torrent\<close> and the destructor take three steps each. An
  attempt, network and disk included, is one step, so two workers do not interleave inside their
  writes; and the part of \<open>add_torrent\<close> under the exclusive lock is one step, for which
  \<open>extract_after_emplace\<close> is the reason. \<open>app_step\<close> adds the phases of a frame of the window.
  Memory orders are not modelled: every atomic access is sequentially consistent.

  \<^bold>\<open>What is shown.\<close>
  \<^item> Data: round trips of the integer codec, messages, bencode, torrent files, addresses and
    hashes; the parser accepts exactly the grammar, with its exceptions stated; the bundled SHA-1
    is the standard's; the pieces of a torrent partition its files.
  \<^item> Download: whatever the peer sends, a piece that is returned has the right hash; an honest peer
    makes the download succeed; finitely many messages make it return.
  \<^item> Client: a completed single-file torrent is on the disk with the hashes of its descriptor; no
    piece is lost or counted twice; every run is a run of the contract; torrents that are added
    write to files of their own; no wake-up of a worker is lost, and queued work is taken up
    within a bounded number of steps; the destructor returns within a bounded number of steps
    once no worker is downloading.
  \<^item> Window: its rows follow the client, their percentages are between 0 and 100, and a click
    asks for the removal of the torrent under the mouse.
  \<^item> Logger: once it is initialised no message goes through a null pointer.
  \<^item> Faults: theorems that exhibit reads and writes out of bounds (parser, pieces, blocks), a
    division by zero in the window, a destructor that waits for ever, lost wake-ups of
    \<open>wait_empty\<close>, every other peer dropped, pieces written to the wrong file, and the files of
    a torrent deleted when it is added for the twelfth time.

  \<^bold>\<open>Parameters.\<close> \<open>get\<close> (HTTP), \<open>asio\<close>, \<open>ui\<close> (raylib), the number of hardware threads, the draws of the
  random generator, and \<open>past\<close>, the value found one past the list of files, where \<open>None\<close> makes
  that read undefined behaviour. The interfaces between components are the locales \<open>codec\<close>,
  \<open>bit_array\<close>, \<open>queue_policy\<close>, \<open>disk\<close>, \<open>connection\<close> and \<open>refinement_map\<close>, each interpreted on the definitions here.

  \<^bold>\<open>Not modelled.\<close> The places where log messages are written, but the picture of the peers: output
  only. The file dialog, which raylib draws, and the functions that store the three functions of
  main in the window, where they are fixed; a coordinate or a scroll position is a rational number
  instead of a float. Symbolic links, dot-dot in
  paths and a full disk; exhaustion of memory; the internals of asio, cpr, raylib and spdlog.
\<close>

end
